(* ===== verification/Prelude.thy ===== *)
theory Prelude
  imports "HOL-Library.Word"
begin

text \<open>
  Shared vocabulary of the SecureOS development: the machine integer types of the C sources, the
  first-match loop over a fixed array, the bounded sequential text writer with its decimal
  printer, fixed-capacity ring buffers, and the lemma collections that the component theories
  rely on.  Nothing in this theory is specific to one source file; the definitions here are the
  C idioms that several files repeat.
\<close>

unbundle bit_operations_syntax

section \<open>Machine integers\<close>

type_synonym u8 = "8 word"
type_synonym u16 = "16 word"
type_synonym u32 = "32 word"
type_synonym u64 = "64 word"

text \<open>
  The kernel is built for \<^verbatim>\<open>x86_64-unknown-none-elf\<close>, so \<^verbatim>\<open>size_t\<close> and \<^verbatim>\<open>uintptr_t\<close> have 64
  bits.  Array indices, which the code keeps below a small constant, are \<^typ>\<open>nat\<close>; counters
  that may wrap are words.
\<close>

named_theorems kernel_defs \<open>definitions unfolded together when an operation is run\<close>
named_theorems word_facts \<open>facts that read machine words as natural numbers\<close>

definition u8_bit :: "nat \<Rightarrow> u8" where
  \<comment> \<open>\<^verbatim>\<open>(uint8_t)(1u << bit)\<close>\<close>
  "u8_bit b = ucast (push_bit b (1 :: u32))"

section \<open>First match in a table\<close>

text \<open>
  The loops of the form \<^verbatim>\<open>for (i = 0; i < N; ++i) if (P(slot[i])) return i;\<close> that every fixed
  table of the kernel uses.
\<close>

primrec find_idx :: "('a \<Rightarrow> bool) \<Rightarrow> 'a list \<Rightarrow> nat option" where
  "find_idx P [] = None"
| "find_idx P (x # xs) = (if P x then Some 0 else map_option Suc (find_idx P xs))"

section \<open>Decimal digits\<close>

text \<open>
  The freestanding decimal writers of the sources collect digits least significant first in a
  scratch array and copy them out in reverse; zero is the single digit \<^verbatim>\<open>'0'\<close>.
\<close>

definition digit_char :: "nat \<Rightarrow> char" where
  "digit_char d = char_of (48 + d)"

fun digits_rev :: "nat \<Rightarrow> string" where
  "digits_rev n = (if n = 0 then [] else digit_char (n mod 10) # digits_rev (n div 10))"

declare digits_rev.simps [simp del]

definition dec_string :: "nat \<Rightarrow> string" where
  "dec_string n = (if n = 0 then ''0'' else rev (digits_rev n))"

text \<open>
  The 64-bit writers bound the digit loop by the size of their scratch array: 21 bytes in
  \<^verbatim>\<open>capability.c\<close>, 24 in \<^verbatim>\<open>workflow_rule.c\<close>.
\<close>

fun u64_digit_loop :: "nat \<Rightarrow> u64 \<Rightarrow> string" where
  "u64_digit_loop 0 v = []"
| "u64_digit_loop (Suc free) v =
    (if v = 0 then [] else digit_char (unat (v mod 10)) # u64_digit_loop free (v div 10))"

fun dec_value :: "string \<Rightarrow> nat" where
  "dec_value [] = 0"
| "dec_value (c # cs) = (of_char c - 48) * 10 ^ length cs + dec_value cs"

definition is_digit :: "char \<Rightarrow> bool" where
  "is_digit c \<longleftrightarrow> 48 \<le> (of_char c :: nat) \<and> (of_char c :: nat) \<le> 57"

section \<open>Ring buffers\<close>

text \<open>
  The audit log, its checkpoint log and the event topics share one layout: an array of \<open>cap\<close>
  slots, the index written next, and the number of slots in use.  Once the ring is full the oldest
  entry sits at the write index.
\<close>

definition ring_start :: "nat \<Rightarrow> nat \<Rightarrow> nat \<Rightarrow> nat" where
  "ring_start cap nxt cnt = (if cnt = cap then nxt else 0)"

definition ring_contents :: "nat \<Rightarrow> 'a list \<Rightarrow> nat \<Rightarrow> nat \<Rightarrow> 'a list" where
  "ring_contents cap slots nxt cnt =
     map (\<lambda>i. slots ! ((ring_start cap nxt cnt + i) mod cap)) [0..<cnt]"

definition ring_ok :: "nat \<Rightarrow> 'a list \<Rightarrow> nat \<Rightarrow> nat \<Rightarrow> bool" where
  "ring_ok cap slots nxt cnt \<longleftrightarrow>
     length slots = cap \<and> nxt < cap \<and> cnt \<le> cap \<and> (cnt < cap \<longrightarrow> nxt = cnt)"

definition keep_last :: "nat \<Rightarrow> 'a list \<Rightarrow> 'a list" where
  "keep_last n xs = drop (length xs - n) xs"

section \<open>Generic lemmas\<close>

subsection \<open>Words\<close>

lemma bit_u8_bit [simp]: "bit (u8_bit b) n \<longleftrightarrow> n = b \<and> b < 8"
  by (auto simp: u8_bit_def bit_simps)

lemma u8_and_bit_eq_0 [simp]: "b < 8 \<Longrightarrow> w AND u8_bit b = 0 \<longleftrightarrow> \<not> bit w b"
proof
  assume b: "b < 8" and "w AND u8_bit b = 0"
  then have "\<not> bit (w AND u8_bit b) b" by simp
  then show "\<not> bit w b" using b by (simp add: bit_and_iff)
next
  assume "\<not> bit w b"
  then show "w AND u8_bit b = 0" by (intro bit_word_eqI) (auto simp: bit_and_iff)
qed

lemma unat_word_bound: "unat w < 2 ^ LENGTH('a)" for w :: "'a::len word"
  by (rule unsigned_less)

lemma unat_of_nat_small: "n < 2 ^ LENGTH('a) \<Longrightarrow> unat (of_nat n :: 'a::len word) = n"
  by (simp add: unat_of_nat)

lemma unat_lt_iff [word_facts]: "a < b \<longleftrightarrow> unat a < unat b" for a b :: "'a::len word"
  by (rule word_less_nat_alt)

lemma unat_le_iff [word_facts]: "a \<le> b \<longleftrightarrow> unat a \<le> unat b" for a b :: "'a::len word"
  by (rule word_le_nat_alt)

lemma unat_ucast_u64 [simp]: "unat (ucast w :: u64) = unat w" for w :: u32
proof -
  have "unat w < 2 ^ 64" using unat_word_bound [of w] by simp
  then show ?thesis by (simp add: unsigned_ucast_eq take_bit_nat_eq_self)
qed

lemma ucast_u64_inject [simp]: "(ucast a :: u64) = ucast b \<longleftrightarrow> a = b" for a b :: u32
  by (metis unat_ucast_u64 word_unat_eq_iff)

subsection \<open>Strings\<close>

lemma split_at_sep:
  assumes "xs @ c # ys = xs' @ c # ys'" "c \<notin> set xs" "c \<notin> set xs'"
  shows "xs = xs' \<and> ys = ys'"
proof -
  have "takeWhile (\<lambda>x. x \<noteq> c) (xs @ c # ys) = xs" "takeWhile (\<lambda>x. x \<noteq> c) (xs' @ c # ys') = xs'"
    using assms(2,3) by (auto simp: takeWhile_append)
  with assms(1) show ?thesis by auto
qed

lemma sep_cancel:
  "c \<notin> set xs \<Longrightarrow> c \<notin> set xs' \<Longrightarrow> xs @ c # ys = xs' @ c # ys' \<longleftrightarrow> xs = xs' \<and> ys = ys'"
  using split_at_sep [of xs c ys xs' ys'] by auto

subsection \<open>First match\<close>

lemma find_idx_Some_iff:
  "find_idx P xs = Some i \<longleftrightarrow> i < length xs \<and> P (xs ! i) \<and> (\<forall>j<i. \<not> P (xs ! j))"
proof (induction xs arbitrary: i)
  case Nil
  then show ?case by simp
next
  case (Cons x xs)
  show ?case
  proof (cases i)
    case 0
    then show ?thesis by auto
  next
    case (Suc k)
    then show ?thesis
      using Cons.IH [of k] by (auto simp: All_less_Suc2)
  qed
qed

lemma find_idx_None_iff: "find_idx P xs = None \<longleftrightarrow> (\<forall>i<length xs. \<not> P (xs ! i))"
  by (induction xs) (auto simp: All_less_Suc2)

lemma find_idx_unique:
  assumes "i < length xs" "P (xs ! i)" "\<And>j. j < length xs \<Longrightarrow> P (xs ! j) \<Longrightarrow> j = i"
  shows "find_idx P xs = Some i"
  unfolding find_idx_Some_iff
proof (intro conjI allI impI notI)
  fix j assume "j < i" "P (xs ! j)"
  then show False using assms(3) [of j] assms(1) by simp
qed (fact assms)+

lemma find_idx_SomeD:
  assumes "find_idx P xs = Some i"
  shows "i < length xs" and "P (xs ! i)" and "\<And>j. j < i \<Longrightarrow> \<not> P (xs ! j)"
  using assms by (auto simp: find_idx_Some_iff)

lemma find_idx_cong_on:
  "(\<And>i. i < length xs \<Longrightarrow> P (xs ! i) = Q (ys ! i)) \<Longrightarrow> length xs = length ys \<Longrightarrow>
   find_idx P xs = find_idx Q ys"
proof (induction xs arbitrary: ys)
  case Nil
  then show ?case by simp
next
  case (Cons x xs)
  then obtain y ys' where ys: "ys = y # ys'" by (cases ys) auto
  have "P x = Q y" using Cons.prems(1) [of 0] ys by simp
  moreover have "find_idx P xs = find_idx Q ys'"
    using Cons.prems(1) [of "Suc i" for i] Cons.prems(2) ys by (intro Cons.IH) auto
  ultimately show ?case using ys by simp
qed

subsection \<open>Loops that rewrite a table row by row\<close>

lemma fold_update_nth:
  "m \<le> length xs \<Longrightarrow>
   fold (\<lambda>i xs. if P i (xs ! i) then xs[i := f (xs ! i)] else xs) [0..<m] xs =
   map (\<lambda>i. if i < m \<and> P i (xs ! i) then f (xs ! i) else xs ! i) [0..<length xs]"
proof (induction m)
  case 0
  show ?case by (simp add: map_nth)
next
  case (Suc m)
  then show ?case
    by (auto simp: less_Suc_eq nth_list_update intro!: nth_equalityI)
qed

lemma card_less_Suc_filter:
  "card {i. i < Suc m \<and> Q i} = (if Q m then card {i. i < m \<and> Q i} + 1 else card {i. i < m \<and> Q i})"
proof -
  have "{i. i < Suc m \<and> Q i} = (if Q m then insert m {i. i < m \<and> Q i} else {i. i < m \<and> Q i})"
    by (auto simp: less_Suc_eq)
  then show ?thesis by simp
qed

lemma fold_count_update:
  "m \<le> length xs \<Longrightarrow>
   fold (\<lambda>i (n :: nat, xs). if Q (xs ! i) then (n + 1, xs[i := f (xs ! i)]) else (n, xs)) [0..<m] (0, xs) =
   (card {i. i < m \<and> Q (xs ! i)},
    map (\<lambda>i. if i < m \<and> Q (xs ! i) then f (xs ! i) else xs ! i) [0..<length xs])"
proof (induction m)
  case 0
  show ?case by (simp add: map_nth)
next
  case (Suc m)
  let ?g = "\<lambda>m i. if i < m \<and> Q (xs ! i) then f (xs ! i) else xs ! i"
  have "map (?g (Suc m)) [0..<length xs] =
      (if Q (xs ! m) then (map (?g m) [0..<length xs])[m := f (xs ! m)] else map (?g m) [0..<length xs])"
    using Suc.prems by (auto simp: less_Suc_eq nth_list_update intro!: nth_equalityI)
  then show ?case using Suc by (simp add: card_less_Suc_filter [of m "\<lambda>i. Q (xs ! i)"])
qed

subsection \<open>Decimal digits\<close>

lemma of_char_digit_char [simp]: "d < 10 \<Longrightarrow> (of_char (digit_char d) :: nat) = 48 + d"
  by (simp add: digit_char_def)

lemma digits_rev_0 [simp]: "digits_rev 0 = []"
  by (simp add: digits_rev.simps)

lemma digits_rev_pos: "0 < n \<Longrightarrow> digits_rev n = digit_char (n mod 10) # digits_rev (n div 10)"
  by (subst digits_rev.simps) simp

lemma is_digit_digits_rev: "c \<in> set (digits_rev n) \<Longrightarrow> is_digit c"
proof (induction n rule: digits_rev.induct)
  case (1 n)
  then show ?case
    by (cases "n = 0") (auto simp: digits_rev_pos is_digit_def)
qed

lemma dec_value_append: "dec_value (xs @ ys) = dec_value xs * 10 ^ length ys + dec_value ys"
  by (induction xs) (auto simp: algebra_simps power_add)

lemma dec_value_rev_digits_rev: "dec_value (rev (digits_rev n)) = n"
proof (induction n rule: digits_rev.induct)
  case (1 n)
  then show ?case
    by (cases "n = 0") (auto simp: digits_rev_pos dec_value_append)
qed

lemma dec_value_dec_string [simp]: "dec_value (dec_string n) = n"
  by (simp add: dec_string_def dec_value_rev_digits_rev)

lemma dec_string_inject [simp]: "dec_string m = dec_string n \<longleftrightarrow> m = n"
  by (metis dec_value_dec_string)

lemma is_digit_dec_string: "c \<in> set (dec_string n) \<Longrightarrow> is_digit c"
  by (auto simp: dec_string_def is_digit_digits_rev split: if_splits) (simp add: is_digit_def)

lemma dec_string_nonempty [simp]: "dec_string n \<noteq> []"
  by (auto simp: dec_string_def digits_rev_pos)

lemma length_digits_rev: "n < 10 ^ k \<Longrightarrow> length (digits_rev n) \<le> k"
proof (induction k arbitrary: n)
  case 0
  then show ?case by simp
next
  case (Suc k)
  show ?case
  proof (cases "n = 0")
    case False
    from Suc.prems have "n div 10 < 10 ^ k" by (simp add: less_mult_imp_div_less mult.commute)
    with Suc.IH False show ?thesis by (simp add: digits_rev_pos)
  qed simp
qed

lemma length_dec_string: "n < 10 ^ k \<Longrightarrow> 0 < k \<Longrightarrow> length (dec_string n) \<le> k"
  using length_digits_rev [of n k] by (auto simp: dec_string_def)

lemma length_dec_u32: "length (dec_string (unat (w :: u32))) \<le> 10"
  by (rule length_dec_string) (use unat_word_bound [of w] in auto)

lemma length_dec_u64: "length (dec_string (unat (w :: u64))) \<le> 20"
  by (rule length_dec_string) (use unat_word_bound [of w] in auto)

lemma u64_digit_loop_eq: "unat v < 10 ^ k \<Longrightarrow> u64_digit_loop k v = digits_rev (unat v)"
proof (induction k v rule: u64_digit_loop.induct)
  case (2 free v)
  have "unat (v div 10) < 10 ^ free"
    using 2(2) by (simp add: unat_div less_mult_imp_div_less mult.commute)
  with 2(1) show ?case
    by (cases "v = 0") (simp_all add: digits_rev_pos unat_div unat_mod word_unat_eq_iff)
qed simp

lemma u64_digits:
  assumes "20 \<le> k"
  shows "(if v = 0 then ''0'' else u64_digit_loop k v) = rev (dec_string (unat v))"
proof -
  have "unat v < 10 ^ 20" using unat_word_bound [of v] by simp
  also have "(10 :: nat) ^ 20 \<le> 10 ^ k" using assms by (rule power_increasing) simp
  finally show ?thesis by (auto simp: u64_digit_loop_eq dec_string_def word_unat_eq_iff)
qed

subsection \<open>Ring buffers\<close>

lemma ring_ok_start: "ring_ok cap slots nxt cnt \<Longrightarrow> ring_start cap nxt cnt < cap"
  by (auto simp: ring_ok_def ring_start_def)

lemma length_ring_contents [simp]: "length (ring_contents cap slots nxt cnt) = cnt"
  by (simp add: ring_contents_def)

lemma ring_push_ok:
  "ring_ok cap slots nxt cnt \<Longrightarrow>
   ring_ok cap (slots[nxt := x]) ((nxt + 1) mod cap) (if cnt < cap then cnt + 1 else cnt)"
  by (auto simp: ring_ok_def)

lemma ring_push_contents_partial:
  assumes ok: "ring_ok cap slots nxt cnt" and room: "cnt < cap"
  shows "ring_contents cap (slots[nxt := x]) ((nxt + 1) mod cap) (cnt + 1) =
         ring_contents cap slots nxt cnt @ [x]"
proof -
  from ok room have nxt: "nxt = cnt" and len: "length slots = cap"
    by (auto simp: ring_ok_def)
  have start: "ring_start cap ((nxt + 1) mod cap) (cnt + 1) = 0"
    using nxt room by (auto simp: ring_start_def)
  show ?thesis
    using start nxt len room by (simp add: ring_contents_def ring_start_def)
qed

lemma ring_push_contents_full:
  assumes ok: "ring_ok cap slots nxt cap"
  shows "ring_contents cap (slots[nxt := x]) ((nxt + 1) mod cap) cap =
         tl (ring_contents cap slots nxt cap) @ [x]"
proof (rule nth_equalityI)
  show "length (ring_contents cap (slots[nxt := x]) ((nxt + 1) mod cap) cap) =
        length (tl (ring_contents cap slots nxt cap) @ [x])"
    using ok by (auto simp: ring_ok_def)
next
  fix i assume "i < length (ring_contents cap (slots[nxt := x]) ((nxt + 1) mod cap) cap)"
  then have i: "i < cap" by simp
  from ok have nxt: "nxt < cap" and len: "length slots = cap" by (auto simp: ring_ok_def)
  have idx: "((nxt + 1) mod cap + i) mod cap = (nxt + (i + 1)) mod cap"
    by (metis add.assoc add.commute mod_add_left_eq)
  have lhs: "ring_contents cap (slots[nxt := x]) ((nxt + 1) mod cap) cap ! i =
             (slots[nxt := x]) ! ((nxt + (i + 1)) mod cap)"
    using i idx by (simp add: ring_contents_def ring_start_def)
  show "ring_contents cap (slots[nxt := x]) ((nxt + 1) mod cap) cap ! i =
        (tl (ring_contents cap slots nxt cap) @ [x]) ! i"
  proof (cases "i + 1 = cap")
    case True
    then have "(nxt + (i + 1)) mod cap = nxt" using nxt by simp
    with True lhs len nxt show ?thesis by (auto simp: nth_append)
  next
    case False
    with i have i1: "i + 1 < cap" by simp
    have ne: "(nxt + (i + 1)) mod cap \<noteq> nxt"
      using i1 nxt by (auto simp: mod_if)
    have "(tl (ring_contents cap slots nxt cap) @ [x]) ! i = slots ! ((nxt + (i + 1)) mod cap)"
      using i1 by (auto simp: nth_append nth_tl ring_contents_def ring_start_def)
    with lhs ne show ?thesis by simp
  qed
qed

lemma keep_last_snoc_full:
  "length xs = n \<Longrightarrow> 0 < n \<Longrightarrow> keep_last n (xs @ [x]) = tl xs @ [x]"
  by (simp add: keep_last_def drop_Suc)

lemma keep_last_short [simp]: "length xs \<le> n \<Longrightarrow> keep_last n xs = xs"
  by (simp add: keep_last_def)

lemma length_keep_last [simp]: "length (keep_last n xs) = min (length xs) n"
  by (simp add: keep_last_def)

lemma keep_last_snoc: "0 < n \<Longrightarrow> keep_last n (keep_last n xs @ [x]) = keep_last n (xs @ [x])"
proof (cases "length xs < n")
  case False
  assume "0 < n"
  with False show ?thesis
    by (simp add: keep_last_def Suc_diff_le)
qed simp

theorem ring_push_contents:
  assumes "ring_ok cap slots nxt cnt"
  shows "ring_contents cap (slots[nxt := x]) ((nxt + 1) mod cap) (if cnt < cap then cnt + 1 else cnt) =
         keep_last cap (ring_contents cap slots nxt cnt @ [x])"
proof (cases "cnt < cap")
  case True
  with assms show ?thesis by (simp add: ring_push_contents_partial del: One_nat_def)
next
  case False
  with assms have full: "cnt = cap" and pos: "0 < cap" by (auto simp: ring_ok_def)
  show ?thesis
    using full pos assms ring_push_contents_full [of cap slots nxt x]
    by (simp add: keep_last_snoc_full)
qed

end
