(* ===== verification/Cap_Table.thy ===== *)
theory Cap_Table
  imports Prelude
begin

text \<open>
  The capability identifiers and result codes of \<^verbatim>\<open>kernel/cap/capability.h\<close> and the per-subject
  capability bitset of \<^verbatim>\<open>kernel/cap/cap_table.c\<close>.

  The C enum \<^verbatim>\<open>capability_id_t\<close> is an unsigned 32-bit integer at run time and callers do pass
  values outside the enumerators (the broker audits with 0 and with a child count), so it is a
  \<^typ>\<open>u32\<close> here and the enumerators are abbreviations.  The static array is a list of eight
  rows of three bytes.  The second half of the theory states the contract of a capability store
  as a locale, proves what a history of grants and revokes leaves behind, and interprets it on the
  bitset.
\<close>

section \<open>Identifiers and result codes\<close>

type_synonym cap_subject_id_t = u32
type_synonym capability_id_t = u32

abbreviation "CAP_CONSOLE_WRITE \<equiv> (1 :: capability_id_t)"
abbreviation "CAP_SERIAL_WRITE \<equiv> (2 :: capability_id_t)"
abbreviation "CAP_DEBUG_EXIT \<equiv> (3 :: capability_id_t)"
abbreviation "CAP_CAPABILITY_ADMIN \<equiv> (4 :: capability_id_t)"
abbreviation "CAP_DISK_IO_REQUEST \<equiv> (5 :: capability_id_t)"
abbreviation "CAP_FS_READ \<equiv> (6 :: capability_id_t)"
abbreviation "CAP_FS_WRITE \<equiv> (7 :: capability_id_t)"
abbreviation "CAP_EVENT_SUBSCRIBE \<equiv> (8 :: capability_id_t)"
abbreviation "CAP_EVENT_PUBLISH \<equiv> (9 :: capability_id_t)"
abbreviation "CAP_APP_EXEC \<equiv> (10 :: capability_id_t)"
abbreviation "CAP_CODESIGN_BYPASS \<equiv> (11 :: capability_id_t)"
abbreviation "CAP_NETWORK \<equiv> (12 :: capability_id_t)"
abbreviation "CAP_IPC_SEND \<equiv> (13 :: capability_id_t)"
abbreviation "CAP_IPC_RECV \<equiv> (14 :: capability_id_t)"
abbreviation "CAP_SYSCALL \<equiv> (15 :: capability_id_t)"
abbreviation "CAP_CLOCK_SET \<equiv> (16 :: capability_id_t)"
abbreviation "CAP_INPUT_MOUSE \<equiv> (17 :: capability_id_t)"
abbreviation "CAP_GFX_FRAMEBUFFER \<equiv> (18 :: capability_id_t)"
abbreviation "CAP_INPUT_KEYBOARD \<equiv> (19 :: capability_id_t)"

datatype cap_result_t = CAP_OK | CAP_ERR_MISSING | CAP_ERR_SUBJECT_INVALID | CAP_ERR_CAP_INVALID

fun cap_result_code :: "cap_result_t \<Rightarrow> u64" where
  "cap_result_code CAP_OK = 0"
| "cap_result_code CAP_ERR_MISSING = 1"
| "cap_result_code CAP_ERR_SUBJECT_INVALID = 2"
| "cap_result_code CAP_ERR_CAP_INVALID = 3"

section \<open>The table\<close>

abbreviation "CAP_TABLE_MAX_SUBJECTS \<equiv> (8 :: u32)"
abbreviation "CAP_ID_MIN \<equiv> CAP_CONSOLE_WRITE"
abbreviation "CAP_ID_MAX \<equiv> CAP_INPUT_KEYBOARD"
abbreviation "CAP_WORD_BITS \<equiv> (8 :: u32)"

definition CAPABILITY_COUNT :: u32 where
  "CAPABILITY_COUNT = CAP_ID_MAX - CAP_ID_MIN + 1"

definition CAP_WORDS_PER_SUBJECT :: u32 where
  "CAP_WORDS_PER_SUBJECT = (CAPABILITY_COUNT + CAP_WORD_BITS - 1) div CAP_WORD_BITS"

record cap_table =
  subject_capability_bits :: "u8 list list"

definition cap_subject_valid :: "cap_subject_id_t \<Rightarrow> bool" where
  "cap_subject_valid subject_id \<longleftrightarrow> subject_id < CAP_TABLE_MAX_SUBJECTS"

definition cap_id_valid :: "capability_id_t \<Rightarrow> bool" where
  "cap_id_valid capability_id \<longleftrightarrow> CAP_ID_MIN \<le> capability_id \<and> capability_id \<le> CAP_ID_MAX"

definition cap_index :: "capability_id_t \<Rightarrow> u32" where
  "cap_index capability_id = capability_id - CAP_ID_MIN"

definition cap_table_reset :: "cap_table \<Rightarrow> cap_table" where
  "cap_table_reset t = t\<lparr> subject_capability_bits :=
     replicate (unat CAP_TABLE_MAX_SUBJECTS) (replicate (unat CAP_WORDS_PER_SUBJECT) 0) \<rparr>"

definition cap_table_init :: "cap_table \<Rightarrow> cap_table" where
  "cap_table_init t = cap_table_reset t"

definition cap_bits_get :: "cap_table \<Rightarrow> u32 \<Rightarrow> u32 \<Rightarrow> u8" where
  "cap_bits_get t subject word = subject_capability_bits t ! unat subject ! unat word"

definition cap_bits_set :: "u32 \<Rightarrow> u32 \<Rightarrow> u8 \<Rightarrow> cap_table \<Rightarrow> cap_table" where
  "cap_bits_set subject word v t = t\<lparr> subject_capability_bits :=
     (subject_capability_bits t)[unat subject := (subject_capability_bits t ! unat subject)[unat word := v]] \<rparr>"

definition cap_table_grant ::
  "cap_subject_id_t \<Rightarrow> capability_id_t \<Rightarrow> cap_table \<Rightarrow> cap_result_t \<times> cap_table" where
  "cap_table_grant subject_id capability_id t =
    (if \<not> cap_subject_valid subject_id then (CAP_ERR_SUBJECT_INVALID, t)
     else if \<not> cap_id_valid capability_id then (CAP_ERR_CAP_INVALID, t)
     else let index = cap_index capability_id;
              word = index div CAP_WORD_BITS;
              bt = index mod CAP_WORD_BITS
          in (CAP_OK, cap_bits_set subject_id word (cap_bits_get t subject_id word OR u8_bit (unat bt)) t))"

definition cap_table_revoke ::
  "cap_subject_id_t \<Rightarrow> capability_id_t \<Rightarrow> cap_table \<Rightarrow> cap_result_t \<times> cap_table" where
  "cap_table_revoke subject_id capability_id t =
    (if \<not> cap_subject_valid subject_id then (CAP_ERR_SUBJECT_INVALID, t)
     else if \<not> cap_id_valid capability_id then (CAP_ERR_CAP_INVALID, t)
     else let index = cap_index capability_id;
              word = index div CAP_WORD_BITS;
              bt = index mod CAP_WORD_BITS
          in (CAP_OK, cap_bits_set subject_id word (cap_bits_get t subject_id word AND NOT (u8_bit (unat bt))) t))"

definition cap_table_check ::
  "cap_subject_id_t \<Rightarrow> capability_id_t \<Rightarrow> cap_table \<Rightarrow> cap_result_t" where
  "cap_table_check subject_id capability_id t =
    (if \<not> cap_subject_valid subject_id then CAP_ERR_SUBJECT_INVALID
     else if \<not> cap_id_valid capability_id then CAP_ERR_CAP_INVALID
     else let index = cap_index capability_id;
              word = index div CAP_WORD_BITS;
              bt = index mod CAP_WORD_BITS
          in if cap_bits_get t subject_id word AND u8_bit (unat bt) \<noteq> 0 then CAP_OK
             else CAP_ERR_MISSING)"

section \<open>Abstraction\<close>

definition cap_valid :: "cap_subject_id_t \<Rightarrow> capability_id_t \<Rightarrow> bool" where
  "cap_valid s c \<longleftrightarrow> cap_subject_valid s \<and> cap_id_valid c"

definition cap_table_wf :: "cap_table \<Rightarrow> bool" where
  "cap_table_wf t \<longleftrightarrow> length (subject_capability_bits t) = 8 \<and>
     list_all (\<lambda>row. length row = 3) (subject_capability_bits t)"

definition cap_set :: "cap_table \<Rightarrow> (cap_subject_id_t \<times> capability_id_t) set" where
  "cap_set t = {(s, c). cap_table_check s c t = CAP_OK}"

definition cap_boot :: cap_table where
  \<comment> \<open>the static array before any call: C zero-initialises it\<close>
  "cap_boot = \<lparr> subject_capability_bits = replicate 8 (replicate 3 0) \<rparr>"

section \<open>Lemmas on the bitset\<close>

lemma cap_words_per_subject [simp]: "CAP_WORDS_PER_SUBJECT = 3"
  by (simp add: CAP_WORDS_PER_SUBJECT_def CAPABILITY_COUNT_def)

lemma unat_cap_index: "cap_id_valid c \<Longrightarrow> unat (cap_index c) = unat c - 1"
  by (auto simp: cap_id_valid_def cap_index_def unat_sub word_facts)

lemma cap_id_valid_unat: "cap_id_valid c \<longleftrightarrow> 1 \<le> unat c \<and> unat c \<le> 19"
  by (auto simp: cap_id_valid_def word_facts)

lemma cap_subject_valid_unat: "cap_subject_valid s \<longleftrightarrow> unat s < 8"
  by (auto simp: cap_subject_valid_def word_facts)

lemma cap_word_bounds:
  assumes "cap_id_valid c"
  shows "unat (cap_index c div 8) < 3" and "unat (cap_index c mod 8) < 8"
    and "unat c = Suc (8 * unat (cap_index c div 8) + unat (cap_index c mod 8))"
proof -
  have e: "unat c = Suc (unat (cap_index c))" and le: "unat (cap_index c) \<le> 18"
    using assms by (auto simp: unat_cap_index cap_id_valid_unat)
  show "unat (cap_index c div 8) < 3" "unat (cap_index c mod 8) < 8"
    using le by (auto simp: unat_div unat_mod)
  show "unat c = Suc (8 * unat (cap_index c div 8) + unat (cap_index c mod 8))"
    using e by (simp add: unat_div unat_mod)
qed

lemma cap_bit_distinct:
  assumes "cap_id_valid c" "cap_id_valid d"
    and "cap_index c div 8 = cap_index d div 8" "unat (cap_index c mod 8) = unat (cap_index d mod 8)"
  shows "c = d"
  using cap_word_bounds(3) [OF assms(1)] cap_word_bounds(3) [OF assms(2)] assms(3,4)
  by (simp add: word_unat_eq_iff)

lemma cap_bits_get_set:
  assumes "cap_table_wf t" "unat s < 8" "unat w < 3" "unat s' < 8" "unat w' < 3"
  shows "cap_bits_get (cap_bits_set s w v t) s' w' =
         (if s' = s \<and> w' = w then v else cap_bits_get t s' w')"
proof -
  have "length (subject_capability_bits t ! unat s) = 3"
    using assms(1,2) by (simp add: cap_table_wf_def list_all_length)
  with assms show ?thesis
    by (auto simp: cap_bits_get_def cap_bits_set_def nth_list_update cap_table_wf_def word_unat_eq_iff)
qed

lemma cap_bits_set_wf [simp]: "cap_table_wf t \<Longrightarrow> cap_table_wf (cap_bits_set s w v t)"
  by (cases "unat s < length (subject_capability_bits t)")
    (auto simp: cap_table_wf_def cap_bits_set_def list_all_length nth_list_update)

lemma cap_table_reset_eq: "cap_table_reset t = t\<lparr> subject_capability_bits := replicate 8 (replicate 3 0) \<rparr>"
  by (simp add: cap_table_reset_def)

lemma cap_table_reset_wf [simp]: "cap_table_wf (cap_table_reset t)"
  by (simp add: cap_table_wf_def cap_table_reset_eq list_all_length)

lemma cap_boot_wf [simp]: "cap_table_wf cap_boot"
  by (simp add: cap_table_wf_def cap_boot_def list_all_length)

lemma cap_table_check_OK_iff:
  "cap_table_check s c t = CAP_OK \<longleftrightarrow>
   cap_valid s c \<and> bit (cap_bits_get t s (cap_index c div 8)) (unat (cap_index c mod 8))"
  using cap_word_bounds(2) [of c]
  by (auto simp: cap_table_check_def cap_valid_def Let_def)

lemma cap_table_check_reset [simp]: "cap_table_check s c (cap_table_reset t) \<noteq> CAP_OK"
proof (cases "cap_valid s c")
  case True
  then have "unat s < 8" "unat (cap_index c div 8) < 3"
    using cap_word_bounds(1) [of c] by (auto simp: cap_valid_def cap_subject_valid_unat)
  then show ?thesis
    by (simp add: cap_table_check_OK_iff cap_bits_get_def cap_table_reset_eq)
qed (simp add: cap_table_check_OK_iff)

lemma cap_table_grant_wf [simp]: "cap_table_wf t \<Longrightarrow> cap_table_wf (snd (cap_table_grant s c t))"
  by (simp add: cap_table_grant_def Let_def)

lemma cap_table_revoke_wf [simp]: "cap_table_wf t \<Longrightarrow> cap_table_wf (snd (cap_table_revoke s c t))"
  by (simp add: cap_table_revoke_def Let_def)

lemma cap_table_check_grant:
  assumes "cap_table_wf t"
  shows "cap_table_check s' c' (snd (cap_table_grant s c t)) = CAP_OK \<longleftrightarrow>
         cap_table_check s' c' t = CAP_OK \<or> s' = s \<and> c' = c \<and> cap_valid s c"
proof (cases "cap_valid s c \<and> cap_valid s' c'")
  case True
  then have v: "unat s < 8" "unat s' < 8" "cap_id_valid c" "cap_id_valid c'"
    by (auto simp: cap_valid_def cap_subject_valid_unat)
  note b = cap_word_bounds(1,2) [OF v(3)] cap_word_bounds(1,2) [OF v(4)]
  show ?thesis
    using True v b assms cap_bit_distinct [of c c']
    by (auto simp: cap_table_check_OK_iff cap_table_grant_def cap_valid_def Let_def
        cap_bits_get_set bit_or_iff)
qed (auto simp: cap_table_check_OK_iff cap_table_grant_def cap_valid_def)

lemma cap_table_check_revoke:
  assumes "cap_table_wf t"
  shows "cap_table_check s' c' (snd (cap_table_revoke s c t)) = CAP_OK \<longleftrightarrow>
         cap_table_check s' c' t = CAP_OK \<and> \<not> (s' = s \<and> c' = c)"
proof (cases "cap_valid s c \<and> cap_valid s' c'")
  case True
  then have v: "unat s < 8" "unat s' < 8" "cap_id_valid c" "cap_id_valid c'"
    by (auto simp: cap_valid_def cap_subject_valid_unat)
  note b = cap_word_bounds(1,2) [OF v(3)] cap_word_bounds(1,2) [OF v(4)]
  show ?thesis
    using True v b assms cap_bit_distinct [of c c']
    by (auto simp: cap_table_check_OK_iff cap_table_revoke_def cap_valid_def Let_def
        cap_bits_get_set bit_and_iff bit_not_iff)
qed (auto simp: cap_table_check_OK_iff cap_table_revoke_def cap_valid_def)

section \<open>The contract of a capability store\<close>

datatype store_op =
    Grant_Op cap_subject_id_t capability_id_t
  | Revoke_Op cap_subject_id_t capability_id_t

primrec op_target :: "store_op \<Rightarrow> cap_subject_id_t \<times> capability_id_t" where
  "op_target (Grant_Op s c) = (s, c)"
| "op_target (Revoke_Op s c) = (s, c)"

primrec store_step ::
  "(cap_subject_id_t \<Rightarrow> capability_id_t \<Rightarrow> 's \<Rightarrow> 's) \<Rightarrow>
   (cap_subject_id_t \<Rightarrow> capability_id_t \<Rightarrow> 's \<Rightarrow> 's) \<Rightarrow> store_op \<Rightarrow> 's \<Rightarrow> 's" where
  "store_step grant revoke (Grant_Op s c) t = grant s c t"
| "store_step grant revoke (Revoke_Op s c) t = revoke s c t"

primrec last_op :: "store_op list \<Rightarrow> cap_subject_id_t \<Rightarrow> capability_id_t \<Rightarrow> store_op option" where
  "last_op [] s c = None"
| "last_op (x # xs) s c =
    (case last_op xs s c of
       Some y \<Rightarrow> Some y
     | None \<Rightarrow> if op_target x = (s, c) then Some x else None)"

lemma last_op_snoc:
  "last_op (xs @ [x]) s c = (if op_target x = (s, c) then Some x else last_op xs s c)"
  by (induction xs) (auto split: option.splits)

lemma last_op_target: "last_op ops s c = Some y \<Longrightarrow> op_target y = (s, c) \<and> y \<in> set ops"
  by (induction ops) (auto split: option.splits if_splits)

locale capability_store =
  fixes invar :: "'s \<Rightarrow> bool"
    and holds :: "'s \<Rightarrow> cap_subject_id_t \<Rightarrow> capability_id_t \<Rightarrow> bool"
    and valid :: "cap_subject_id_t \<Rightarrow> capability_id_t \<Rightarrow> bool"
    and grant :: "cap_subject_id_t \<Rightarrow> capability_id_t \<Rightarrow> 's \<Rightarrow> 's"
    and revoke :: "cap_subject_id_t \<Rightarrow> capability_id_t \<Rightarrow> 's \<Rightarrow> 's"
  assumes grant_invar: "invar t \<Longrightarrow> invar (grant s c t)"
    and revoke_invar: "invar t \<Longrightarrow> invar (revoke s c t)"
    and holds_valid: "invar t \<Longrightarrow> holds t s c \<Longrightarrow> valid s c"
    and holds_grant: "invar t \<Longrightarrow>
      holds (grant s c t) s' c' \<longleftrightarrow> holds t s' c' \<or> s' = s \<and> c' = c \<and> valid s c"
    and holds_revoke: "invar t \<Longrightarrow>
      holds (revoke s c t) s' c' \<longleftrightarrow> holds t s' c' \<and> \<not> (s' = s \<and> c' = c)"
begin

lemma step_invar: "invar t \<Longrightarrow> invar (store_step grant revoke op t)"
  by (cases op) (simp_all add: grant_invar revoke_invar)

lemma run_invar: "invar t \<Longrightarrow> invar (fold (store_step grant revoke) ops t)"
  by (induction ops arbitrary: t) (simp_all add: step_invar)

lemma holds_step:
  "invar t \<Longrightarrow> holds (store_step grant revoke op t) s c \<longleftrightarrow>
   (if op_target op = (s, c) then (\<exists>s c. op = Grant_Op s c) \<and> valid s c else holds t s c)"
  by (cases op) (auto simp: holds_grant holds_revoke dest: holds_valid)

lemma holds_run:
  "invar t \<Longrightarrow> holds (fold (store_step grant revoke) ops t) s c \<longleftrightarrow>
   (case last_op ops s c of
      None \<Rightarrow> holds t s c
    | Some op \<Rightarrow> (\<exists>s c. op = Grant_Op s c) \<and> valid s c)"
  by (induction ops rule: rev_induct) (auto simp: holds_step run_invar last_op_snoc)

lemma run_frame:
  "invar t \<Longrightarrow> (\<And>op. op \<in> set ops \<Longrightarrow> op_target op \<noteq> (s, c)) \<Longrightarrow>
   holds (fold (store_step grant revoke) ops t) s c = holds t s c"
  by (auto simp: holds_run split: option.splits dest: last_op_target)

end

section \<open>The bitset implements the contract\<close>

abbreviation "cap_table_grant_st s c t \<equiv> snd (cap_table_grant s c t)"
abbreviation "cap_table_revoke_st s c t \<equiv> snd (cap_table_revoke s c t)"
abbreviation "cap_table_holds t s c \<equiv> cap_table_check s c t = CAP_OK"

interpretation bitset: capability_store cap_table_wf cap_table_holds cap_valid
    cap_table_grant_st cap_table_revoke_st
  by unfold_locales
    (auto simp: cap_table_check_grant cap_table_check_revoke, simp add: cap_table_check_OK_iff)

text \<open>
  C1: The bitset is a faithful implementation of a set of (subject, capability) pairs: on every
  well-formed table a grant adds exactly the requested pair when the subject is below 8 and the
  capability is one of the 19 defined ones and otherwise changes nothing, a revoke removes exactly
  the requested pair, a reset empties the set, and grant and revoke report the subject error before
  the capability error.
\<close>

theorem cap_table_refines_set:
  assumes "cap_table_wf t"
  shows "cap_set (snd (cap_table_grant s c t)) =
           (if cap_valid s c then insert (s, c) (cap_set t) else cap_set t) \<and>
         cap_set (snd (cap_table_revoke s c t)) = cap_set t - {(s, c)} \<and>
         cap_set (cap_table_reset t) = {} \<and>
         fst (cap_table_grant s c t) =
           (if \<not> cap_subject_valid s then CAP_ERR_SUBJECT_INVALID
            else if \<not> cap_id_valid c then CAP_ERR_CAP_INVALID else CAP_OK) \<and>
         fst (cap_table_revoke s c t) = fst (cap_table_grant s c t)"
proof -
  have "cap_set (snd (cap_table_grant s c t)) =
           (if cap_valid s c then insert (s, c) (cap_set t) else cap_set t)"
    using assms by (auto simp: cap_set_def cap_table_check_grant)
  moreover have "cap_set (snd (cap_table_revoke s c t)) = cap_set t - {(s, c)}"
    using assms by (auto simp: cap_set_def cap_table_check_revoke)
  ultimately show ?thesis
    by (simp add: cap_set_def cap_table_grant_def cap_table_revoke_def Let_def)
qed

theorem cap_table_refines_set_witness:
  "cap_set (snd (cap_table_grant 3 CAP_FS_READ cap_boot)) = insert (3, CAP_FS_READ) (cap_set cap_boot)"
  using cap_table_refines_set [OF cap_boot_wf, of 3 CAP_FS_READ]
  by (simp add: cap_valid_def cap_subject_valid_def cap_id_valid_def)

text \<open>
  C2: After any history of grants and revokes on a freshly reset table, a check succeeds exactly
  when the pair is valid and the last operation that named this very pair was a grant; operations
  on other pairs never matter.
\<close>

theorem cap_table_history:
  "cap_table_check s c (fold (store_step cap_table_grant_st cap_table_revoke_st) ops (cap_table_reset t))
     = CAP_OK \<longleftrightarrow> cap_valid s c \<and> last_op ops s c = Some (Grant_Op s c)"
  using bitset.holds_run [of "cap_table_reset t" s c ops] last_op_target [of ops s c]
  by (auto split: option.splits)

end
