(* ===== verification/Ring_Log.thy ===== *)
theory Ring_Log
  imports Prelude
begin

text \<open>
  The contract of a bounded log that overwrites its oldest entry, and what a client may conclude
  from it.  The contract is interpreted on the audit ring and on the checkpoint ring of
  \<^verbatim>\<open>kernel/cap/capability.c\<close> and on the topic rings of \<^verbatim>\<open>kernel/event/event_bus.c\<close>.
\<close>

primrec ring_trace :: "('x \<Rightarrow> 's \<Rightarrow> 's) \<Rightarrow> ('x \<Rightarrow> 's \<Rightarrow> 'e) \<Rightarrow> 'x list \<Rightarrow> 's \<Rightarrow> 'e list" where
  "ring_trace push entry [] s = []"
| "ring_trace push entry (x # xs) s = entry x s # ring_trace push entry xs (push x s)"

lemma length_ring_trace [simp]: "length (ring_trace push entry xs s) = length xs"
  by (induction xs arbitrary: s) auto

lemma ring_trace_append:
  "ring_trace push entry (xs @ ys) s =
   ring_trace push entry xs s @ ring_trace push entry ys (fold push xs s)"
  by (induction xs arbitrary: s) auto

locale ring_log =
  fixes capacity :: nat
    and slots :: "'s \<Rightarrow> 'e list" and nxt :: "'s \<Rightarrow> nat" and cnt :: "'s \<Rightarrow> nat"
    and push :: "'x \<Rightarrow> 's \<Rightarrow> 's" and entry :: "'x \<Rightarrow> 's \<Rightarrow> 'e"
  assumes capacity_pos: "0 < capacity"
    and slots_push: "slots (push x s) = (slots s)[nxt s := entry x s]"
    and nxt_push: "nxt (push x s) = (nxt s + 1) mod capacity"
    and cnt_push: "cnt (push x s) = (if cnt s < capacity then cnt s + 1 else cnt s)"
begin

definition ok :: "'s \<Rightarrow> bool" where
  "ok s \<longleftrightarrow> ring_ok capacity (slots s) (nxt s) (cnt s)"

definition contents :: "'s \<Rightarrow> 'e list" where
  "contents s = ring_contents capacity (slots s) (nxt s) (cnt s)"

lemma push_ok: "ok s \<Longrightarrow> ok (push x s)"
  using ring_push_ok [of capacity "slots s" "nxt s" "cnt s" "entry x s"]
  by (simp add: ok_def slots_push nxt_push cnt_push)

lemma push_contents: "ok s \<Longrightarrow> contents (push x s) = keep_last capacity (contents s @ [entry x s])"
  using ring_push_contents [of capacity "slots s" "nxt s" "cnt s" "entry x s"]
  by (simp add: ok_def contents_def slots_push nxt_push cnt_push)

lemma run_ok: "ok s \<Longrightarrow> ok (fold push xs s)"
  by (induction xs arbitrary: s) (simp_all add: push_ok)

lemma run_contents_aux:
  "ok s \<Longrightarrow> contents (fold push xs s) = keep_last capacity (contents s @ ring_trace push entry xs s)"
proof (induction xs rule: rev_induct)
  case Nil
  have "length (contents s) \<le> capacity"
    using Nil by (simp add: contents_def ok_def ring_ok_def)
  then show ?case by simp
next
  case (snoc x xs)
  then show ?case
    using keep_last_snoc [OF capacity_pos, of "contents s @ ring_trace push entry xs s"]
    by (simp add: push_contents run_ok ring_trace_append)
qed

lemma run_contents:
  "ok s \<Longrightarrow> cnt s = 0 \<Longrightarrow>
   contents (fold push xs s) = keep_last capacity (ring_trace push entry xs s)"
  using run_contents_aux [of s xs] by (simp add: contents_def ring_contents_def)

lemma nth_contents:
  "i < cnt s \<Longrightarrow> contents s ! i = slots s ! ((ring_start capacity (nxt s) (cnt s) + i) mod capacity)"
  by (simp add: contents_def ring_contents_def)

lemma cnt_run: "ok s \<Longrightarrow> cnt s = 0 \<Longrightarrow> cnt (fold push xs s) = min (length xs) capacity"
  using run_contents [of s xs] by (metis contents_def length_keep_last length_ring_contents length_ring_trace)

end

end
