(* ===== verification/Cap_Audit.thy ===== *)
theory Cap_Audit
  imports Cap_Table Ring_Log
begin

text \<open>
  \<^verbatim>\<open>kernel/cap/capability.c\<close>: the audit ring with its checkpoints and chained seal, the
  actor-checked grant and revoke entry points, and the textual form of an audit event.

  The module's static variables are the record \<open>cap_audit\<close>; operations that also touch
  the capability table work on \<open>cap_state\<close>, which pairs the two.  Slot indices and counts,
  which the code keeps below 32 and 8, are naturals; the counters that may wrap (\<open>size_t\<close> and
  \<open>uint64_t\<close>) and the seal are 64-bit words.
\<close>

section \<open>Data\<close>

datatype cap_audit_op_t =
    CAP_AUDIT_OP_CHECK
  | CAP_AUDIT_OP_GRANT
  | CAP_AUDIT_OP_REVOKE
  | CAP_AUDIT_OP_CASCADE_REVOKE
  | CAP_AUDIT_OP_CASCADE_DONE

fun cap_audit_op_code :: "cap_audit_op_t \<Rightarrow> u64" where
  "cap_audit_op_code CAP_AUDIT_OP_CHECK = 0"
| "cap_audit_op_code CAP_AUDIT_OP_GRANT = 1"
| "cap_audit_op_code CAP_AUDIT_OP_REVOKE = 2"
| "cap_audit_op_code CAP_AUDIT_OP_CASCADE_REVOKE = 3"
| "cap_audit_op_code CAP_AUDIT_OP_CASCADE_DONE = 4"

record cap_audit_event_t =
  ev_sequence_id :: u64
  ev_operation :: cap_audit_op_t
  ev_actor_subject_id :: cap_subject_id_t
  ev_subject_id :: cap_subject_id_t
  ev_capability_id :: capability_id_t
  ev_result :: cap_result_t

record cap_audit_checkpoint_t =
  cp_checkpoint_id :: u64
  cp_start_sequence_id :: u64
  cp_end_sequence_id :: u64
  cp_seal :: u64
  cp_dropped_count :: u64

datatype cap_audit_outcome_t =
    CAP_AUDIT_OUTCOME_ALLOW
  | CAP_AUDIT_OUTCOME_DENY
  | CAP_AUDIT_OUTCOME_GRANTED
  | CAP_AUDIT_OUTCOME_GRANT_DENIED
  | CAP_AUDIT_OUTCOME_REVOKED
  | CAP_AUDIT_OUTCOME_REVOKE_DENIED
  | CAP_AUDIT_OUTCOME_CASCADE_REVOKED
  | CAP_AUDIT_OUTCOME_CASCADE_DONE

abbreviation "CAP_AUDIT_EVENT_MAX \<equiv> (32 :: nat)"
abbreviation "CAP_AUDIT_CHECKPOINT_INTERVAL \<equiv> (8 :: u64)"
abbreviation "CAP_AUDIT_CHECKPOINT_MAX \<equiv> (8 :: nat)"

record cap_audit =
  cap_audit_events :: "cap_audit_event_t list"
  cap_audit_next_index :: nat
  cap_audit_event_count :: nat
  cap_audit_dropped_count :: u64
  cap_audit_next_sequence_id :: u64
  cap_audit_checkpoints :: "cap_audit_checkpoint_t list"
  cap_audit_checkpoint_next_index :: nat
  cap_audit_checkpoint_count :: nat
  cap_audit_next_checkpoint_id :: u64
  cap_audit_seal :: u64

record cap_state =
  cap_tab :: cap_table
  cap_log :: cap_audit

section \<open>The audit ring and the chained seal\<close>

definition cap_audit_mix_u64 :: "u64 \<Rightarrow> u64 \<Rightarrow> u64" where
  "cap_audit_mix_u64 acc v = (acc XOR v) * 1099511628211"

definition cap_audit_event_digest ::
  "u64 \<Rightarrow> cap_audit_op_t \<Rightarrow> cap_subject_id_t \<Rightarrow> cap_subject_id_t \<Rightarrow> capability_id_t \<Rightarrow> cap_result_t \<Rightarrow> u64" where
  "cap_audit_event_digest sequence_id operation actor subject capability res =
    (let digest = 1469598103934665603;
         digest = cap_audit_mix_u64 digest sequence_id;
         digest = cap_audit_mix_u64 digest (cap_audit_op_code operation);
         digest = cap_audit_mix_u64 digest (ucast actor);
         digest = cap_audit_mix_u64 digest (ucast subject);
         digest = cap_audit_mix_u64 digest (ucast capability);
         digest = cap_audit_mix_u64 digest (cap_result_code res)
     in digest)"

definition cap_audit_maybe_emit_checkpoint :: "u64 \<Rightarrow> cap_audit \<Rightarrow> cap_audit" where
  "cap_audit_maybe_emit_checkpoint sequence_id a =
    (if (sequence_id + 1) mod CAP_AUDIT_CHECKPOINT_INTERVAL \<noteq> 0 then a
     else a\<lparr> cap_audit_checkpoints := (cap_audit_checkpoints a)[cap_audit_checkpoint_next_index a :=
               \<lparr> cp_checkpoint_id = cap_audit_next_checkpoint_id a,
                 cp_start_sequence_id = (sequence_id + 1) - CAP_AUDIT_CHECKPOINT_INTERVAL,
                 cp_end_sequence_id = sequence_id,
                 cp_seal = cap_audit_seal a,
                 cp_dropped_count = cap_audit_dropped_count a \<rparr>],
             cap_audit_next_checkpoint_id := cap_audit_next_checkpoint_id a + 1,
             cap_audit_checkpoint_next_index :=
               (cap_audit_checkpoint_next_index a + 1) mod CAP_AUDIT_CHECKPOINT_MAX,
             cap_audit_checkpoint_count :=
               (if cap_audit_checkpoint_count a < CAP_AUDIT_CHECKPOINT_MAX
                then cap_audit_checkpoint_count a + 1 else cap_audit_checkpoint_count a) \<rparr>)"

definition cap_audit_record ::
  "cap_audit_op_t \<Rightarrow> cap_subject_id_t \<Rightarrow> cap_subject_id_t \<Rightarrow> capability_id_t \<Rightarrow> cap_result_t \<Rightarrow>
   cap_audit \<Rightarrow> cap_audit" where
  "cap_audit_record operation actor subject capability res a =
    (let sequence_id = cap_audit_next_sequence_id a;
         a = a\<lparr> cap_audit_events := (cap_audit_events a)[cap_audit_next_index a :=
                  \<lparr> ev_sequence_id = sequence_id, ev_operation = operation,
                    ev_actor_subject_id = actor, ev_subject_id = subject,
                    ev_capability_id = capability, ev_result = res \<rparr>] \<rparr>;
         a = a\<lparr> cap_audit_next_sequence_id := cap_audit_next_sequence_id a + 1,
                cap_audit_next_index := (cap_audit_next_index a + 1) mod CAP_AUDIT_EVENT_MAX \<rparr>;
         a = (if cap_audit_event_count a < CAP_AUDIT_EVENT_MAX
              then a\<lparr> cap_audit_event_count := cap_audit_event_count a + 1 \<rparr>
              else a\<lparr> cap_audit_dropped_count := cap_audit_dropped_count a + 1 \<rparr>);
         a = a\<lparr> cap_audit_seal := cap_audit_mix_u64 (cap_audit_seal a)
                  (cap_audit_event_digest sequence_id operation actor subject capability res) \<rparr>;
         a = a\<lparr> cap_audit_seal := cap_audit_mix_u64 (cap_audit_seal a) (cap_audit_dropped_count a) \<rparr>
     in cap_audit_maybe_emit_checkpoint sequence_id a)"

definition cap_audit_emit ::
  "cap_audit_op_t \<Rightarrow> cap_subject_id_t \<Rightarrow> cap_subject_id_t \<Rightarrow> capability_id_t \<Rightarrow> cap_result_t \<Rightarrow>
   cap_state \<Rightarrow> cap_state" where
  "cap_audit_emit operation actor subject capability res st =
    st\<lparr> cap_log := cap_audit_record operation actor subject capability res (cap_log st) \<rparr>"

definition cap_audit_reset_for_tests :: "cap_audit \<Rightarrow> cap_audit" where
  "cap_audit_reset_for_tests a =
    a\<lparr> cap_audit_next_index := 0, cap_audit_event_count := 0, cap_audit_dropped_count := 0,
       cap_audit_next_sequence_id := 0, cap_audit_checkpoint_next_index := 0,
       cap_audit_checkpoint_count := 0, cap_audit_next_checkpoint_id := 0,
       cap_audit_seal := 1469598103934665603 \<rparr>"

definition cap_audit_count_for_tests :: "cap_audit \<Rightarrow> nat" where
  "cap_audit_count_for_tests a = cap_audit_event_count a"

definition cap_audit_dropped_for_tests :: "cap_audit \<Rightarrow> u64" where
  "cap_audit_dropped_for_tests a = cap_audit_dropped_count a"

text \<open>The out parameter is non-NULL when the flag holds; \<open>None\<close> leaves it untouched.\<close>

definition cap_audit_get_for_tests ::
  "nat \<Rightarrow> bool \<Rightarrow> cap_audit \<Rightarrow> cap_result_t \<times> cap_audit_event_t option" where
  "cap_audit_get_for_tests index out_event a =
    (if \<not> out_event \<or> index \<ge> cap_audit_event_count a then (CAP_ERR_CAP_INVALID, None)
     else let start = (if cap_audit_event_count a = CAP_AUDIT_EVENT_MAX then cap_audit_next_index a else 0);
              slot = (start + index) mod CAP_AUDIT_EVENT_MAX
          in (CAP_OK, Some (cap_audit_events a ! slot)))"

definition cap_audit_checkpoint_count_for_tests :: "cap_audit \<Rightarrow> nat" where
  "cap_audit_checkpoint_count_for_tests a = cap_audit_checkpoint_count a"

definition cap_audit_checkpoint_get_for_tests ::
  "nat \<Rightarrow> bool \<Rightarrow> cap_audit \<Rightarrow> cap_result_t \<times> cap_audit_checkpoint_t option" where
  "cap_audit_checkpoint_get_for_tests index out_checkpoint a =
    (if \<not> out_checkpoint \<or> index \<ge> cap_audit_checkpoint_count a then (CAP_ERR_CAP_INVALID, None)
     else let start = (if cap_audit_checkpoint_count a = CAP_AUDIT_CHECKPOINT_MAX
                       then cap_audit_checkpoint_next_index a else 0);
              slot = (start + index) mod CAP_AUDIT_CHECKPOINT_MAX
          in (CAP_OK, Some (cap_audit_checkpoints a ! slot)))"

section \<open>Audited table operations\<close>

definition cap_reset_for_tests :: "cap_state \<Rightarrow> cap_state" where
  "cap_reset_for_tests st =
    st\<lparr> cap_tab := cap_table_reset (cap_tab st), cap_log := cap_audit_reset_for_tests (cap_log st) \<rparr>"

definition cap_grant_for_tests ::
  "cap_subject_id_t \<Rightarrow> capability_id_t \<Rightarrow> cap_state \<Rightarrow> cap_result_t \<times> cap_state" where
  "cap_grant_for_tests s c st =
    (let (res, t) = cap_table_grant s c (cap_tab st);
         st = st\<lparr> cap_tab := t \<rparr>
     in (res, st\<lparr> cap_log := cap_audit_record CAP_AUDIT_OP_GRANT s s c res (cap_log st) \<rparr>))"

definition cap_revoke_for_tests ::
  "cap_subject_id_t \<Rightarrow> capability_id_t \<Rightarrow> cap_state \<Rightarrow> cap_result_t \<times> cap_state" where
  "cap_revoke_for_tests s c st =
    (let (res, t) = cap_table_revoke s c (cap_tab st);
         st = st\<lparr> cap_tab := t \<rparr>
     in (res, st\<lparr> cap_log := cap_audit_record CAP_AUDIT_OP_REVOKE s s c res (cap_log st) \<rparr>))"

abbreviation "CAP_BOOTSTRAP_ROOT_SUBJECT_ID \<equiv> (0 :: cap_subject_id_t)"

definition cap_actor_authorized_for_mutation :: "cap_subject_id_t \<Rightarrow> cap_state \<Rightarrow> cap_result_t" where
  "cap_actor_authorized_for_mutation actor st = cap_table_check actor CAP_CAPABILITY_ADMIN (cap_tab st)"

definition cap_actor_authorized_for_admin_grant :: "cap_subject_id_t \<Rightarrow> capability_id_t \<Rightarrow> cap_result_t" where
  "cap_actor_authorized_for_admin_grant actor c =
    (if c = CAP_CAPABILITY_ADMIN \<and> actor \<noteq> CAP_BOOTSTRAP_ROOT_SUBJECT_ID then CAP_ERR_MISSING else CAP_OK)"

definition cap_grant_as_for_tests ::
  "cap_subject_id_t \<Rightarrow> cap_subject_id_t \<Rightarrow> capability_id_t \<Rightarrow> cap_state \<Rightarrow> cap_result_t \<times> cap_state" where
  "cap_grant_as_for_tests actor target c st =
    (let actor_check =
           (if \<not> (c = CAP_CAPABILITY_ADMIN \<and> actor = CAP_BOOTSTRAP_ROOT_SUBJECT_ID)
            then cap_actor_authorized_for_mutation actor st else CAP_OK)
     in if actor_check \<noteq> CAP_OK
        then (actor_check, st\<lparr> cap_log := cap_audit_record CAP_AUDIT_OP_GRANT actor target c actor_check (cap_log st) \<rparr>)
        else let admin_grant_check = cap_actor_authorized_for_admin_grant actor c
             in if admin_grant_check \<noteq> CAP_OK
                then (admin_grant_check,
                      st\<lparr> cap_log := cap_audit_record CAP_AUDIT_OP_GRANT actor target c admin_grant_check (cap_log st) \<rparr>)
                else let (res, t) = cap_table_grant target c (cap_tab st);
                         st = st\<lparr> cap_tab := t \<rparr>
                     in (res, st\<lparr> cap_log := cap_audit_record CAP_AUDIT_OP_GRANT actor target c res (cap_log st) \<rparr>))"

definition cap_revoke_as_for_tests ::
  "cap_subject_id_t \<Rightarrow> cap_subject_id_t \<Rightarrow> capability_id_t \<Rightarrow> cap_state \<Rightarrow> cap_result_t \<times> cap_state" where
  "cap_revoke_as_for_tests actor target c st =
    (let actor_check = cap_actor_authorized_for_mutation actor st
     in if actor_check \<noteq> CAP_OK
        then (actor_check, st\<lparr> cap_log := cap_audit_record CAP_AUDIT_OP_REVOKE actor target c actor_check (cap_log st) \<rparr>)
        else let (res, t) = cap_table_revoke target c (cap_tab st);
                 st = st\<lparr> cap_tab := t \<rparr>
             in (res, st\<lparr> cap_log := cap_audit_record CAP_AUDIT_OP_REVOKE actor target c res (cap_log st) \<rparr>))"

definition cap_check :: "cap_subject_id_t \<Rightarrow> capability_id_t \<Rightarrow> cap_state \<Rightarrow> cap_result_t \<times> cap_state" where
  "cap_check s c st =
    (let res = cap_table_check s c (cap_tab st)
     in (res, st\<lparr> cap_log := cap_audit_record CAP_AUDIT_OP_CHECK s s c res (cap_log st) \<rparr>))"

section \<open>Textual form of an event\<close>

fun cap_audit_event_outcome :: "cap_audit_event_t option \<Rightarrow> cap_audit_outcome_t" where
  "cap_audit_event_outcome None = CAP_AUDIT_OUTCOME_DENY"
| "cap_audit_event_outcome (Some event) =
    (case ev_operation event of
       CAP_AUDIT_OP_CHECK \<Rightarrow>
         if ev_result event = CAP_OK then CAP_AUDIT_OUTCOME_ALLOW else CAP_AUDIT_OUTCOME_DENY
     | CAP_AUDIT_OP_GRANT \<Rightarrow>
         if ev_result event = CAP_OK then CAP_AUDIT_OUTCOME_GRANTED else CAP_AUDIT_OUTCOME_GRANT_DENIED
     | CAP_AUDIT_OP_REVOKE \<Rightarrow>
         if ev_result event = CAP_OK then CAP_AUDIT_OUTCOME_REVOKED else CAP_AUDIT_OUTCOME_REVOKE_DENIED
     | CAP_AUDIT_OP_CASCADE_REVOKE \<Rightarrow> CAP_AUDIT_OUTCOME_CASCADE_REVOKED
     | CAP_AUDIT_OP_CASCADE_DONE \<Rightarrow> CAP_AUDIT_OUTCOME_CASCADE_DONE)"

fun cap_audit_op_name :: "cap_audit_op_t \<Rightarrow> string" where
  "cap_audit_op_name CAP_AUDIT_OP_CHECK = ''CHECK''"
| "cap_audit_op_name CAP_AUDIT_OP_GRANT = ''GRANT''"
| "cap_audit_op_name CAP_AUDIT_OP_REVOKE = ''REVOKE''"
| "cap_audit_op_name CAP_AUDIT_OP_CASCADE_REVOKE = ''CASCADE_REVOKE''"
| "cap_audit_op_name CAP_AUDIT_OP_CASCADE_DONE = ''CASCADE_DONE''"

fun cap_audit_result_name :: "cap_result_t \<Rightarrow> string" where
  "cap_audit_result_name CAP_OK = ''OK''"
| "cap_audit_result_name CAP_ERR_MISSING = ''MISSING''"
| "cap_audit_result_name CAP_ERR_SUBJECT_INVALID = ''SUBJECT_INVALID''"
| "cap_audit_result_name CAP_ERR_CAP_INVALID = ''CAP_INVALID''"

fun cap_audit_outcome_name :: "cap_audit_outcome_t \<Rightarrow> string" where
  "cap_audit_outcome_name CAP_AUDIT_OUTCOME_ALLOW = ''ALLOW''"
| "cap_audit_outcome_name CAP_AUDIT_OUTCOME_DENY = ''DENY''"
| "cap_audit_outcome_name CAP_AUDIT_OUTCOME_GRANTED = ''GRANTED''"
| "cap_audit_outcome_name CAP_AUDIT_OUTCOME_GRANT_DENIED = ''GRANT_DENIED''"
| "cap_audit_outcome_name CAP_AUDIT_OUTCOME_REVOKED = ''REVOKED''"
| "cap_audit_outcome_name CAP_AUDIT_OUTCOME_REVOKE_DENIED = ''REVOKE_DENIED''"
| "cap_audit_outcome_name CAP_AUDIT_OUTCOME_CASCADE_REVOKED = ''CASCADE_REVOKED''"
| "cap_audit_outcome_name CAP_AUDIT_OUTCOME_CASCADE_DONE = ''CASCADE_DONE''"

text \<open>
  The writers return the bytes they put into the buffer, or \<open>None\<close> for the result \<^verbatim>\<open>-1\<close>.
\<close>

definition cap_audit_write_u64 :: "u64 \<Rightarrow> nat \<Rightarrow> string option" where
  "cap_audit_write_u64 v buf_size =
    (let tmp = (if v = 0 then ''0'' else u64_digit_loop 21 v)
     in if length tmp > buf_size then None else Some (rev tmp))"

fun cap_audit_write_str :: "string \<Rightarrow> nat \<Rightarrow> string option" where
  "cap_audit_write_str [] buf_size = Some []"
| "cap_audit_write_str (c # s) buf_size =
    (if buf_size = 0 then None else map_option (Cons c) (cap_audit_write_str s (buf_size - 1)))"

definition CAP_AUDIT_APPEND :: "(nat \<Rightarrow> string option) \<Rightarrow> nat \<Rightarrow> string option \<Rightarrow> string option" where
  \<comment> \<open>the two append macros: the bytes written so far, extended within \<^verbatim>\<open>buf_size - 1 - pos\<close>\<close>
  "CAP_AUDIT_APPEND write buf_size buf =
    (case buf of
       None \<Rightarrow> None
     | Some out \<Rightarrow> map_option (\<lambda>w. out @ w) (write (buf_size - 1 - length out)))"

definition cap_audit_format_event :: "cap_audit_event_t option \<Rightarrow> bool \<Rightarrow> nat \<Rightarrow> string option" where
  "cap_audit_format_event event buf buf_size =
    (case event of
       None \<Rightarrow> None
     | Some e \<Rightarrow>
        if \<not> buf \<or> buf_size = 0 then None
        else fold (\<lambda>write. CAP_AUDIT_APPEND write buf_size)
          [cap_audit_write_str ''CAP_AUDIT:seq='',
           cap_audit_write_u64 (ev_sequence_id e),
           cap_audit_write_str '':op='',
           cap_audit_write_str (cap_audit_op_name (ev_operation e)),
           cap_audit_write_str '':actor='',
           cap_audit_write_u64 (ucast (ev_actor_subject_id e)),
           cap_audit_write_str '':subject='',
           cap_audit_write_u64 (ucast (ev_subject_id e)),
           cap_audit_write_str '':cap='',
           cap_audit_write_u64 (ucast (ev_capability_id e)),
           cap_audit_write_str '':result='',
           cap_audit_write_str (cap_audit_result_name (ev_result e)),
           cap_audit_write_str '':outcome='',
           cap_audit_write_str (cap_audit_outcome_name (cap_audit_event_outcome event))]
          (Some []))"

definition cap_audit_line :: "cap_audit_event_t \<Rightarrow> string" where
  \<comment> \<open>specification: the line an event stands for\<close>
  "cap_audit_line e =
     ''CAP_AUDIT:seq='' @ dec_string (unat (ev_sequence_id e)) @
     '':op='' @ cap_audit_op_name (ev_operation e) @
     '':actor='' @ dec_string (unat (ev_actor_subject_id e)) @
     '':subject='' @ dec_string (unat (ev_subject_id e)) @
     '':cap='' @ dec_string (unat (ev_capability_id e)) @
     '':result='' @ cap_audit_result_name (ev_result e) @
     '':outcome='' @ cap_audit_outcome_name (cap_audit_event_outcome (Some e))"

section \<open>Lemmas: formatter\<close>

lemma cap_audit_write_str_eq: "cap_audit_write_str s n = (if length s \<le> n then Some s else None)"
  by (induction s n rule: cap_audit_write_str.induct) (auto split: if_splits)

lemma cap_audit_write_u64_eq:
  "cap_audit_write_u64 v n = (if length (dec_string (unat v)) \<le> n then Some (dec_string (unat v)) else None)"
  by (simp add: cap_audit_write_u64_def Let_def not_less u64_digits)

definition put_piece :: "string \<Rightarrow> nat \<Rightarrow> string option" where
  "put_piece p n = (if length p \<le> n then Some p else None)"

lemma cap_audit_write_str_piece: "cap_audit_write_str s = put_piece s"
  by (simp add: fun_eq_iff put_piece_def cap_audit_write_str_eq)

lemma cap_audit_write_u64_piece: "cap_audit_write_u64 v = put_piece (dec_string (unat v))"
  by (simp add: fun_eq_iff put_piece_def cap_audit_write_u64_eq)

lemma fold_append_None [simp]: "fold (\<lambda>write. CAP_AUDIT_APPEND write n) ws None = None"
  by (induction ws) (auto simp: CAP_AUDIT_APPEND_def)

lemma append_piece:
  "length out < n \<Longrightarrow> CAP_AUDIT_APPEND (put_piece p) n (Some out) =
     (if length out + length p < n then Some (out @ p) else None)"
  by (auto simp: CAP_AUDIT_APPEND_def put_piece_def)

lemma fold_append_pieces:
  "length out < n \<Longrightarrow>
   fold (\<lambda>write. CAP_AUDIT_APPEND write n) (map put_piece ps) (Some out) =
     (if length (out @ concat ps) < n then Some (out @ concat ps) else None)"
  by (induction ps arbitrary: out) (simp_all add: append_piece)

definition cap_audit_pieces :: "cap_audit_event_t \<Rightarrow> string list" where
  "cap_audit_pieces e =
    [''CAP_AUDIT:seq='', dec_string (unat (ev_sequence_id e)),
     '':op='', cap_audit_op_name (ev_operation e),
     '':actor='', dec_string (unat (ev_actor_subject_id e)),
     '':subject='', dec_string (unat (ev_subject_id e)),
     '':cap='', dec_string (unat (ev_capability_id e)),
     '':result='', cap_audit_result_name (ev_result e),
     '':outcome='', cap_audit_outcome_name (cap_audit_event_outcome (Some e))]"

lemma cap_audit_line_pieces: "cap_audit_line e = concat (cap_audit_pieces e)"
  by (simp only: cap_audit_line_def cap_audit_pieces_def concat.simps append_Nil2)

lemma cap_audit_format_event_eq:
  "cap_audit_format_event (Some e) True n =
   (if length (cap_audit_line e) < n then Some (cap_audit_line e) else None)"
proof (cases "n = 0")
  case False
  have "cap_audit_format_event (Some e) True n =
        fold (\<lambda>write. CAP_AUDIT_APPEND write n) (map put_piece (cap_audit_pieces e)) (Some [])"
    using False
    by (simp only: cap_audit_format_event_def cap_audit_pieces_def cap_audit_write_str_piece
        cap_audit_write_u64_piece list.map option.case unat_ucast_u64) simp
  with False show ?thesis by (simp add: fold_append_pieces cap_audit_line_pieces)
qed (simp add: cap_audit_format_event_def)

lemma no_colon_dec_string: "CHR '':'' \<notin> set (dec_string n)"
  using is_digit_dec_string [of "CHR '':''" n] by (auto simp: is_digit_def)

lemma no_colon_op_name: "CHR '':'' \<notin> set (cap_audit_op_name op)"
  by (cases op) simp_all

lemma no_colon_result_name: "CHR '':'' \<notin> set (cap_audit_result_name r)"
  by (cases r) simp_all

lemma cap_audit_op_name_inject: "cap_audit_op_name a = cap_audit_op_name b \<longleftrightarrow> a = b"
  by (cases a; cases b) simp_all

lemma cap_audit_result_name_inject: "cap_audit_result_name a = cap_audit_result_name b \<longleftrightarrow> a = b"
  by (cases a; cases b) simp_all

lemma length_cap_audit_line: "length (cap_audit_line e) \<le> 150"
proof -
  have "length (cap_audit_op_name (ev_operation e)) \<le> 14" by (cases "ev_operation e") simp_all
  moreover have "length (cap_audit_result_name (ev_result e)) \<le> 15" by (cases "ev_result e") simp_all
  moreover have "length (cap_audit_outcome_name (cap_audit_event_outcome (Some e))) \<le> 15"
    by (cases "cap_audit_event_outcome (Some e)") (simp_all del: cap_audit_event_outcome.simps)
  ultimately show ?thesis
    using length_dec_u64 [of "ev_sequence_id e"] length_dec_u32 [of "ev_actor_subject_id e"]
      length_dec_u32 [of "ev_subject_id e"] length_dec_u32 [of "ev_capability_id e"]
    by (simp add: cap_audit_line_def del: cap_audit_event_outcome.simps)
qed

lemma cap_audit_line_inject: "cap_audit_line e = cap_audit_line e' \<longleftrightarrow> e = e'"
proof
  assume "cap_audit_line e = cap_audit_line e'"
  then have "ev_sequence_id e = ev_sequence_id e' \<and> ev_operation e = ev_operation e' \<and>
      ev_actor_subject_id e = ev_actor_subject_id e' \<and> ev_subject_id e = ev_subject_id e' \<and>
      ev_capability_id e = ev_capability_id e' \<and> ev_result e = ev_result e'"
    by (simp add: cap_audit_line_def sep_cancel no_colon_dec_string no_colon_op_name
        no_colon_result_name cap_audit_op_name_inject cap_audit_result_name_inject
        flip: word_unat_eq_iff del: cap_audit_event_outcome.simps)
  then show "e = e'" by simp
qed simp

section \<open>Lemmas: the ring\<close>

type_synonym audit_call =
  "cap_audit_op_t \<times> cap_subject_id_t \<times> cap_subject_id_t \<times> capability_id_t \<times> cap_result_t"

fun audit_push :: "audit_call \<Rightarrow> cap_audit \<Rightarrow> cap_audit" where
  "audit_push (operation, actor, subject, capability, res) a =
     cap_audit_record operation actor subject capability res a"

fun audit_event :: "u64 \<Rightarrow> audit_call \<Rightarrow> cap_audit_event_t" where
  "audit_event seq (operation, actor, subject, capability, res) =
     \<lparr> ev_sequence_id = seq, ev_operation = operation, ev_actor_subject_id = actor,
       ev_subject_id = subject, ev_capability_id = capability, ev_result = res \<rparr>"

fun audit_digest :: "u64 \<Rightarrow> audit_call \<Rightarrow> u64" where
  "audit_digest seq (operation, actor, subject, capability, res) =
     cap_audit_event_digest seq operation actor subject capability res"

lemma cap_audit_emit_checkpoint_frame [simp]:
  "cap_audit_events (cap_audit_maybe_emit_checkpoint q a) = cap_audit_events a"
  "cap_audit_next_index (cap_audit_maybe_emit_checkpoint q a) = cap_audit_next_index a"
  "cap_audit_event_count (cap_audit_maybe_emit_checkpoint q a) = cap_audit_event_count a"
  "cap_audit_dropped_count (cap_audit_maybe_emit_checkpoint q a) = cap_audit_dropped_count a"
  "cap_audit_next_sequence_id (cap_audit_maybe_emit_checkpoint q a) = cap_audit_next_sequence_id a"
  "cap_audit_seal (cap_audit_maybe_emit_checkpoint q a) = cap_audit_seal a"
  by (simp_all add: cap_audit_maybe_emit_checkpoint_def)

lemma audit_push_fields [simp]:
  "cap_audit_events (audit_push x a) =
     (cap_audit_events a)[cap_audit_next_index a := audit_event (cap_audit_next_sequence_id a) x]"
  "cap_audit_next_index (audit_push x a) = (cap_audit_next_index a + 1) mod 32"
  "cap_audit_event_count (audit_push x a) =
     (if cap_audit_event_count a < 32 then cap_audit_event_count a + 1 else cap_audit_event_count a)"
  "cap_audit_dropped_count (audit_push x a) =
     (if cap_audit_event_count a < 32 then cap_audit_dropped_count a else cap_audit_dropped_count a + 1)"
  "cap_audit_next_sequence_id (audit_push x a) = cap_audit_next_sequence_id a + 1"
  by (cases x; simp add: cap_audit_record_def Let_def)+

lemma audit_push_seal:
  "cap_audit_seal (audit_push x a) =
     cap_audit_mix_u64 (cap_audit_mix_u64 (cap_audit_seal a) (audit_digest (cap_audit_next_sequence_id a) x))
       (if cap_audit_event_count a < 32 then cap_audit_dropped_count a else cap_audit_dropped_count a + 1)"
  by (cases x) (simp add: cap_audit_record_def Let_def)

declare audit_push.simps [simp del]

interpretation audit_ring: ring_log 32 cap_audit_events cap_audit_next_index cap_audit_event_count
    audit_push "\<lambda>x a. audit_event (cap_audit_next_sequence_id a) x"
  by unfold_locales auto

abbreviation checkpoint_push :: "u64 \<Rightarrow> cap_audit \<Rightarrow> cap_audit" where
  "checkpoint_push k \<equiv> cap_audit_maybe_emit_checkpoint (8 * k + 7)"

definition checkpoint_entry :: "u64 \<Rightarrow> cap_audit \<Rightarrow> cap_audit_checkpoint_t" where
  "checkpoint_entry k a =
     \<lparr> cp_checkpoint_id = cap_audit_next_checkpoint_id a, cp_start_sequence_id = 8 * k,
       cp_end_sequence_id = 8 * k + 7, cp_seal = cap_audit_seal a,
       cp_dropped_count = cap_audit_dropped_count a \<rparr>"

lemma u64_mod_8_eq_0: "w mod 8 = 0 \<longleftrightarrow> unat w mod 8 = 0" for w :: u64
  by (simp add: word_unat_eq_iff unat_mod)

lemma unat_8_mult_mod: "unat (8 * k :: u64) mod 8 = 0"
proof -
  have "unat (8 * k) = (8 * unat k) mod 2 ^ 64"
    by (simp add: unat_word_ariths)
  moreover have "(8 * n) mod (2 ^ 64) mod 8 = (0::nat)" for n
    by (simp add: mod_mod_cancel)
  ultimately show ?thesis by simp
qed

interpretation checkpoint_ring: ring_log 8 cap_audit_checkpoints cap_audit_checkpoint_next_index
    cap_audit_checkpoint_count checkpoint_push checkpoint_entry
proof -
  have "(8 * k + 7 + 1) mod 8 = (0 :: u64)" for k
  proof -
    have "8 * k + 7 + 1 = 8 * (k + 1)" by (simp add: algebra_simps)
    then show ?thesis using unat_8_mult_mod [of "k + 1"] by (simp add: u64_mod_8_eq_0 algebra_simps)
  qed
  then show "ring_log 8 cap_audit_checkpoints cap_audit_checkpoint_next_index
    cap_audit_checkpoint_count checkpoint_push checkpoint_entry"
    by unfold_locales
      (simp_all add: cap_audit_maybe_emit_checkpoint_def checkpoint_entry_def add.assoc)
qed

definition cap_audit_sized :: "cap_audit \<Rightarrow> bool" where
  \<comment> \<open>the lengths of the two static arrays\<close>
  "cap_audit_sized a \<longleftrightarrow> length (cap_audit_events a) = 32 \<and> length (cap_audit_checkpoints a) = 8"

abbreviation audit_run :: "audit_call list \<Rightarrow> cap_audit \<Rightarrow> cap_audit" where
  "audit_run xs a \<equiv> fold audit_push xs (cap_audit_reset_for_tests a)"

lemma cap_audit_reset_fields [simp]:
  "cap_audit_events (cap_audit_reset_for_tests a) = cap_audit_events a"
  "cap_audit_next_index (cap_audit_reset_for_tests a) = 0"
  "cap_audit_event_count (cap_audit_reset_for_tests a) = 0"
  "cap_audit_dropped_count (cap_audit_reset_for_tests a) = 0"
  "cap_audit_next_sequence_id (cap_audit_reset_for_tests a) = 0"
  "cap_audit_checkpoints (cap_audit_reset_for_tests a) = cap_audit_checkpoints a"
  "cap_audit_checkpoint_next_index (cap_audit_reset_for_tests a) = 0"
  "cap_audit_checkpoint_count (cap_audit_reset_for_tests a) = 0"
  "cap_audit_next_checkpoint_id (cap_audit_reset_for_tests a) = 0"
  "cap_audit_seal (cap_audit_reset_for_tests a) = 1469598103934665603"
  by (simp_all add: cap_audit_reset_for_tests_def)

lemma audit_reset_ok:
  assumes "cap_audit_sized a"
  shows "audit_ring.ok (cap_audit_reset_for_tests a)" "checkpoint_ring.ok (cap_audit_reset_for_tests a)"
  using assms by (simp_all add: audit_ring.ok_def checkpoint_ring.ok_def ring_ok_def cap_audit_sized_def)

lemma audit_run_seq: "cap_audit_next_sequence_id (fold audit_push xs a) = cap_audit_next_sequence_id a + of_nat (length xs)"
  by (induction xs arbitrary: a) simp_all

lemma audit_trace:
  "ring_trace audit_push (\<lambda>x a. audit_event (cap_audit_next_sequence_id a) x) xs a =
   map (\<lambda>i. audit_event (cap_audit_next_sequence_id a + of_nat i) (xs ! i)) [0..<length xs]"
  by (induction xs rule: rev_induct)
    (simp_all add: ring_trace_append audit_run_seq nth_append cong: map_cong)

lemma audit_run_dropped:
  assumes "cap_audit_sized a"
  shows "cap_audit_dropped_count (audit_run xs a) = of_nat (length xs - 32)"
proof (induction xs rule: rev_induct)
  case (snoc x xs)
  have "cap_audit_event_count (audit_run xs a) = min (length xs) 32"
    using audit_ring.cnt_run [OF audit_reset_ok(1) [OF assms]] by simp
  with snoc show ?case by (auto simp: not_less Suc_diff_le min_def split: if_splits)
qed simp

lemma audit_run_contents:
  assumes "cap_audit_sized a"
  shows "audit_ring.contents (audit_run xs a) =
         keep_last 32 (map (\<lambda>i. audit_event (of_nat i) (xs ! i)) [0..<length xs])"
  using audit_ring.run_contents [OF audit_reset_ok(1) [OF assms], of xs] by (simp add: audit_trace)

lemma cap_audit_get_contents:
  "cap_audit_get_for_tests i True a =
   (if i < cap_audit_event_count a then (CAP_OK, Some (audit_ring.contents a ! i))
    else (CAP_ERR_CAP_INVALID, None))"
  by (simp add: cap_audit_get_for_tests_def audit_ring.nth_contents ring_start_def Let_def)

lemma nth_keep_last_upt:
  "i < min n k \<Longrightarrow> keep_last k (map f [0..<n]) ! i = f (n - min n k + i)"
  by (auto simp: keep_last_def min_def split: if_splits)

section \<open>Lemmas: checkpoints\<close>

definition checkpoint_spec :: "cap_audit \<Rightarrow> audit_call list \<Rightarrow> nat \<Rightarrow> cap_audit_checkpoint_t" where
  "checkpoint_spec a xs j =
     \<lparr> cp_checkpoint_id = of_nat j, cp_start_sequence_id = of_nat (8 * j),
       cp_end_sequence_id = of_nat (8 * j + 7),
       cp_seal = cap_audit_seal (audit_run (take (8 * j + 8) xs) a),
       cp_dropped_count = of_nat (8 * j + 8 - 32) \<rparr>"

definition checkpoint_due :: "audit_call \<Rightarrow> cap_audit \<Rightarrow> cap_audit_checkpoint_t" where
  "checkpoint_due x a =
     \<lparr> cp_checkpoint_id = cap_audit_next_checkpoint_id a,
       cp_start_sequence_id = cap_audit_next_sequence_id a + 1 - 8,
       cp_end_sequence_id = cap_audit_next_sequence_id a,
       cp_seal = cap_audit_seal (audit_push x a),
       cp_dropped_count = cap_audit_dropped_count (audit_push x a) \<rparr>"

lemma audit_push_core:
  obtains b where "audit_push x a = cap_audit_maybe_emit_checkpoint (cap_audit_next_sequence_id a) b"
    and "cap_audit_checkpoints b = cap_audit_checkpoints a"
    and "cap_audit_checkpoint_next_index b = cap_audit_checkpoint_next_index a"
    and "cap_audit_checkpoint_count b = cap_audit_checkpoint_count a"
    and "cap_audit_next_checkpoint_id b = cap_audit_next_checkpoint_id a"
    and "cap_audit_seal b = cap_audit_seal (audit_push x a)"
    and "cap_audit_dropped_count b = cap_audit_dropped_count (audit_push x a)"
proof -
  obtain operation actor subject capability res where x: "x = (operation, actor, subject, capability, res)"
    by (cases x)
  show thesis
    by (rule that, unfold x audit_push.simps cap_audit_record_def Let_def, rule refl) simp_all
qed

lemma audit_push_checkpoints:
  assumes due: "(cap_audit_next_sequence_id a + 1) mod 8 = 0"
  shows "cap_audit_checkpoints (audit_push x a) =
           (cap_audit_checkpoints a)[cap_audit_checkpoint_next_index a := checkpoint_due x a]"
    and "cap_audit_checkpoint_next_index (audit_push x a) = (cap_audit_checkpoint_next_index a + 1) mod 8"
    and "cap_audit_checkpoint_count (audit_push x a) =
           (if cap_audit_checkpoint_count a < 8 then cap_audit_checkpoint_count a + 1 else cap_audit_checkpoint_count a)"
    and "cap_audit_next_checkpoint_id (audit_push x a) = cap_audit_next_checkpoint_id a + 1"
proof -
  obtain b where b: "audit_push x a = cap_audit_maybe_emit_checkpoint (cap_audit_next_sequence_id a) b"
    "cap_audit_checkpoints b = cap_audit_checkpoints a"
    "cap_audit_checkpoint_next_index b = cap_audit_checkpoint_next_index a"
    "cap_audit_checkpoint_count b = cap_audit_checkpoint_count a"
    "cap_audit_next_checkpoint_id b = cap_audit_next_checkpoint_id a"
    and s: "cap_audit_seal (audit_push x a) = cap_audit_seal b"
    "cap_audit_dropped_count (audit_push x a) = cap_audit_dropped_count b"
    by (metis audit_push_core [of x a])
  have d: "checkpoint_due x a =
     \<lparr> cp_checkpoint_id = cap_audit_next_checkpoint_id a,
       cp_start_sequence_id = cap_audit_next_sequence_id a + 1 - 8,
       cp_end_sequence_id = cap_audit_next_sequence_id a,
       cp_seal = cap_audit_seal b, cp_dropped_count = cap_audit_dropped_count b \<rparr>"
    by (simp only: checkpoint_due_def s)
  show "cap_audit_checkpoints (audit_push x a) =
           (cap_audit_checkpoints a)[cap_audit_checkpoint_next_index a := checkpoint_due x a]"
    "cap_audit_checkpoint_next_index (audit_push x a) = (cap_audit_checkpoint_next_index a + 1) mod 8"
    "cap_audit_checkpoint_count (audit_push x a) =
           (if cap_audit_checkpoint_count a < 8 then cap_audit_checkpoint_count a + 1 else cap_audit_checkpoint_count a)"
    "cap_audit_next_checkpoint_id (audit_push x a) = cap_audit_next_checkpoint_id a + 1"
    unfolding d b(1) cap_audit_maybe_emit_checkpoint_def using due by (simp_all add: b(2-5))
qed

lemma audit_push_no_checkpoint:
  assumes "(cap_audit_next_sequence_id a + 1) mod 8 \<noteq> 0"
  shows "cap_audit_checkpoints (audit_push x a) = cap_audit_checkpoints a"
    and "cap_audit_checkpoint_next_index (audit_push x a) = cap_audit_checkpoint_next_index a"
    and "cap_audit_checkpoint_count (audit_push x a) = cap_audit_checkpoint_count a"
    and "cap_audit_next_checkpoint_id (audit_push x a) = cap_audit_next_checkpoint_id a"
proof -
  obtain b where b: "audit_push x a = cap_audit_maybe_emit_checkpoint (cap_audit_next_sequence_id a) b"
    "cap_audit_checkpoints b = cap_audit_checkpoints a"
    "cap_audit_checkpoint_next_index b = cap_audit_checkpoint_next_index a"
    "cap_audit_checkpoint_count b = cap_audit_checkpoint_count a"
    "cap_audit_next_checkpoint_id b = cap_audit_next_checkpoint_id a"
    by (metis audit_push_core [of x a])
  show "cap_audit_checkpoints (audit_push x a) = cap_audit_checkpoints a"
    "cap_audit_checkpoint_next_index (audit_push x a) = cap_audit_checkpoint_next_index a"
    "cap_audit_checkpoint_count (audit_push x a) = cap_audit_checkpoint_count a"
    "cap_audit_next_checkpoint_id (audit_push x a) = cap_audit_next_checkpoint_id a"
    unfolding b(1) cap_audit_maybe_emit_checkpoint_def using assms by (simp_all add: b(2-5))
qed

lemma seq_due_iff: "(of_nat n + 1 :: u64) mod 8 = 0 \<longleftrightarrow> Suc n mod 8 = 0"
proof -
  have "of_nat n + 1 = (of_nat (Suc n) :: u64)" by (simp only: of_nat_Suc add.commute)
  moreover have "unat (of_nat (Suc n) :: u64) = Suc n mod 2 ^ LENGTH(64)" by (rule unat_of_nat)
  moreover have "Suc n mod 2 ^ LENGTH(64) mod 8 = Suc n mod 8" by (rule mod_mod_cancel) simp
  ultimately show ?thesis by (simp only: u64_mod_8_eq_0)
qed

lemma audit_run_due:
  "(cap_audit_next_sequence_id (audit_run xs a) + 1) mod 8 = 0 \<longleftrightarrow> Suc (length xs) mod 8 = 0"
  by (simp only: audit_run_seq cap_audit_reset_fields add_0 seq_due_iff)

lemma audit_run_checkpoint_id:
  "cap_audit_next_checkpoint_id (audit_run xs a) = of_nat (length xs div 8)"
proof (induction xs rule: rev_induct)
  case (snoc x xs)
  have step: "audit_run (xs @ [x]) a = audit_push x (audit_run xs a)" by simp
  show ?case
    unfolding step length_append list.size add_Suc_right add_0_right div_Suc
    using snoc audit_push_checkpoints(4) [of "audit_run xs a" x]
      audit_push_no_checkpoint(4) [of "audit_run xs a" x] audit_run_due [of xs a]
    by (cases "Suc (length xs) mod 8 = 0") (simp_all only: simp_thms if_True if_False of_nat_Suc add.commute)
qed simp

lemma checkpoint_spec_prefix:
  "j < length xs div 8 \<Longrightarrow> checkpoint_spec a (xs @ ys) j = checkpoint_spec a xs j"
  by (simp add: checkpoint_spec_def)

lemma checkpoint_due_spec:
  assumes "cap_audit_sized a" "Suc (length xs) mod 8 = 0"
  shows "checkpoint_due x (audit_run xs a) = checkpoint_spec a (xs @ [x]) (length xs div 8)"
proof -
  have "length xs mod 8 = 7" using assms(2) by (simp add: mod_Suc split: if_splits)
  then obtain k where k: "length xs = 8 * k + 7" by (metis div_mult_mod_eq mult.commute)
  have "cap_audit_dropped_count (audit_push x (audit_run xs a)) = of_nat (8 * k + 8 - 32)"
    using audit_run_dropped [OF assms(1), of "xs @ [x]"] k by (simp del: audit_push_fields)
  then show ?thesis
    using k
    by (simp add: checkpoint_due_def checkpoint_spec_def audit_run_checkpoint_id audit_run_seq del: audit_push_fields)
qed

lemma audit_run_checkpoints:
  assumes a: "cap_audit_sized a"
  shows "checkpoint_ring.ok (audit_run xs a) \<and>
         checkpoint_ring.contents (audit_run xs a) =
           keep_last 8 (map (checkpoint_spec a xs) [0..<length xs div 8])"
proof (induction xs rule: rev_induct)
  case Nil
  show ?case using audit_reset_ok(2) [OF a] by (simp add: checkpoint_ring.contents_def ring_contents_def)
next
  case (snoc x xs)
  let ?b = "audit_run xs a"
  have step: "audit_run (xs @ [x]) a = audit_push x ?b" by simp
  have pre: "map (checkpoint_spec a (xs @ [x])) [0..<length xs div 8] =
      map (checkpoint_spec a xs) [0..<length xs div 8]"
    by (simp add: checkpoint_spec_prefix)
  show ?case
  proof (cases "Suc (length xs) mod 8 = 0")
    case True
    then have due: "(cap_audit_next_sequence_id ?b + 1) mod 8 = 0" by (simp only: audit_run_due)
    have e: "checkpoint_due x ?b = checkpoint_spec a (xs @ [x]) (length xs div 8)"
      by (rule checkpoint_due_spec [OF a True])
    have n: "[0..<length (xs @ [x]) div 8] = [0..<length xs div 8] @ [length xs div 8]"
      using True by (simp add: div_Suc)
    have "checkpoint_ring.ok (audit_push x ?b)"
      using snoc ring_push_ok [of 8 "cap_audit_checkpoints ?b" _ _ "checkpoint_due x ?b"]
      by (simp add: checkpoint_ring.ok_def audit_push_checkpoints [OF due] del: audit_push_fields)
    moreover have "checkpoint_ring.contents (audit_push x ?b) =
        keep_last 8 (checkpoint_ring.contents ?b @ [checkpoint_due x ?b])"
      using snoc ring_push_contents [of 8 "cap_audit_checkpoints ?b" _ _ "checkpoint_due x ?b"]
      by (simp add: checkpoint_ring.ok_def checkpoint_ring.contents_def audit_push_checkpoints [OF due] del: audit_push_fields)
    ultimately show ?thesis
      unfolding step n map_append pre using snoc e by (simp add: keep_last_snoc)
  next
    case False
    then have not_due: "(cap_audit_next_sequence_id ?b + 1) mod 8 \<noteq> 0" by (simp only: audit_run_due not_False_eq_True)
    have n: "[0..<length (xs @ [x]) div 8] = [0..<length xs div 8]"
      using False by (simp add: div_Suc)
    show ?thesis
      unfolding step n pre
      using snoc by (simp add: checkpoint_ring.ok_def checkpoint_ring.contents_def
          audit_push_no_checkpoint [OF not_due] del: audit_push_fields)
  qed
qed

lemma cap_audit_checkpoint_get_contents:
  "cap_audit_checkpoint_get_for_tests i True a =
   (if i < cap_audit_checkpoint_count a then (CAP_OK, Some (checkpoint_ring.contents a ! i))
    else (CAP_ERR_CAP_INVALID, None))"
  by (simp add: cap_audit_checkpoint_get_for_tests_def checkpoint_ring.nth_contents ring_start_def Let_def)

section \<open>Lemmas: the seal\<close>

fun call_diff :: "audit_call \<Rightarrow> audit_call \<Rightarrow> nat" where
  \<comment> \<open>the number of fields in which two recorded decisions differ\<close>
  "call_diff (o1, a1, s1, c1, r1) (o2, a2, s2, c2, r2) =
     of_bool (o1 \<noteq> o2) + of_bool (a1 \<noteq> a2) + of_bool (s1 \<noteq> s2) + of_bool (c1 \<noteq> c2) + of_bool (r1 \<noteq> r2)"

definition same_counters :: "cap_audit \<Rightarrow> cap_audit \<Rightarrow> bool" where
  "same_counters a b \<longleftrightarrow> cap_audit_next_sequence_id a = cap_audit_next_sequence_id b \<and>
     cap_audit_event_count a = cap_audit_event_count b \<and>
     cap_audit_dropped_count a = cap_audit_dropped_count b"

lemma prime_mult_inject: "a * 1099511628211 = b * 1099511628211 \<longleftrightarrow> a = b" for a b :: u64
proof -
  have inv: "(1099511628211 * 14886173955864302971 :: u64) = 1" by simp
  have undo: "c * 1099511628211 * 14886173955864302971 = c" for c :: u64
    unfolding mult.assoc inv by (rule mult_1_right)
  show ?thesis using undo [of a] undo [of b] by metis
qed

lemma xor_left_inject: "a XOR v = b XOR v \<longleftrightarrow> a = b" for a b v :: u64
proof -
  have undo: "(c XOR v) XOR v = c" for c by (simp add: xor.assoc)
  show ?thesis using undo [of a] undo [of b] by metis
qed

lemma mix_inject_left [simp]: "cap_audit_mix_u64 a v = cap_audit_mix_u64 b v \<longleftrightarrow> a = b"
  by (simp add: cap_audit_mix_u64_def prime_mult_inject xor_left_inject)

lemma mix_inject_right [simp]: "cap_audit_mix_u64 a v = cap_audit_mix_u64 a w \<longleftrightarrow> v = w"
  by (simp add: cap_audit_mix_u64_def prime_mult_inject xor.commute [of a] xor_left_inject)

lemma cap_audit_op_code_inject [simp]: "cap_audit_op_code a = cap_audit_op_code b \<longleftrightarrow> a = b"
  by (cases a; cases b) simp_all

lemma cap_result_code_inject [simp]: "cap_result_code a = cap_result_code b \<longleftrightarrow> a = b"
  by (cases a; cases b) simp_all

lemma audit_digest_differs: "call_diff x y = 1 \<Longrightarrow> audit_digest q x \<noteq> audit_digest q y"
  by (cases x; cases y)
    (auto simp: cap_audit_event_digest_def Let_def of_bool_def split: if_splits)

lemma same_counters_push: "same_counters a b \<Longrightarrow> same_counters (audit_push x a) (audit_push y b)"
  by (simp add: same_counters_def)

lemma seal_differs_run:
  "same_counters a b \<Longrightarrow> cap_audit_seal a \<noteq> cap_audit_seal b \<Longrightarrow>
   cap_audit_seal (fold audit_push xs a) \<noteq> cap_audit_seal (fold audit_push xs b)"
proof (induction xs arbitrary: a b)
  case (Cons x xs)
  have "cap_audit_seal (audit_push x a) \<noteq> cap_audit_seal (audit_push x b)"
    using Cons.prems by (simp add: audit_push_seal same_counters_def)
  then show ?case using Cons.IH same_counters_push [OF Cons.prems(1)] by simp
qed simp

lemma seal_differs_push:
  "call_diff x y = 1 \<Longrightarrow> cap_audit_seal (audit_push x a) \<noteq> cap_audit_seal (audit_push y a)"
  using audit_digest_differs by (simp add: audit_push_seal)

section \<open>Lemmas: audited operations\<close>

datatype cap_op =
    Op_Grant_As cap_subject_id_t cap_subject_id_t capability_id_t
  | Op_Revoke_As cap_subject_id_t cap_subject_id_t capability_id_t
  | Op_Check cap_subject_id_t capability_id_t

fun cap_step :: "cap_op \<Rightarrow> cap_state \<Rightarrow> cap_result_t \<times> cap_state" where
  "cap_step (Op_Grant_As actor target c) st = cap_grant_as_for_tests actor target c st"
| "cap_step (Op_Revoke_As actor target c) st = cap_revoke_as_for_tests actor target c st"
| "cap_step (Op_Check s c) st = cap_check s c st"

fun cap_op_call :: "cap_op \<Rightarrow> cap_result_t \<Rightarrow> audit_call" where
  "cap_op_call (Op_Grant_As actor target c) res = (CAP_AUDIT_OP_GRANT, actor, target, c, res)"
| "cap_op_call (Op_Revoke_As actor target c) res = (CAP_AUDIT_OP_REVOKE, actor, target, c, res)"
| "cap_op_call (Op_Check s c) res = (CAP_AUDIT_OP_CHECK, s, s, c, res)"

abbreviation cap_run :: "cap_op list \<Rightarrow> cap_state \<Rightarrow> cap_state" where
  "cap_run ops st \<equiv> fold (\<lambda>op st. snd (cap_step op st)) ops st"

primrec cap_calls :: "cap_op list \<Rightarrow> cap_state \<Rightarrow> audit_call list" where
  "cap_calls [] st = []"
| "cap_calls (op # ops) st =
     cap_op_call op (fst (cap_step op st)) # cap_calls ops (snd (cap_step op st))"

abbreviation cap_holds :: "cap_state \<Rightarrow> cap_subject_id_t \<Rightarrow> capability_id_t \<Rightarrow> bool" where
  "cap_holds st s c \<equiv> cap_table_check s c (cap_tab st) = CAP_OK"

lemmas cap_step_defs = cap_grant_as_for_tests_def cap_revoke_as_for_tests_def cap_check_def
  cap_actor_authorized_for_mutation_def cap_actor_authorized_for_admin_grant_def

lemma cap_step_log:
  "cap_log (snd (cap_step op st)) = audit_push (cap_op_call op (fst (cap_step op st))) (cap_log st)"
  by (cases op) (auto simp: cap_step_defs audit_push.simps Let_def split: prod.splits)

lemma length_cap_calls [simp]: "length (cap_calls ops st) = length ops"
  by (induction ops arbitrary: st) simp_all

lemma cap_run_log: "cap_log (cap_run ops st) = fold audit_push (cap_calls ops st) (cap_log st)"
  by (induction ops arbitrary: st) (simp_all add: cap_step_log)

lemma cap_grant_as_result:
  "fst (cap_grant_as_for_tests actor target c st) = CAP_OK \<longleftrightarrow>
   cap_valid target c \<and>
   (if c = CAP_CAPABILITY_ADMIN then actor = 0 else cap_holds st actor CAP_CAPABILITY_ADMIN)"
  by (auto simp: cap_step_defs cap_table_grant_def cap_valid_def Let_def)

lemma cap_grant_as_tab:
  "cap_tab (snd (cap_grant_as_for_tests actor target c st)) =
   (if fst (cap_grant_as_for_tests actor target c st) = CAP_OK
    then snd (cap_table_grant target c (cap_tab st)) else cap_tab st)"
  by (auto simp: cap_step_defs cap_table_grant_def Let_def)

lemma cap_revoke_as_tab:
  "cap_tab (snd (cap_revoke_as_for_tests actor target c st)) =
   (if fst (cap_revoke_as_for_tests actor target c st) = CAP_OK
    then snd (cap_table_revoke target c (cap_tab st)) else cap_tab st)"
  by (auto simp: cap_step_defs cap_table_revoke_def Let_def)

lemma cap_check_tab [simp]: "cap_tab (snd (cap_check s c st)) = cap_tab st"
  by (simp add: cap_check_def Let_def)

lemma cap_step_wf: "cap_table_wf (cap_tab st) \<Longrightarrow> cap_table_wf (cap_tab (snd (cap_step op st)))"
  by (cases op) (auto simp: cap_grant_as_tab cap_revoke_as_tab)

lemma cap_step_new_holds:
  assumes "cap_table_wf (cap_tab st)" "cap_holds (snd (cap_step op st)) s c" "\<not> cap_holds st s c"
  shows "\<exists>actor. op = Op_Grant_As actor s c \<and>
    (if c = CAP_CAPABILITY_ADMIN then actor = 0 else cap_holds st actor CAP_CAPABILITY_ADMIN)"
  using assms
  by (cases op)
    (auto simp: cap_grant_as_tab cap_revoke_as_tab cap_table_check_grant cap_table_check_revoke
      cap_grant_as_result split: if_splits)

lemma cap_run_new_holds:
  assumes "cap_table_wf (cap_tab st)" "\<forall>target. Op_Grant_As 0 target CAP_CAPABILITY_ADMIN \<notin> set ops"
  shows "(cap_holds (cap_run ops st) s CAP_CAPABILITY_ADMIN \<longrightarrow> cap_holds st s CAP_CAPABILITY_ADMIN) \<and>
         (cap_holds (cap_run ops st) s c \<longrightarrow> cap_holds st s c \<or>
           (\<exists>actor. Op_Grant_As actor s c \<in> set ops \<and> cap_holds st actor CAP_CAPABILITY_ADMIN))"
  using assms
proof (induction ops arbitrary: st s c)
  case (Cons op ops)
  let ?st = "snd (cap_step op st)"
  have wf: "cap_table_wf (cap_tab ?st)" using Cons.prems(1) by (rule cap_step_wf)
  have no: "\<forall>target. Op_Grant_As 0 target CAP_CAPABILITY_ADMIN \<notin> set ops" using Cons.prems(2) by auto
  have admin: "cap_holds ?st s' CAP_CAPABILITY_ADMIN \<Longrightarrow> cap_holds st s' CAP_CAPABILITY_ADMIN" for s'
    using cap_step_new_holds [OF Cons.prems(1), of s' CAP_CAPABILITY_ADMIN op] Cons.prems(2) by auto
  have new: "cap_holds ?st s c \<Longrightarrow> cap_holds st s c \<or>
      (\<exists>actor. op = Op_Grant_As actor s c \<and> cap_holds st actor CAP_CAPABILITY_ADMIN)"
    using cap_step_new_holds [OF Cons.prems(1), of s c op] Cons.prems(2)
    by (cases "c = CAP_CAPABILITY_ADMIN") (metis list.set_intros(1))+
  show ?case using Cons.IH [OF wf no, of s c] admin new by auto
qed simp

interpretation audited: capability_store "\<lambda>st. cap_table_wf (cap_tab st)" cap_holds cap_valid
    "\<lambda>s c st. snd (cap_grant_for_tests s c st)" "\<lambda>s c st. snd (cap_revoke_for_tests s c st)"
proof -
  have g: "cap_tab (snd (cap_grant_for_tests s c st)) = snd (cap_table_grant s c (cap_tab st))" for s c st
    by (simp add: cap_grant_for_tests_def Let_def split: prod.splits)
  have r: "cap_tab (snd (cap_revoke_for_tests s c st)) = snd (cap_table_revoke s c (cap_tab st))" for s c st
    by (simp add: cap_revoke_for_tests_def Let_def split: prod.splits)
  show "capability_store (\<lambda>st. cap_table_wf (cap_tab st)) cap_holds cap_valid
    (\<lambda>s c st. snd (cap_grant_for_tests s c st)) (\<lambda>s c st. snd (cap_revoke_for_tests s c st))"
    by unfold_locales
      (simp_all add: g r bitset.holds_grant bitset.holds_revoke, rule bitset.holds_valid)
qed

section \<open>Properties\<close>

definition cap_state_boot :: cap_state where
  \<comment> \<open>the zero-initialised statics of \<^verbatim>\<open>cap_table.c\<close> and \<^verbatim>\<open>capability.c\<close>\<close>
  "cap_state_boot =
    \<lparr> cap_tab = cap_boot,
      cap_log =
        \<lparr> cap_audit_events = replicate 32 \<lparr> ev_sequence_id = 0, ev_operation = CAP_AUDIT_OP_CHECK,
            ev_actor_subject_id = 0, ev_subject_id = 0, ev_capability_id = 0, ev_result = CAP_OK \<rparr>,
          cap_audit_next_index = 0, cap_audit_event_count = 0, cap_audit_dropped_count = 0,
          cap_audit_next_sequence_id = 0,
          cap_audit_checkpoints = replicate 8 \<lparr> cp_checkpoint_id = 0, cp_start_sequence_id = 0,
            cp_end_sequence_id = 0, cp_seal = 0, cp_dropped_count = 0 \<rparr>,
          cap_audit_checkpoint_next_index = 0, cap_audit_checkpoint_count = 0,
          cap_audit_next_checkpoint_id = 0, cap_audit_seal = 0 \<rparr> \<rparr>"

lemma cap_state_boot_ok [simp]: "cap_table_wf (cap_tab cap_state_boot)" "cap_audit_sized (cap_log cap_state_boot)"
  by (simp_all add: cap_state_boot_def cap_audit_sized_def)

lemma cap_state_boot_holds [simp]: "\<not> cap_holds cap_state_boot s c"
  using cap_table_check_reset [of s c cap_boot]
  by (simp add: cap_state_boot_def cap_boot_def cap_table_reset_eq)

text \<open>
  C3: Authority confinement.  In any sequence of actor-checked grants, revokes and checks in which
  the bootstrap root (subject 0) does not itself hand out the admin capability, no subject gains the
  admin capability, and every capability a subject holds afterwards it either held before or was
  granted by an actor that already held the admin capability at the start.
\<close>

theorem cap_authority_confined:
  assumes "cap_table_wf (cap_tab st)" "\<forall>target. Op_Grant_As 0 target CAP_CAPABILITY_ADMIN \<notin> set ops"
  shows "(cap_holds (cap_run ops st) s CAP_CAPABILITY_ADMIN \<longrightarrow> cap_holds st s CAP_CAPABILITY_ADMIN) \<and>
         (cap_holds (cap_run ops st) s c \<longrightarrow> cap_holds st s c \<or>
           (\<exists>actor. Op_Grant_As actor s c \<in> set ops \<and> cap_holds st actor CAP_CAPABILITY_ADMIN))"
  by (rule cap_run_new_holds [OF assms])

theorem cap_authority_confined_witness:
  "\<not> cap_holds (cap_run [Op_Grant_As 3 3 CAP_CAPABILITY_ADMIN, Op_Grant_As 3 5 CAP_FS_WRITE] cap_state_boot)
     5 CAP_FS_WRITE"
proof -
  show ?thesis
    using cap_authority_confined [OF cap_state_boot_ok(1),
        of "[Op_Grant_As 3 3 CAP_CAPABILITY_ADMIN, Op_Grant_As 3 5 CAP_FS_WRITE]" 5 CAP_FS_WRITE]
    by simp
qed

text \<open>
  C4: Complete mediation of the audit log.  After a reset, for any sequence of actor-checked grants,
  revokes and checks, the log read oldest-first returns exactly the most recent 32 decisions, one
  per call and each with the result the call returned, numbered by their position in the sequence,
  and the dropped counter says how many older ones were overwritten.
\<close>

theorem cap_audit_complete:
  assumes "cap_audit_sized (cap_log st)"
  shows "let calls = cap_calls ops (cap_reset_for_tests st);
             log = cap_log (cap_run ops (cap_reset_for_tests st));
             kept = min (length ops) 32
         in cap_audit_count_for_tests log = kept \<and>
            cap_audit_dropped_for_tests log = of_nat (length ops - 32) \<and>
            cap_audit_get_for_tests i True log =
              (if i < kept
               then let j = length ops - kept + i in (CAP_OK, Some (audit_event (of_nat j) (calls ! j)))
               else (CAP_ERR_CAP_INVALID, None))"
proof -
  let ?st = "cap_reset_for_tests st"
  let ?calls = "cap_calls ops ?st"
  have log: "cap_log (cap_run ops ?st) = audit_run ?calls (cap_log st)"
    by (simp add: cap_run_log) (simp add: cap_reset_for_tests_def)
  have cnt: "cap_audit_event_count (audit_run ?calls (cap_log st)) = min (length ops) 32"
    using audit_ring.cnt_run [OF audit_reset_ok(1) [OF assms]] by simp
  show ?thesis
    by (simp add: Let_def log cap_audit_count_for_tests_def cap_audit_dropped_for_tests_def cnt
        audit_run_dropped [OF assms] cap_audit_get_contents audit_run_contents [OF assms]
        nth_keep_last_upt del: cap_calls.simps)
qed

theorem cap_audit_complete_witness:
  "cap_audit_count_for_tests (cap_log (cap_run [Op_Check 2 CAP_FS_READ] (cap_reset_for_tests cap_state_boot))) = 1"
  using cap_audit_complete [OF cap_state_boot_ok(2), of "[Op_Check 2 CAP_FS_READ]" 0] by (simp add: Let_def)

text \<open>
  C5: Checkpoints.  After a reset and any sequence of recorded decisions, every eighth decision has
  produced a checkpoint; the most recent eight are retained oldest-first, and checkpoint number
  \<open>j\<close> covers the sequence ids from \<open>8 j\<close> to \<open>8 j + 7\<close> and carries the seal and the
  dropped counter as they stood after the first \<open>8 j + 8\<close> decisions.
\<close>

theorem cap_audit_checkpoints_correct:
  assumes "cap_audit_sized a"
  shows "let n = length xs div 8; kept = min n 8; log = audit_run xs a
         in cap_audit_checkpoint_count_for_tests log = kept \<and>
            cap_audit_checkpoint_get_for_tests i True log =
              (if i < kept then (CAP_OK, Some (checkpoint_spec a xs (n - kept + i)))
               else (CAP_ERR_CAP_INVALID, None))"
proof -
  have c: "checkpoint_ring.contents (audit_run xs a) = keep_last 8 (map (checkpoint_spec a xs) [0..<length xs div 8])"
    using audit_run_checkpoints [OF assms] by blast
  then have "cap_audit_checkpoint_count (audit_run xs a) = min (length xs div 8) 8"
    by (metis checkpoint_ring.contents_def length_keep_last length_map length_ring_contents length_upt diff_zero)
  then show ?thesis
    by (simp add: Let_def cap_audit_checkpoint_count_for_tests_def cap_audit_checkpoint_get_contents c nth_keep_last_upt)
qed

theorem cap_audit_checkpoints_correct_witness:
  "cap_audit_checkpoint_count_for_tests
     (audit_run (replicate 17 (CAP_AUDIT_OP_CHECK, 1, 1, CAP_FS_READ, CAP_ERR_MISSING)) (cap_log cap_state_boot)) = 2"
  using cap_audit_checkpoints_correct [OF cap_state_boot_ok(2),
      of "replicate 17 (CAP_AUDIT_OP_CHECK, 1, 1, CAP_FS_READ, CAP_ERR_MISSING)" 0]
  by (simp only: Let_def length_replicate)

text \<open>
  C6: Tamper evidence of the seal.  If one recorded decision is altered in exactly one of its fields
  (operation, actor, subject, capability or result), whatever decisions come before and after it,
  the resulting seal differs.
\<close>

theorem cap_audit_seal_detects:
  assumes "i < length xs" "call_diff (xs ! i) y = 1"
  shows "cap_audit_seal (audit_run (xs[i := y]) a) \<noteq> cap_audit_seal (audit_run xs a)"
proof -
  let ?s = "audit_run (take i xs) a"
  have x: "xs = take i xs @ xs ! i # drop (Suc i) xs" using assms(1) by (rule id_take_nth_drop)
  have y: "xs[i := y] = take i xs @ y # drop (Suc i) xs" using assms(1) by (rule upd_conv_take_nth_drop)
  have "cap_audit_seal (audit_push y ?s) \<noteq> cap_audit_seal (audit_push (xs ! i) ?s)"
    using seal_differs_push [OF assms(2)] by metis
  moreover have "same_counters (audit_push y ?s) (audit_push (xs ! i) ?s)"
    by (rule same_counters_push) (simp add: same_counters_def)
  ultimately have "cap_audit_seal (fold audit_push (drop (Suc i) xs) (audit_push y ?s)) \<noteq>
      cap_audit_seal (fold audit_push (drop (Suc i) xs) (audit_push (xs ! i) ?s))"
    by (intro seal_differs_run)
  then show ?thesis by (subst (2) x, subst y) simp
qed

theorem cap_audit_seal_detects_witness:
  "cap_audit_seal (audit_run [(CAP_AUDIT_OP_CHECK, 1, 1, CAP_FS_READ, CAP_OK)] (cap_log cap_state_boot)) \<noteq>
   cap_audit_seal (audit_run [(CAP_AUDIT_OP_CHECK, 1, 1, CAP_FS_READ, CAP_ERR_MISSING)] (cap_log cap_state_boot))"
  using cap_audit_seal_detects [of 0 "[(CAP_AUDIT_OP_CHECK, 1, 1, CAP_FS_READ, CAP_ERR_MISSING)]"
      "(CAP_AUDIT_OP_CHECK, 1, 1, CAP_FS_READ, CAP_OK)" "cap_log cap_state_boot"] by simp

text \<open>
  C7: The serial line of an audit event.  The formatter produces the complete documented line
  exactly when the buffer has room for it and the terminator and reports an error otherwise, 151
  bytes are always enough, and two events with the same line are the same event.
\<close>

theorem cap_audit_format_exact:
  "cap_audit_format_event (Some e) True n =
     (if length (cap_audit_line e) < n then Some (cap_audit_line e) else None) \<and>
   cap_audit_format_event (Some e) True 151 = Some (cap_audit_line e) \<and>
   (cap_audit_line e = cap_audit_line e' \<longleftrightarrow> e = e')"
  using length_cap_audit_line [of e]
  by (simp add: cap_audit_format_event_eq cap_audit_line_inject)

end
