(* ===== verification/Cap_Deny_Marker.thy ===== *)
theory Cap_Deny_Marker
  imports Cap_Table
begin

text \<open>
  \<^verbatim>\<open>kernel/cap/cap_deny_marker.c\<close>: the formatter and the validator of the serial line that every
  denied capability check leaves behind.

  C strings are their bytes before the terminator; a pointer that may be NULL is an option and a
  buffer is its non-NULL flag with its size.  Writers return the bytes placed in the buffer, or
  \<open>None\<close> for \<^verbatim>\<open>-1\<close>.
\<close>

abbreviation "CAP_DENY_MARKER_MAX \<equiv> (256 :: nat)"
abbreviation "CAP_DENY_RESOURCE_MAX \<equiv> (192 :: nat)"
abbreviation "newline \<equiv> CHR 0x0A"

section \<open>Definitions\<close>

definition cdm_is_printable_ascii :: "char \<Rightarrow> bool" where
  "cdm_is_printable_ascii c \<longleftrightarrow> 0x20 \<le> (of_char c :: nat) \<and> (of_char c :: nat) < 0x7F"

fun cdm_append :: "string \<Rightarrow> nat \<Rightarrow> string \<Rightarrow> string option" where
  "cdm_append [] buf_size out = Some out"
| "cdm_append (c # src) buf_size out =
    (if length out \<ge> buf_size then None else cdm_append src buf_size (out @ [c]))"

function cdm_u32_tmp :: "u32 \<Rightarrow> string" where
  "cdm_u32_tmp u = (if u = 0 then [] else digit_char (unat (u mod 10)) # cdm_u32_tmp (u div 10))"
  by auto
termination
  by (relation "measure unat") (auto simp: unat_div word_unat_eq_iff)

declare cdm_u32_tmp.simps [simp del]

definition cdm_append_u32 :: "u32 \<Rightarrow> nat \<Rightarrow> string \<Rightarrow> string option" where
  "cdm_append_u32 u buf_size out =
    (let tmp = (if u = 0 then ''0'' else cdm_u32_tmp u) in cdm_append (rev tmp) buf_size out)"

definition cdm_cap_names :: "(capability_id_t \<times> string) list" where
  "cdm_cap_names =
    [(CAP_CONSOLE_WRITE, ''console_write''),
     (CAP_SERIAL_WRITE, ''serial_write''),
     (CAP_DEBUG_EXIT, ''debug_exit''),
     (CAP_CAPABILITY_ADMIN, ''capability_admin''),
     (CAP_DISK_IO_REQUEST, ''disk_io_request''),
     (CAP_FS_READ, ''fs_read''),
     (CAP_FS_WRITE, ''fs_write''),
     (CAP_EVENT_SUBSCRIBE, ''event_subscribe''),
     (CAP_EVENT_PUBLISH, ''event_publish''),
     (CAP_APP_EXEC, ''app_exec''),
     (CAP_CODESIGN_BYPASS, ''codesign_bypass''),
     (CAP_NETWORK, ''network''),
     (CAP_IPC_SEND, ''ipc_send''),
     (CAP_IPC_RECV, ''ipc_recv''),
     (CAP_SYSCALL, ''syscall''),
     (CAP_CLOCK_SET, ''clock_set''),
     (CAP_INPUT_MOUSE, ''input_mouse''),
     (CAP_GFX_FRAMEBUFFER, ''gfx_framebuffer''),
     (CAP_INPUT_KEYBOARD, ''input_keyboard'')]"

definition cap_deny_marker_name :: "capability_id_t \<Rightarrow> string option" where
  "cap_deny_marker_name cap_id = map_of cdm_cap_names cap_id"

definition cdm_bad_byte :: "char \<Rightarrow> bool" where
  "cdm_bad_byte c \<longleftrightarrow> c = CHR '':'' \<or> c = newline \<or> \<not> cdm_is_printable_ascii c"

fun cdm_resource_len :: "nat \<Rightarrow> string \<Rightarrow> nat option" where
  \<comment> \<open>the scan of the resource argument: its length, or rejection\<close>
  "cdm_resource_len rlen [] = Some rlen"
| "cdm_resource_len rlen (c # resource) =
    (if rlen \<ge> CAP_DENY_RESOURCE_MAX then None
     else if cdm_bad_byte c then None
     else cdm_resource_len (rlen + 1) resource)"

definition cap_deny_marker_format ::
  "cap_subject_id_t \<Rightarrow> capability_id_t \<Rightarrow> string option \<Rightarrow> bool \<Rightarrow> nat \<Rightarrow> string option" where
  "cap_deny_marker_format actor_subject_id cap_id resource buf buf_size =
    (case resource of
       None \<Rightarrow> None
     | Some resource \<Rightarrow>
        if \<not> buf \<or> buf_size = 0 then None
        else case cap_deny_marker_name cap_id of
          None \<Rightarrow> None
        | Some cap_name \<Rightarrow>
           (case cdm_resource_len 0 resource of
              None \<Rightarrow> None
            | Some rlen \<Rightarrow>
               if rlen = 0 then None
               else
                 Option.bind (cdm_append ''CAP:DENY:'' buf_size []) (\<lambda>out.
                 Option.bind (cdm_append_u32 actor_subject_id buf_size out) (\<lambda>out.
                 Option.bind (cdm_append '':'' buf_size out) (\<lambda>out.
                 Option.bind (cdm_append cap_name buf_size out) (\<lambda>out.
                 Option.bind (cdm_append '':'' buf_size out) (\<lambda>out.
                 Option.bind (cdm_append resource buf_size out) (\<lambda>out.
                   if length out \<ge> buf_size then None
                   else let out = out @ [newline]
                        in if length out \<ge> buf_size then None else Some out))))))))"

definition cdm_set_reason :: "bool \<Rightarrow> nat \<Rightarrow> string \<Rightarrow> string option" where
  \<comment> \<open>\<open>None\<close> leaves the buffer alone; the copy stops at the terminator or at \<^verbatim>\<open>reason_size - 1\<close>\<close>
  "cdm_set_reason reason reason_size src =
    (if \<not> reason \<or> reason_size = 0 then None else Some (take (reason_size - 1) src))"

fun cdm_split_fields ::
  "string \<Rightarrow> nat \<Rightarrow> nat \<Rightarrow> nat list \<Rightarrow> nat list \<Rightarrow> (nat \<times> nat list \<times> nat list) option" where
  \<comment> \<open>the loop over the body bytes: field counter, field starts, field ends; \<open>None\<close> is a third colon\<close>
  "cdm_split_fields [] i fld starts ends = Some (fld, starts, ends)"
| "cdm_split_fields (c # cs) i fld starts ends =
    (if c = CHR '':'' then
       (if fld \<ge> 2 then None
        else cdm_split_fields cs (i + 1) (fld + 1) (starts[fld + 1 := i + 1]) (ends[fld := i]))
     else cdm_split_fields cs (i + 1) fld starts ends)"

definition cdm_field :: "string \<Rightarrow> nat \<Rightarrow> nat \<Rightarrow> string" where
  "cdm_field line a b = take (b - a) (drop a line)"

definition cdm_check_fields :: "string \<Rightarrow> nat list \<Rightarrow> nat list \<Rightarrow> string option" where
  \<comment> \<open>the three field checks: \<open>Some\<close> reason on rejection\<close>
  "cdm_check_fields line starts ends =
    (if ends ! 0 = starts ! 0 then Some ''actor_not_decimal''
     else if \<not> list_all is_digit (cdm_field line (starts ! 0) (ends ! 0)) then Some ''actor_not_decimal''
     else if \<not> list_ex (\<lambda>(_, nm). nm = cdm_field line (starts ! 1) (ends ! 1)) cdm_cap_names then Some ''cap_unknown''
     else if ends ! 2 = starts ! 2 then Some ''resource_empty''
     else if list_ex cdm_bad_byte (cdm_field line (starts ! 2) (ends ! 2)) then Some ''resource_bad_byte''
     else None)"

definition cdm_judge :: "string \<Rightarrow> string option" where
  \<comment> \<open>the body of the validator after the NULL test: \<open>Some\<close> reason on rejection\<close>
  "cdm_judge line =
    (let len = length line; plen = length ''CAP:DENY:'' in
     if len > CAP_DENY_MARKER_MAX then Some ''line_too_long''
     else if len < plen then Some ''missing_prefix''
     else if take plen line \<noteq> ''CAP:DENY:'' then Some ''missing_prefix''
     else if line ! (len - 1) \<noteq> newline then Some ''missing_newline''
     else if newline \<in> set (cdm_field line plen (len - 1)) then Some ''trailing_garbage''
     else let body_start = plen; body_end = len - 1 in
     if body_end \<le> body_start then Some ''field_count''
     else case cdm_split_fields (cdm_field line body_start body_end) body_start 0 [body_start, 0, 0] [0, 0, 0] of
       None \<Rightarrow> Some ''field_count''
     | Some (fld, starts, ends) \<Rightarrow>
        if fld \<noteq> 2 then Some ''field_count''
        else cdm_check_fields line starts (ends[2 := body_end]))"

definition cap_deny_marker_validate :: "string option \<Rightarrow> bool \<Rightarrow> nat \<Rightarrow> int \<times> string option" where
  "cap_deny_marker_validate line reason reason_size =
    (case line of
       None \<Rightarrow> (-1, cdm_set_reason reason reason_size ''null_line'')
     | Some line \<Rightarrow>
        (case cdm_judge line of
           Some why \<Rightarrow> (-1, cdm_set_reason reason reason_size why)
         | None \<Rightarrow> (0, if reason \<and> reason_size > 0 then Some [] else None)))"

section \<open>Specification\<close>

definition deny_marker :: "string \<Rightarrow> string \<Rightarrow> string \<Rightarrow> string" where
  "deny_marker actor cap resource =
     ''CAP:DENY:'' @ actor @ '':'' @ cap @ '':'' @ resource @ [newline]"

definition resource_ok :: "string \<Rightarrow> bool" where
  "resource_ok r \<longleftrightarrow> r \<noteq> [] \<and> (\<forall>c\<in>set r. \<not> cdm_bad_byte c)"

definition deny_grammar :: "string \<Rightarrow> bool" where
  "deny_grammar line \<longleftrightarrow> length line \<le> 256 \<and>
    (\<exists>actor cap resource. line = deny_marker actor cap resource \<and>
       actor \<noteq> [] \<and> (\<forall>c\<in>set actor. is_digit c) \<and> cap \<in> snd ` set cdm_cap_names \<and> resource_ok resource)"

section \<open>Lemmas: formatter\<close>

lemma cdm_append_eq:
  "length out \<le> n \<Longrightarrow> cdm_append src n out = (if length out + length src \<le> n then Some (out @ src) else None)"
  by (induction src n out rule: cdm_append.induct) auto

lemma cdm_u32_tmp_eq: "cdm_u32_tmp u = digits_rev (unat u)"
proof (induction u rule: cdm_u32_tmp.induct)
  case (1 u)
  then show ?case
    by (cases "u = 0") (simp_all add: cdm_u32_tmp.simps [of u] digits_rev_pos unat_div unat_mod word_unat_eq_iff)
qed

lemma cdm_append_u32_eq: "cdm_append_u32 u n out = cdm_append (dec_string (unat u)) n out"
  by (auto simp: cdm_append_u32_def dec_string_def cdm_u32_tmp_eq word_unat_eq_iff)

lemma cdm_resource_len_eq:
  "cdm_resource_len k r =
   (if k + length r \<le> 192 \<or> r = [] then if list_ex cdm_bad_byte r then None else Some (k + length r) else None)"
  by (induction k r rule: cdm_resource_len.induct) auto

lemma cap_deny_marker_format_eq:
  "cap_deny_marker_format actor cap_id (Some r) True n =
   (case cap_deny_marker_name cap_id of
      None \<Rightarrow> None
    | Some nm \<Rightarrow>
       if resource_ok r \<and> length r \<le> 192 \<and> length (deny_marker (dec_string (unat actor)) nm r) < n
       then Some (deny_marker (dec_string (unat actor)) nm r) else None)"
proof (cases "cap_deny_marker_name cap_id")
  case (Some nm)
  let ?pre = "''CAP:DENY:'' @ dec_string (unat actor) @ '':'' @ nm @ '':'' @ r"
  show ?thesis
  proof (cases "resource_ok r \<and> length r \<le> 192")
    case True
    then have ok: "cdm_resource_len 0 r = Some (length r)" "r \<noteq> []"
      by (auto simp: cdm_resource_len_eq resource_ok_def list_ex_iff)
    show ?thesis
      using Some True ok
      by (auto simp: cap_deny_marker_format_def cdm_append_eq cdm_append_u32_eq deny_marker_def Let_def)
  next
    case False
    then have "cdm_resource_len 0 r = None \<or> r = []"
      by (auto simp: cdm_resource_len_eq resource_ok_def list_ex_iff)
    with False Some show ?thesis
      by (auto simp: cap_deny_marker_format_def cdm_resource_len_eq)
  qed
qed (simp add: cap_deny_marker_format_def)

lemma cap_deny_marker_name_Some:
  "cap_deny_marker_name c = Some nm \<Longrightarrow> (c, nm) \<in> set cdm_cap_names"
  by (simp add: cap_deny_marker_name_def map_of_SomeD)

lemma cap_names_facts:
  "(c, nm) \<in> set cdm_cap_names \<Longrightarrow> length nm \<le> 16 \<and> CHR '':'' \<notin> set nm \<and> newline \<notin> set nm"
  by (auto simp: cdm_cap_names_def)

lemma cap_names_inject:
  "(c, nm) \<in> set cdm_cap_names \<Longrightarrow> (d, nm) \<in> set cdm_cap_names \<Longrightarrow> c = d"
  by (auto simp: cdm_cap_names_def)

section \<open>Lemmas: validator\<close>

lemma cdm_split_skip:
  "CHR '':'' \<notin> set cs \<Longrightarrow>
   cdm_split_fields (cs @ ds) i fld st en = cdm_split_fields ds (i + length cs) fld st en"
  by (induction cs arbitrary: i) auto

lemma cdm_split_three:
  assumes "CHR '':'' \<notin> set a" "CHR '':'' \<notin> set n" "CHR '':'' \<notin> set r"
  shows "cdm_split_fields (a @ CHR '':'' # n @ CHR '':'' # r) i 0 [i, 0, 0] [0, 0, 0] =
    Some (2, [i, i + length a + 1, i + length a + length n + 2], [i + length a, i + length a + 1 + length n, 0])"
  using cdm_split_skip [OF assms(3), of "[]"] by (simp add: cdm_split_skip assms numeral_2_eq_2)

lemma cdm_split_count:
  "cdm_split_fields cs i fld st en = Some (f, st', en') \<Longrightarrow> f = fld + count_list cs (CHR '':'')"
  by (induction cs i fld st en rule: cdm_split_fields.induct) (auto split: if_splits)

lemma two_colons:
  assumes "count_list cs c = 2"
  obtains a n r where "cs = a @ c # n @ c # r" "c \<notin> set a" "c \<notin> set n" "c \<notin> set r"
proof -
  have "c \<in> set cs" using assms by (metis count_list_0_iff zero_neq_numeral)
  then obtain a ds where a: "cs = a @ c # ds" "c \<notin> set a" by (meson split_list_first)
  then have ds: "count_list ds c = 1" using assms by (simp add: count_notin)
  then have "c \<in> set ds" by (metis count_list_0_iff zero_neq_one)
  then obtain n r where n: "ds = n @ c # r" "c \<notin> set n" by (meson split_list_first)
  then have "count_list r c = 0" using ds by (simp add: count_notin)
  then show thesis using that [of a n r] a n by (simp add: count_list_0_iff)
qed

lemma cdm_field_mid:
  "line = xs @ ys @ zs \<Longrightarrow> length xs = i \<Longrightarrow> i + length ys = j \<Longrightarrow> cdm_field line i j = ys"
  by (auto simp: cdm_field_def)

lemma cdm_check_fields_three:
  fixes a n r :: string
  defines "line \<equiv> ''CAP:DENY:'' @ a @ CHR '':'' # n @ CHR '':'' # r @ [newline]"
  shows "cdm_check_fields line [9, 9 + length a + 1, 9 + length a + length n + 2]
           [9 + length a, 9 + length a + 1 + length n, 9 + length a + length n + 2 + length r] = None \<longleftrightarrow>
         a \<noteq> [] \<and> (\<forall>c\<in>set a. is_digit c) \<and> n \<in> snd ` set cdm_cap_names \<and> resource_ok r"
proof -
  have "cdm_field line 9 (9 + length a) = a"
    by (rule cdm_field_mid [where xs = "''CAP:DENY:''"]) (simp_all add: line_def)
  moreover have "cdm_field line (9 + length a + 1) (9 + length a + 1 + length n) = n"
    by (rule cdm_field_mid [where xs = "''CAP:DENY:'' @ a @ '':''"]) (simp_all add: line_def)
  moreover have "cdm_field line (9 + length a + length n + 2) (9 + length a + length n + 2 + length r) = r"
    by (rule cdm_field_mid [where xs = "''CAP:DENY:'' @ a @ '':'' @ n @ '':''"]) (simp_all add: line_def)
  moreover have "list_ex (\<lambda>(_, nm). nm = n) cdm_cap_names \<longleftrightarrow> n \<in> snd ` set cdm_cap_names"
    by (force simp: list_ex_iff)
  ultimately show ?thesis
    by (simp add: cdm_check_fields_def list_all_iff resource_ok_def numeral_2_eq_2 del: One_nat_def)
      (simp add: list_ex_iff conj_commute)
qed

lemma cdm_judge_three:
  assumes "CHR '':'' \<notin> set a" "CHR '':'' \<notin> set n" "CHR '':'' \<notin> set r"
    and "newline \<notin> set a" "newline \<notin> set n" "newline \<notin> set r"
    and "length (deny_marker a n r) \<le> 256"
  shows "cdm_judge (deny_marker a n r) = None \<longleftrightarrow>
         a \<noteq> [] \<and> (\<forall>c\<in>set a. is_digit c) \<and> n \<in> snd ` set cdm_cap_names \<and> resource_ok r"
proof -
  let ?line = "deny_marker a n r"
  let ?body = "a @ CHR '':'' # n @ CHR '':'' # r"
  have line: "?line = ''CAP:DENY:'' @ ?body @ [newline]" by (simp add: deny_marker_def)
  have body: "cdm_field ?line 9 (length ?line - 1) = ?body"
    by (rule cdm_field_mid [where xs = "''CAP:DENY:''"]) (simp_all add: line)
  have last: "?line ! (length ?line - 1) = newline" by (simp add: line nth_append)
  have split: "cdm_split_fields ?body 9 0 [9, 0, 0] [0, 0, 0] =
      Some (2, [9, 9 + length a + 1, 9 + length a + length n + 2], [9 + length a, 9 + length a + 1 + length n, 0])"
    by (rule cdm_split_three [OF assms(1-3)])
  have pl: "length ''CAP:DENY:'' = 9" "take 9 ?line = ''CAP:DENY:''" "\<not> length ?line < 9"
    "\<not> length ?line - 1 \<le> 9" "length ?line - 1 = 9 + length a + length n + 2 + length r"
    by (simp_all add: line)
  have "cdm_judge ?line = cdm_check_fields ?line [9, 9 + length a + 1, 9 + length a + length n + 2]
           [9 + length a, 9 + length a + 1 + length n, 9 + length a + length n + 2 + length r]"
    unfolding cdm_judge_def Let_def pl(1) body last split
    using assms(4-7) pl by (simp add: numeral_2_eq_2)
  then show ?thesis using cdm_check_fields_three [of a n r] by (simp add: deny_marker_def)
qed

lemma digits_no_sep: "\<forall>c\<in>set a. is_digit c \<Longrightarrow> CHR '':'' \<notin> set a \<and> newline \<notin> set a"
  by (force simp: is_digit_def)

lemma resource_no_sep: "resource_ok r \<Longrightarrow> CHR '':'' \<notin> set r \<and> newline \<notin> set r"
  by (auto simp: resource_ok_def cdm_bad_byte_def)

lemma names_no_sep: "n \<in> snd ` set cdm_cap_names \<Longrightarrow> CHR '':'' \<notin> set n \<and> newline \<notin> set n"
  using cap_names_facts by force

lemma cdm_judge_shape:
  assumes "cdm_judge line = None"
  obtains a n r where "line = deny_marker a n r" "length line \<le> 256"
    "CHR '':'' \<notin> set a" "CHR '':'' \<notin> set n" "CHR '':'' \<notin> set r"
    "newline \<notin> set a" "newline \<notin> set n" "newline \<notin> set r"
proof -
  let ?body = "cdm_field line 9 (length line - 1)"
  have pl: "length ''CAP:DENY:'' = 9" by simp
  have j: "length line \<le> 256" "\<not> length line < 9" "take 9 line = ''CAP:DENY:''"
    "line ! (length line - 1) = newline" "newline \<notin> set ?body" "9 < length line - 1"
    using assms unfolding cdm_judge_def Let_def pl by (auto split: if_splits)
  obtain f st en where "cdm_split_fields ?body 9 0 [9, 0, 0] [0, 0, 0] = Some (f, st, en)" "f = 2"
    using assms unfolding cdm_judge_def Let_def pl by (auto split: if_splits option.splits)
  then have "count_list ?body (CHR '':'') = 2" using cdm_split_count by fastforce
  then obtain a n r where body: "?body = a @ CHR '':'' # n @ CHR '':'' # r"
      "CHR '':'' \<notin> set a" "CHR '':'' \<notin> set n" "CHR '':'' \<notin> set r"
    by (rule two_colons)
  have "line = take 9 line @ ?body @ [line ! (length line - 1)]"
  proof -
    have "drop 9 line = take (length line - 1 - 9) (drop 9 line) @ drop (length line - 1 - 9) (drop 9 line)"
      by (rule append_take_drop_id [symmetric])
    moreover have "drop (length line - 1 - 9) (drop 9 line) = [line ! (length line - 1)]"
      using j(6) Cons_nth_drop_Suc [of "length line - 1" line] by simp
    ultimately show ?thesis by (metis append_take_drop_id cdm_field_def)
  qed
  then have "line = deny_marker a n r" by (simp only: j(3,4) body(1)) (simp add: deny_marker_def)
  then show thesis using that [of a n r] j body by auto
qed

lemma cdm_judge_iff: "cdm_judge line = None \<longleftrightarrow> deny_grammar line"
proof
  assume acc: "cdm_judge line = None"
  then obtain a n r where s: "line = deny_marker a n r" "length line \<le> 256"
    "CHR '':'' \<notin> set a" "CHR '':'' \<notin> set n" "CHR '':'' \<notin> set r"
    "newline \<notin> set a" "newline \<notin> set n" "newline \<notin> set r"
    by (rule cdm_judge_shape)
  moreover have "length (deny_marker a n r) \<le> 256" using s(1,2) by simp
  ultimately show "deny_grammar line"
    using acc cdm_judge_three [OF s(3-8)] unfolding deny_grammar_def by blast
next
  assume "deny_grammar line"
  then obtain a n r where s: "line = deny_marker a n r" "length line \<le> 256" "a \<noteq> []"
    "\<forall>c\<in>set a. is_digit c" "n \<in> snd ` set cdm_cap_names" "resource_ok r"
    unfolding deny_grammar_def by blast
  note sep = digits_no_sep [OF s(4)] names_no_sep [OF s(5)] resource_no_sep [OF s(6)]
  have "length (deny_marker a n r) \<le> 256" using s(1,2) by simp
  then show "cdm_judge line = None"
    using cdm_judge_three [of a n r] sep s by simp
qed

section \<open>Properties\<close>

lemma cap_deny_marker_name_valid: "cap_deny_marker_name c \<noteq> None \<longleftrightarrow> cap_id_valid c"
proof
  assume "cap_deny_marker_name c \<noteq> None"
  then show "cap_id_valid c"
    by (auto simp: cap_deny_marker_name_def cdm_cap_names_def cap_id_valid_def split: if_splits)
next
  assume "cap_id_valid c"
  then have "unat c \<in> set [1..<20]" by (simp add: cap_id_valid_unat)
  moreover have "c = of_nat (unat c)" by simp
  ultimately have "c \<in> of_nat ` set [1..<20]" by (rule rev_image_eqI)
  then show "cap_deny_marker_name c \<noteq> None"
    by (auto simp: cap_deny_marker_name_def cdm_cap_names_def upt_conv_Cons)
qed

lemma deny_marker_inject:
  assumes "deny_marker a n r = deny_marker a' n' r'"
    and "CHR '':'' \<notin> set a" "CHR '':'' \<notin> set n" "CHR '':'' \<notin> set a'" "CHR '':'' \<notin> set n'"
  shows "a = a' \<and> n = n' \<and> r = r'"
  using assms by (simp add: deny_marker_def sep_cancel)

lemma cap_deny_marker_format_Some:
  assumes "cap_deny_marker_format actor c (Some r) True n = Some out"
  obtains nm where "(c, nm) \<in> set cdm_cap_names" "resource_ok r" "length r \<le> 192"
    "out = deny_marker (dec_string (unat actor)) nm r"
  using assms by (auto simp: cap_deny_marker_format_eq dest: cap_deny_marker_name_Some split: option.splits if_splits)

lemma dec_string_no_sep: "CHR '':'' \<notin> set (dec_string n)"
  using digits_no_sep is_digit_dec_string by blast




end
