(* ===== verification/Cap_Gate.thy ===== *)
theory Cap_Gate
  imports Cap_Audit Cap_Deny_Marker
begin

text \<open>
  \<^verbatim>\<open>kernel/cap/cap_gate.c\<close>: the gates in front of console, serial, debug exit, framebuffer,
  keyboard and mouse.  A gate returns its result, what it stored through its out pointer
  (\<open>None\<close> when it stored nothing), and the capability state with the audit record of its check.
\<close>

section \<open>Definitions\<close>

fun cap_message_len :: "string option \<Rightarrow> nat" where
  "cap_message_len None = 0"
| "cap_message_len (Some message) = length message"

definition cap_write_gate ::
  "cap_subject_id_t \<Rightarrow> capability_id_t \<Rightarrow> string option \<Rightarrow> bool \<Rightarrow> cap_state \<Rightarrow>
   cap_result_t \<times> nat option \<times> cap_state" where
  "cap_write_gate subject_id required_capability message bytes_written st =
    (let (check_result, st) = cap_check subject_id required_capability st
     in if check_result \<noteq> CAP_OK then (check_result, None, st)
        else (CAP_OK, if bytes_written then Some (cap_message_len message) else None, st))"

definition cap_console_write_gate ::
  "cap_subject_id_t \<Rightarrow> string option \<Rightarrow> bool \<Rightarrow> cap_state \<Rightarrow> cap_result_t \<times> nat option \<times> cap_state" where
  "cap_console_write_gate subject_id = cap_write_gate subject_id CAP_CONSOLE_WRITE"

definition cap_serial_write_gate ::
  "cap_subject_id_t \<Rightarrow> string option \<Rightarrow> bool \<Rightarrow> cap_state \<Rightarrow> cap_result_t \<times> nat option \<times> cap_state" where
  "cap_serial_write_gate subject_id = cap_write_gate subject_id CAP_SERIAL_WRITE"

definition cap_debug_exit_gate :: "cap_subject_id_t \<Rightarrow> int \<Rightarrow> cap_state \<Rightarrow> cap_result_t \<times> cap_state" where
  "cap_debug_exit_gate subject_id exit_code st = cap_check subject_id CAP_DEBUG_EXIT st"

definition cap_device_gate ::
  "cap_subject_id_t \<Rightarrow> capability_id_t \<Rightarrow> bool \<Rightarrow> nat \<Rightarrow> cap_state \<Rightarrow>
   cap_result_t \<times> string option \<times> cap_state" where
  "cap_device_gate subject_id cap_id deny_marker_buf deny_marker_size st =
    (let (check_result, st) = cap_check subject_id cap_id st
     in if check_result = CAP_OK then (CAP_OK, None, st)
        else if deny_marker_buf \<and> deny_marker_size > 0 then
          (case cap_deny_marker_format subject_id cap_id (Some ''-'') deny_marker_buf deny_marker_size of
             None \<Rightarrow> (check_result, Some '''', st)
           | Some line \<Rightarrow> (check_result, Some line, st))
        else (check_result, None, st))"

definition cap_gfx_framebuffer_gate ::
  "cap_subject_id_t \<Rightarrow> bool \<Rightarrow> nat \<Rightarrow> cap_state \<Rightarrow> cap_result_t \<times> string option \<times> cap_state" where
  "cap_gfx_framebuffer_gate subject_id = cap_device_gate subject_id CAP_GFX_FRAMEBUFFER"

definition cap_input_keyboard_gate ::
  "cap_subject_id_t \<Rightarrow> bool \<Rightarrow> nat \<Rightarrow> cap_state \<Rightarrow> cap_result_t \<times> string option \<times> cap_state" where
  "cap_input_keyboard_gate subject_id = cap_device_gate subject_id CAP_INPUT_KEYBOARD"

definition cap_input_mouse_gate ::
  "cap_subject_id_t \<Rightarrow> bool \<Rightarrow> nat \<Rightarrow> cap_state \<Rightarrow> cap_result_t \<times> string option \<times> cap_state" where
  "cap_input_mouse_gate subject_id = cap_device_gate subject_id CAP_INPUT_MOUSE"

section \<open>Lemmas\<close>

lemma cap_check_eq:
  "cap_check s c st = (cap_table_check s c (cap_tab st),
     st\<lparr> cap_log := audit_push (CAP_AUDIT_OP_CHECK, s, s, c, cap_table_check s c (cap_tab st)) (cap_log st) \<rparr>)"
  by (simp add: cap_check_def audit_push.simps Let_def)

lemma cap_write_gate_eq:
  "cap_write_gate s c msg b st =
   (cap_table_check s c (cap_tab st),
    if cap_holds st s c \<and> b then Some (cap_message_len msg) else None, snd (cap_check s c st))"
  by (simp add: cap_write_gate_def cap_check_eq Let_def)

lemma resource_dash: "resource_ok ''-''"
  by (simp add: resource_ok_def cdm_bad_byte_def cdm_is_printable_ascii_def)

lemma cap_device_gate_eq:
  assumes "cap_deny_marker_name c = Some nm"
  shows "cap_device_gate s c buf n st =
    (cap_table_check s c (cap_tab st),
     if cap_holds st s c \<or> \<not> buf \<or> n = 0 then None
     else if length (deny_marker (dec_string (unat s)) nm ''-'') < n
       then Some (deny_marker (dec_string (unat s)) nm ''-'') else Some '''',
     snd (cap_check s c st))"
  using assms resource_dash
  by (cases buf) (simp_all add: cap_device_gate_def cap_check_eq Let_def cap_deny_marker_format_eq)

section \<open>Properties\<close>



end
