(* ===== verification/Cap_Handle.thy ===== *)
theory Cap_Handle
  imports Cap_Table
begin

text \<open>
  \<^verbatim>\<open>kernel/cap/cap_handle.c\<close>: the global table of 64 capability rows, the 32-bit handles that
  name a row together with the low 14 bits of its generation, and the three ways of revoking
  (one handle, one subject, one subtree of the parent relation).

  The static array is a list of 64 rows; a pointer into it is its index.  Operations take the table
  and return it updated.  The on-stack bitmap of the subtree sweep is kept as the code has it, one
  64-bit word.
\<close>

section \<open>Rows and handles\<close>

type_synonym cap_handle_t = u32

record cap_handle_row =
  row_abi_version :: u16
  row_flags :: u16
  row_cap_id :: capability_id_t
  row_owner_subject :: cap_subject_id_t
  row_granter_subject :: cap_subject_id_t
  row_parent_handle :: u32
  row_generation :: u32

type_synonym cap_handle_table = "cap_handle_row list"

abbreviation "CAP_HANDLE_TABLE_MAX \<equiv> (64 :: nat)"
abbreviation "CAP_HANDLE_NULL \<equiv> (0 :: cap_handle_t)"
abbreviation "CAP_HANDLE_SLOT_MASK \<equiv> (mask 16 :: cap_handle_t)"
abbreviation "CAP_HANDLE_GEN_MASK \<equiv> (mask 14 :: cap_handle_t)"
abbreviation "CAP_HANDLE_TAG_MASK \<equiv> (mask 2 :: cap_handle_t)"
abbreviation "CAP_HANDLE_TAG_KERNEL \<equiv> (1 :: cap_handle_t)"
abbreviation "CAP_HANDLE_FLAG_LIVE \<equiv> (1 :: u16)"
abbreviation "CAP_HANDLE_FLAG_REVOKED \<equiv> (2 :: u16)"
abbreviation "CAP_HANDLE_ABI_VERSION_V0 \<equiv> (0 :: u16)"

definition cap_handle_subject_valid :: "cap_subject_id_t \<Rightarrow> bool" where
  "cap_handle_subject_valid subject_id \<longleftrightarrow> subject_id < CAP_TABLE_MAX_SUBJECTS"

definition cap_handle_cap_id_valid :: "capability_id_t \<Rightarrow> bool" where
  "cap_handle_cap_id_valid cap_id \<longleftrightarrow> CAP_CONSOLE_WRITE \<le> cap_id \<and> cap_id \<le> CAP_IPC_RECV"

definition row_live :: "cap_handle_row \<Rightarrow> bool" where
  "row_live row \<longleftrightarrow> row_flags row AND CAP_HANDLE_FLAG_LIVE \<noteq> 0"

definition cap_handle_find_live :: "cap_subject_id_t \<Rightarrow> capability_id_t \<Rightarrow> cap_handle_table \<Rightarrow> nat option" where
  "cap_handle_find_live owner_subject cap_id g_rows =
     find_idx (\<lambda>row. row_live row \<and> row_owner_subject row = owner_subject \<and> row_cap_id row = cap_id) g_rows"

definition cap_handle_find_free_slot :: "cap_handle_table \<Rightarrow> nat option" where
  "cap_handle_find_free_slot g_rows =
    (case find_idx (\<lambda>row. row_flags row AND CAP_HANDLE_FLAG_LIVE = 0 \<and>
                          row_flags row AND CAP_HANDLE_FLAG_REVOKED = 0) g_rows of
       Some i \<Rightarrow> Some i
     | None \<Rightarrow> find_idx (\<lambda>row. row_flags row AND CAP_HANDLE_FLAG_LIVE = 0) g_rows)"

definition cap_handle_table_reset :: "cap_handle_table \<Rightarrow> cap_handle_table" where
  "cap_handle_table_reset g_rows =
     replicate CAP_HANDLE_TABLE_MAX
       \<lparr> row_abi_version = 0, row_flags = 0, row_cap_id = 0, row_owner_subject = 0,
         row_granter_subject = 0, row_parent_handle = 0, row_generation = 0 \<rparr>"

definition cap_handle_table_init :: "cap_handle_table \<Rightarrow> cap_handle_table" where
  "cap_handle_table_init g_rows = cap_handle_table_reset g_rows"

section \<open>Operations by subject and capability\<close>

definition cap_handle_table_grant ::
  "cap_subject_id_t \<Rightarrow> cap_subject_id_t \<Rightarrow> capability_id_t \<Rightarrow> cap_handle_table \<Rightarrow> cap_result_t \<times> cap_handle_table" where
  "cap_handle_table_grant owner_subject granter_subject cap_id g_rows =
    (if \<not> cap_handle_subject_valid owner_subject \<or> \<not> cap_handle_subject_valid granter_subject
     then (CAP_ERR_SUBJECT_INVALID, g_rows)
     else if \<not> cap_handle_cap_id_valid cap_id then (CAP_ERR_CAP_INVALID, g_rows)
     else case cap_handle_find_live owner_subject cap_id g_rows of
       Some _ \<Rightarrow> (CAP_OK, g_rows)
     | None \<Rightarrow>
        (case cap_handle_find_free_slot g_rows of
           None \<Rightarrow> (CAP_ERR_CAP_INVALID, g_rows)
         | Some i \<Rightarrow>
            (CAP_OK, g_rows[i := (g_rows ! i)\<lparr> row_abi_version := CAP_HANDLE_ABI_VERSION_V0,
               row_cap_id := cap_id, row_owner_subject := owner_subject,
               row_granter_subject := granter_subject, row_parent_handle := 0,
               row_generation := row_generation (g_rows ! i) + 1,
               row_flags := CAP_HANDLE_FLAG_LIVE \<rparr>])))"

definition row_revoke :: "cap_handle_row \<Rightarrow> cap_handle_row" where
  \<comment> \<open>\<^verbatim>\<open>row->flags = CAP_HANDLE_FLAG_REVOKED; row->generation += 1u;\<close>\<close>
  "row_revoke row = row\<lparr> row_flags := CAP_HANDLE_FLAG_REVOKED, row_generation := row_generation row + 1 \<rparr>"

definition cap_handle_table_revoke ::
  "cap_subject_id_t \<Rightarrow> capability_id_t \<Rightarrow> cap_handle_table \<Rightarrow> cap_result_t \<times> cap_handle_table" where
  "cap_handle_table_revoke owner_subject cap_id g_rows =
    (if \<not> cap_handle_subject_valid owner_subject then (CAP_ERR_SUBJECT_INVALID, g_rows)
     else if \<not> cap_handle_cap_id_valid cap_id then (CAP_ERR_CAP_INVALID, g_rows)
     else case cap_handle_find_live owner_subject cap_id g_rows of
       None \<Rightarrow> (CAP_ERR_MISSING, g_rows)
     | Some i \<Rightarrow> (CAP_OK, g_rows[i := row_revoke (g_rows ! i)]))"

definition cap_handle_table_check :: "cap_subject_id_t \<Rightarrow> capability_id_t \<Rightarrow> cap_handle_table \<Rightarrow> cap_result_t" where
  "cap_handle_table_check owner_subject cap_id g_rows =
    (if \<not> cap_handle_subject_valid owner_subject then CAP_ERR_SUBJECT_INVALID
     else if \<not> cap_handle_cap_id_valid cap_id then CAP_ERR_CAP_INVALID
     else if cap_handle_find_live owner_subject cap_id g_rows \<noteq> None then CAP_OK else CAP_ERR_MISSING)"

definition cap_handle_table_live_count :: "cap_handle_table \<Rightarrow> nat" where
  "cap_handle_table_live_count g_rows = fold (\<lambda>row live. if row_live row then live + 1 else live) g_rows 0"

section \<open>Packed handles\<close>

definition cap_handle_pack :: "u16 \<Rightarrow> u16 \<Rightarrow> u8 \<Rightarrow> cap_handle_t" where
  "cap_handle_pack slot generation_low14 tag =
    (let h = 0;
         h = h OR push_bit 0 (ucast slot AND CAP_HANDLE_SLOT_MASK);
         h = h OR push_bit 16 (ucast generation_low14 AND CAP_HANDLE_GEN_MASK);
         h = h OR push_bit 30 (ucast tag AND CAP_HANDLE_TAG_MASK)
     in h)"

definition cap_handle_slot :: "cap_handle_t \<Rightarrow> u16" where
  "cap_handle_slot handle = ucast (drop_bit 0 handle AND CAP_HANDLE_SLOT_MASK)"

definition cap_handle_generation :: "cap_handle_t \<Rightarrow> u16" where
  "cap_handle_generation handle = ucast (drop_bit 16 handle AND CAP_HANDLE_GEN_MASK)"

definition cap_handle_tag :: "cap_handle_t \<Rightarrow> u8" where
  "cap_handle_tag handle = ucast (drop_bit 30 handle AND CAP_HANDLE_TAG_MASK)"

definition cap_handle_from_row :: "nat \<Rightarrow> cap_handle_table \<Rightarrow> cap_handle_t" where
  "cap_handle_from_row i g_rows =
     cap_handle_pack (of_nat i) (ucast (row_generation (g_rows ! i) AND CAP_HANDLE_GEN_MASK))
       (ucast CAP_HANDLE_TAG_KERNEL)"

definition cap_handle_grant_child ::
  "cap_subject_id_t \<Rightarrow> capability_id_t \<Rightarrow> cap_handle_t \<Rightarrow> cap_handle_table \<Rightarrow> cap_handle_t \<times> cap_handle_table" where
  "cap_handle_grant_child owner_subject cap_id parent_handle g_rows =
    (if \<not> cap_handle_subject_valid owner_subject \<or> \<not> cap_handle_cap_id_valid cap_id
     then (CAP_HANDLE_NULL, g_rows)
     else case cap_handle_find_live owner_subject cap_id g_rows of
       Some i \<Rightarrow> (cap_handle_from_row i g_rows, g_rows)
     | None \<Rightarrow>
        (case cap_handle_find_free_slot g_rows of
           None \<Rightarrow> (CAP_HANDLE_NULL, g_rows)
         | Some i \<Rightarrow>
            let g_rows = g_rows[i := (g_rows ! i)\<lparr> row_abi_version := CAP_HANDLE_ABI_VERSION_V0,
               row_cap_id := cap_id, row_owner_subject := owner_subject,
               row_granter_subject := owner_subject, row_parent_handle := parent_handle,
               row_generation := row_generation (g_rows ! i) + 1,
               row_flags := CAP_HANDLE_FLAG_LIVE \<rparr>]
            in (cap_handle_from_row i g_rows, g_rows)))"

definition cap_handle_grant ::
  "cap_subject_id_t \<Rightarrow> capability_id_t \<Rightarrow> cap_handle_table \<Rightarrow> cap_handle_t \<times> cap_handle_table" where
  "cap_handle_grant owner_subject cap_id g_rows =
     cap_handle_grant_child owner_subject cap_id CAP_HANDLE_NULL g_rows"

definition cap_gate_check_handle_result :: "cap_handle_t \<Rightarrow> capability_id_t \<Rightarrow> cap_handle_table \<Rightarrow> cap_result_t" where
  "cap_gate_check_handle_result handle expected_cap g_rows =
    (if ucast (cap_handle_tag handle) \<noteq> CAP_HANDLE_TAG_KERNEL then CAP_ERR_CAP_INVALID
     else if \<not> cap_handle_cap_id_valid expected_cap then CAP_ERR_CAP_INVALID
     else let slot = unat (cap_handle_slot handle) in
     if slot \<ge> CAP_HANDLE_TABLE_MAX then CAP_ERR_CAP_INVALID
     else let row = g_rows ! slot in
     if row_flags row AND CAP_HANDLE_FLAG_LIVE = 0 then CAP_ERR_MISSING
     else if row_generation row AND CAP_HANDLE_GEN_MASK \<noteq> ucast (cap_handle_generation handle) then CAP_ERR_MISSING
     else if row_cap_id row \<noteq> expected_cap then CAP_ERR_CAP_INVALID
     else CAP_OK)"

definition cap_gate_check_handle :: "cap_handle_t \<Rightarrow> capability_id_t \<Rightarrow> cap_handle_table \<Rightarrow> bool" where
  "cap_gate_check_handle handle expected_cap g_rows \<longleftrightarrow>
     cap_gate_check_handle_result handle expected_cap g_rows = CAP_OK"

definition cap_handle_revoke :: "cap_handle_t \<Rightarrow> cap_handle_table \<Rightarrow> cap_result_t \<times> cap_handle_table" where
  "cap_handle_revoke handle g_rows =
    (if ucast (cap_handle_tag handle) \<noteq> CAP_HANDLE_TAG_KERNEL then (CAP_ERR_CAP_INVALID, g_rows)
     else let slot = unat (cap_handle_slot handle) in
     if slot \<ge> CAP_HANDLE_TABLE_MAX then (CAP_ERR_CAP_INVALID, g_rows)
     else let row = g_rows ! slot in
     if row_flags row AND CAP_HANDLE_FLAG_LIVE = 0 then (CAP_ERR_MISSING, g_rows)
     else if row_generation row AND CAP_HANDLE_GEN_MASK \<noteq> ucast (cap_handle_generation handle)
     then (CAP_ERR_MISSING, g_rows)
     else (CAP_OK, g_rows[slot := row_revoke row]))"

definition cap_handle_revoke_subject :: "cap_subject_id_t \<Rightarrow> cap_handle_table \<Rightarrow> nat \<times> cap_handle_table" where
  "cap_handle_revoke_subject owner_subject g_rows =
    (if \<not> cap_handle_subject_valid owner_subject then (0, g_rows)
     else fold (\<lambda>i (revoked, g_rows).
            if row_flags (g_rows ! i) AND CAP_HANDLE_FLAG_LIVE = 0 then (revoked, g_rows)
            else if row_owner_subject (g_rows ! i) \<noteq> owner_subject then (revoked, g_rows)
            else (revoked + 1, g_rows[i := row_revoke (g_rows ! i)]))
          [0..<CAP_HANDLE_TABLE_MAX] (0, g_rows))"

section \<open>Subtree revocation\<close>

definition cap_handle_visited_get :: "u64 list \<Rightarrow> nat \<Rightarrow> bool" where
  "cap_handle_visited_get visited slot \<longleftrightarrow> drop_bit (slot mod 64) (visited ! (slot div 64)) AND 1 \<noteq> 0"

definition cap_handle_visited_set :: "nat \<Rightarrow> u64 list \<Rightarrow> u64 list" where
  "cap_handle_visited_set slot visited =
     visited[slot div 64 := (visited ! (slot div 64)) OR push_bit (slot mod 64) 1]"

definition cap_handle_sweep_row :: "cap_handle_table \<Rightarrow> nat \<Rightarrow> bool \<times> u64 list \<Rightarrow> bool \<times> u64 list" where
  \<comment> \<open>the body of the inner loop, for row \<open>i\<close>\<close>
  "cap_handle_sweep_row g_rows i av =
    (let (added, visited) = av in
     if cap_handle_visited_get visited i then (added, visited)
     else let parent = row_parent_handle (g_rows ! i) in
     if parent = CAP_HANDLE_NULL then (added, visited)
     else let parent_slot = unat (cap_handle_slot parent) in
     if parent_slot \<ge> CAP_HANDLE_TABLE_MAX then (added, visited)
     else if cap_handle_visited_get visited parent_slot then (True, cap_handle_visited_set i visited)
     else (added, visited))"

fun cap_handle_sweep :: "nat \<Rightarrow> cap_handle_table \<Rightarrow> u64 list \<Rightarrow> u64 list" where
  \<comment> \<open>the outer loop with the number of passes left; it stops early when a pass adds nothing\<close>
  "cap_handle_sweep 0 g_rows visited = visited"
| "cap_handle_sweep (Suc pass) g_rows visited =
    (let (added, visited) = fold (cap_handle_sweep_row g_rows) [0..<CAP_HANDLE_TABLE_MAX] (False, visited)
     in if \<not> added then visited else cap_handle_sweep pass g_rows visited)"

definition cap_handle_revoke_subtree :: "cap_handle_t \<Rightarrow> cap_handle_table \<Rightarrow> cap_result_t \<times> cap_handle_table" where
  "cap_handle_revoke_subtree root_handle g_rows =
    (if root_handle = CAP_HANDLE_NULL then (CAP_ERR_CAP_INVALID, g_rows)
     else if ucast (cap_handle_tag root_handle) \<noteq> CAP_HANDLE_TAG_KERNEL then (CAP_ERR_CAP_INVALID, g_rows)
     else let root_slot = unat (cap_handle_slot root_handle) in
     if root_slot \<ge> CAP_HANDLE_TABLE_MAX then (CAP_ERR_CAP_INVALID, g_rows)
     else let root_row = g_rows ! root_slot in
     if row_flags root_row AND CAP_HANDLE_FLAG_LIVE = 0 then (CAP_ERR_MISSING, g_rows)
     else if row_generation root_row AND CAP_HANDLE_GEN_MASK \<noteq> ucast (cap_handle_generation root_handle)
     then (CAP_ERR_MISSING, g_rows)
     else let visited = cap_handle_visited_set root_slot [0];
              visited = cap_handle_sweep CAP_HANDLE_TABLE_MAX g_rows visited
          in (CAP_OK, fold (\<lambda>i g_rows.
                if \<not> cap_handle_visited_get visited i then g_rows
                else if row_flags (g_rows ! i) AND CAP_HANDLE_FLAG_LIVE = 0 then g_rows
                else g_rows[i := row_revoke (g_rows ! i)]) [0..<CAP_HANDLE_TABLE_MAX] g_rows))"

definition cap_handle_owner :: "cap_handle_t \<Rightarrow> cap_handle_table \<Rightarrow> cap_subject_id_t" where
  "cap_handle_owner handle g_rows =
    (if ucast (cap_handle_tag handle) \<noteq> CAP_HANDLE_TAG_KERNEL then 0
     else let slot = unat (cap_handle_slot handle) in
     if slot \<ge> CAP_HANDLE_TABLE_MAX then 0
     else let row = g_rows ! slot in
     if row_flags row AND CAP_HANDLE_FLAG_LIVE = 0 then 0
     else if row_generation row AND CAP_HANDLE_GEN_MASK \<noteq> ucast (cap_handle_generation handle) then 0
     else row_owner_subject row)"

section \<open>Specification vocabulary\<close>

definition handle_row :: "cap_handle_t \<Rightarrow> cap_handle_table \<Rightarrow> nat option" where
  \<comment> \<open>the row a handle resolves to: kernel tag, slot in range, live, generation current\<close>
  "handle_row h t =
    (if ucast (cap_handle_tag h) = CAP_HANDLE_TAG_KERNEL \<and> unat (cap_handle_slot h) < 64 \<and>
        row_live (t ! unat (cap_handle_slot h)) \<and>
        row_generation (t ! unat (cap_handle_slot h)) AND CAP_HANDLE_GEN_MASK = ucast (cap_handle_generation h)
     then Some (unat (cap_handle_slot h)) else None)"

definition cap_handle_wf :: "cap_handle_table \<Rightarrow> bool" where
  "cap_handle_wf t \<longleftrightarrow> length t = 64 \<and>
     (\<forall>i<64. row_live (t ! i) \<longrightarrow>
        cap_handle_subject_valid (row_owner_subject (t ! i)) \<and> cap_handle_cap_id_valid (row_cap_id (t ! i)) \<and>
        (\<forall>j<64. row_live (t ! j) \<and> row_owner_subject (t ! j) = row_owner_subject (t ! i) \<and>
           row_cap_id (t ! j) = row_cap_id (t ! i) \<longrightarrow> j = i))"

definition handle_edge :: "cap_handle_table \<Rightarrow> (nat \<times> nat) set" where
  \<comment> \<open>row \<open>i\<close> records a parent handle whose slot field is \<open>p\<close>\<close>
  "handle_edge t = {(p, i). i < 64 \<and> row_parent_handle (t ! i) \<noteq> 0 \<and> p < 64 \<and>
     unat (cap_handle_slot (row_parent_handle (t ! i))) = p}"

section \<open>Lemmas: packing\<close>

lemma cap_handle_slot_pack [simp]: "cap_handle_slot (cap_handle_pack s g t) = s"
  by (rule bit_word_eqI) (auto simp: cap_handle_slot_def cap_handle_pack_def Let_def bit_simps)

lemma cap_handle_generation_pack [simp]: "cap_handle_generation (cap_handle_pack s g t) = take_bit 14 g"
  by (rule bit_word_eqI) (auto simp: cap_handle_generation_def cap_handle_pack_def Let_def bit_simps)

lemma cap_handle_tag_pack [simp]: "cap_handle_tag (cap_handle_pack s g t) = take_bit 2 t"
  by (rule bit_word_eqI) (auto simp: cap_handle_tag_def cap_handle_pack_def Let_def bit_simps)

lemma cap_handle_pack_unpack:
  "cap_handle_pack (cap_handle_slot h) (cap_handle_generation h) (cap_handle_tag h) = h"
proof (rule bit_word_eqI)
  fix n assume "n < LENGTH(32)"
  then show "bit (cap_handle_pack (cap_handle_slot h) (cap_handle_generation h) (cap_handle_tag h)) n = bit h n"
    by (cases "n < 16"; cases "n < 30")
      (auto simp: cap_handle_slot_def cap_handle_generation_def cap_handle_tag_def cap_handle_pack_def
        Let_def bit_simps)
qed

lemma ucast_generation_eq:
  "ucast (take_bit 14 (ucast (w AND mask 14) :: u16)) = (w AND mask 14 :: u32)"
  by (rule bit_word_eqI) (auto simp: bit_simps)

lemma handle_row_from_row:
  assumes "i < 64" "row_live (t ! i)"
  shows "handle_row (cap_handle_from_row i t) t = Some i"
proof -
  have "unat (of_nat i :: u16) = i" using assms(1) by (simp add: unat_of_nat)
  then show ?thesis
    using assms by (simp add: handle_row_def cap_handle_from_row_def ucast_generation_eq)
qed

lemma handle_row_SomeD:
  "handle_row h t = Some i \<Longrightarrow> i < 64 \<and> row_live (t ! i) \<and> unat (cap_handle_slot h) = i"
  by (auto simp: handle_row_def split: if_splits)

section \<open>Lemmas: operations through the resolved row\<close>

lemma row_live_revoke [simp]: "\<not> row_live (row_revoke r)"
  by (simp add: row_live_def row_revoke_def)

lemma row_revoke_fields [simp]:
  "row_generation (row_revoke r) = row_generation r + 1"
  "row_owner_subject (row_revoke r) = row_owner_subject r"
  "row_cap_id (row_revoke r) = row_cap_id r"
  "row_parent_handle (row_revoke r) = row_parent_handle r"
  by (simp_all add: row_revoke_def)

lemma row_flags_live [simp]: "row_flags r AND 1 = 0 \<longleftrightarrow> \<not> row_live r"
  by (simp add: row_live_def)

lemma cap_gate_check_handle_iff:
  "cap_gate_check_handle_result h c t = CAP_OK \<longleftrightarrow>
   cap_handle_cap_id_valid c \<and> (\<exists>i. handle_row h t = Some i \<and> row_cap_id (t ! i) = c)"
  by (auto simp: cap_gate_check_handle_result_def handle_row_def Let_def)

lemma cap_handle_owner_eq:
  "cap_handle_owner h t = (case handle_row h t of None \<Rightarrow> 0 | Some i \<Rightarrow> row_owner_subject (t ! i))"
  by (auto simp: cap_handle_owner_def handle_row_def Let_def)

lemma cap_handle_revoke_eq:
  "snd (cap_handle_revoke h t) = (case handle_row h t of None \<Rightarrow> t | Some i \<Rightarrow> t[i := row_revoke (t ! i)])"
  "fst (cap_handle_revoke h t) = CAP_OK \<longleftrightarrow> handle_row h t \<noteq> None"
  by (auto simp: cap_handle_revoke_def handle_row_def Let_def)

lemma cap_handle_find_live_Some:
  "cap_handle_find_live s c t = Some i \<Longrightarrow>
   i < length t \<and> row_live (t ! i) \<and> row_owner_subject (t ! i) = s \<and> row_cap_id (t ! i) = c"
  by (auto simp: cap_handle_find_live_def find_idx_Some_iff)

lemma cap_handle_find_live_None:
  "cap_handle_find_live s c t = None \<longleftrightarrow>
   (\<forall>i<length t. \<not> (row_live (t ! i) \<and> row_owner_subject (t ! i) = s \<and> row_cap_id (t ! i) = c))"
  by (auto simp: cap_handle_find_live_def find_idx_None_iff)

lemma cap_handle_find_free_slot_Some:
  "cap_handle_find_free_slot t = Some i \<Longrightarrow> i < length t \<and> \<not> row_live (t ! i)"
  by (auto simp: cap_handle_find_free_slot_def find_idx_Some_iff split: option.splits)

lemma cap_handle_find_free_slot_None:
  "cap_handle_find_free_slot t = None \<longleftrightarrow> (\<forall>i<length t. row_live (t ! i))"
  by (auto simp: cap_handle_find_free_slot_def find_idx_None_iff split: option.splits)
    (auto simp: find_idx_Some_iff)

section \<open>Lemmas: the revocation loops\<close>

lemma cap_handle_revoke_subject_eq:
  assumes "length t = 64" "cap_handle_subject_valid s"
  shows "cap_handle_revoke_subject s t =
     (card {i. i < 64 \<and> row_live (t ! i) \<and> row_owner_subject (t ! i) = s},
      map (\<lambda>i. if row_live (t ! i) \<and> row_owner_subject (t ! i) = s then row_revoke (t ! i) else t ! i) [0..<64])"
proof -
  have "(\<lambda>i (revoked, t :: cap_handle_table).
            if row_flags (t ! i) AND CAP_HANDLE_FLAG_LIVE = 0 then (revoked, t)
            else if row_owner_subject (t ! i) \<noteq> s then (revoked, t)
            else (revoked + 1, t[i := row_revoke (t ! i)])) =
        (\<lambda>i (n, t). if row_live (t ! i) \<and> row_owner_subject (t ! i) = s
            then (n + 1 :: nat, t[i := row_revoke (t ! i)]) else (n, t))"
    by (auto simp: fun_eq_iff)
  with assms fold_count_update [of 64 t "\<lambda>r. row_live r \<and> row_owner_subject r = s" row_revoke]
  show ?thesis
    by (simp add: cap_handle_revoke_subject_def del: row_flags_live upt_Suc cong: map_cong)
qed

section \<open>Lemmas: the subtree sweep\<close>

declare cap_handle_sweep.simps [simp del]

definition visited_set :: "u64 list \<Rightarrow> nat set" where
  "visited_set v = {i. i < 64 \<and> cap_handle_visited_get v i}"

lemma visited_get_bit: "i < 64 \<Longrightarrow> cap_handle_visited_get v i \<longleftrightarrow> bit (v ! 0) i"
  by (simp add: cap_handle_visited_get_def bit_iff_odd_drop_bit and_one_eq odd_iff_mod_2_eq_one)

lemma length_visited_set_upd [simp]: "length (cap_handle_visited_set i v) = length v"
  by (simp add: cap_handle_visited_set_def)

lemma visited_set_upd:
  "length v = 1 \<Longrightarrow> i < 64 \<Longrightarrow> visited_set (cap_handle_visited_set i v) = insert i (visited_set v)"
  by (auto simp: visited_set_def visited_get_bit cap_handle_visited_set_def bit_simps)

lemma visited_set_init: "i < 64 \<Longrightarrow> visited_set (cap_handle_visited_set i [0]) = {i}"
proof -
  assume "i < 64"
  moreover have "visited_set [0] = {}" by (auto simp: visited_set_def visited_get_bit)
  ultimately show ?thesis using visited_set_upd [of "[0]" i] by simp
qed

lemma visited_set_finite [simp]: "finite (visited_set v)"
  by (simp add: visited_set_def)

lemma card_visited_set: "card (visited_set v) \<le> 64"
  using card_mono [of "{..<64}" "visited_set v"] by (force simp: visited_set_def)

lemma cap_handle_sweep_row_eq:
  assumes "i < 64"
  shows "cap_handle_sweep_row t i (a, v) =
    (if i \<notin> visited_set v \<and> i \<in> handle_edge t `` visited_set v then (True, cap_handle_visited_set i v) else (a, v))"
  using assms by (auto simp: cap_handle_sweep_row_def Let_def visited_set_def handle_edge_def)

lemma sweep_added: "fst (fold (cap_handle_sweep_row t) is (True, v))"
proof (induction "is" arbitrary: v)
  case (Cons i "is")
  have "fst (cap_handle_sweep_row t i (True, v))" by (simp add: cap_handle_sweep_row_def Let_def)
  then have "cap_handle_sweep_row t i (True, v) = (True, snd (cap_handle_sweep_row t i (True, v)))"
    by (simp add: prod_eq_iff)
  then show ?case using Cons.IH by (metis fold_simps(2))
qed simp

lemma cap_handle_sweep_pass:
  assumes "length v = 1" "set is \<subseteq> {..<64}" "fold (cap_handle_sweep_row t) is (a, v) = (a', v')"
  shows "length v' = 1 \<and> visited_set v \<subseteq> visited_set v' \<and>
         visited_set v' \<subseteq> (handle_edge t)\<^sup>* `` visited_set v \<and>
         (\<not> a' \<longrightarrow> v' = v \<and> handle_edge t `` visited_set v \<inter> set is \<subseteq> visited_set v) \<and>
         (a' \<and> \<not> a \<longrightarrow> visited_set v \<noteq> visited_set v')"
  using assms
proof (induction "is" arbitrary: a v)
  case Nil
  then show ?case by auto
next
  case (Cons i "is")
  then have i: "i < 64" by simp
  show ?case
  proof (cases "i \<notin> visited_set v \<and> i \<in> handle_edge t `` visited_set v")
    case True
    let ?v = "cap_handle_visited_set i v"
    have vs: "visited_set ?v = insert i (visited_set v)" using Cons.prems(1) i by (simp add: visited_set_upd)
    have run: "fold (cap_handle_sweep_row t) is (True, ?v) = (a', v')"
      using Cons.prems(3) True i by (simp add: cap_handle_sweep_row_eq)
    have ih: "length v' = 1 \<and> visited_set ?v \<subseteq> visited_set v' \<and>
        visited_set v' \<subseteq> (handle_edge t)\<^sup>* `` visited_set ?v \<and> (\<not> a' \<longrightarrow> v' = ?v)"
      using Cons.IH [OF _ _ run] Cons.prems(1,2) by simp
    have "a'" using run sweep_added [of t "is" ?v] by simp
    have "(handle_edge t)\<^sup>* `` visited_set ?v \<subseteq> (handle_edge t)\<^sup>* `` visited_set v"
      using True by (auto simp: vs intro: converse_rtrancl_into_rtrancl)
    then show ?thesis using ih vs True \<open>a'\<close> by auto
  next
    case False
    then have run: "fold (cap_handle_sweep_row t) is (a, v) = (a', v')"
      using Cons.prems(3) unfolding fold_simps cap_handle_sweep_row_eq [OF i] by (simp only: if_False)
    show ?thesis using Cons.IH [OF _ _ run] Cons.prems(1,2) False by auto
  qed
qed

lemma cap_handle_sweep_closed:
  "length v = 1 \<Longrightarrow> 64 < card (visited_set v) + k \<Longrightarrow>
   visited_set v \<subseteq> visited_set (cap_handle_sweep k t v) \<and>
   visited_set (cap_handle_sweep k t v) \<subseteq> (handle_edge t)\<^sup>* `` visited_set v \<and>
   handle_edge t `` visited_set (cap_handle_sweep k t v) \<subseteq> visited_set (cap_handle_sweep k t v)"
proof (induction k arbitrary: v)
  case 0
  then show ?case using card_visited_set [of v] by simp
next
  case (Suc k)
  obtain a' v' where run: "fold (cap_handle_sweep_row t) [0..<64] (False, v) = (a', v')" by fastforce
  have p: "length v' = 1" "visited_set v \<subseteq> visited_set v'"
      "visited_set v' \<subseteq> (handle_edge t)\<^sup>* `` visited_set v"
      "\<not> a' \<Longrightarrow> v' = v \<and> handle_edge t `` visited_set v \<inter> set [0..<64] \<subseteq> visited_set v"
      "a' \<Longrightarrow> visited_set v \<noteq> visited_set v'"
  proof -
    have "set [0..<64] \<subseteq> {..<64 :: nat}" by auto
    note pass = cap_handle_sweep_pass [OF Suc.prems(1) this run]
    show "length v' = 1" "visited_set v \<subseteq> visited_set v'"
      "visited_set v' \<subseteq> (handle_edge t)\<^sup>* `` visited_set v"
      "\<not> a' \<Longrightarrow> v' = v \<and> handle_edge t `` visited_set v \<inter> set [0..<64] \<subseteq> visited_set v"
      "a' \<Longrightarrow> visited_set v \<noteq> visited_set v'"
      using pass by blast+
  qed
  show ?case
  proof (cases a')
    case False
    moreover have "handle_edge t `` visited_set v \<subseteq> set [0..<64]" by (auto simp: handle_edge_def)
    ultimately have "v' = v \<and> handle_edge t `` visited_set v \<subseteq> visited_set v" using p(4) by blast
    moreover have "cap_handle_sweep (Suc k) t v = v'"
      using run False unfolding cap_handle_sweep.simps Let_def by (simp del: upt_Suc)
    ultimately show ?thesis by auto
  next
    case True
    then have "card (visited_set v) < card (visited_set v')"
      using p(2,5) by (intro psubset_card_mono) auto
    then have "64 < card (visited_set v') + k" using Suc.prems(2) by simp
    note ih = Suc.IH [OF p(1) this]
    moreover have "(handle_edge t)\<^sup>* `` visited_set v' \<subseteq> (handle_edge t)\<^sup>* `` visited_set v"
      using p(3) by (auto intro: rtrancl_trans)
    moreover have "cap_handle_sweep (Suc k) t v = cap_handle_sweep k t v'"
      using run True unfolding cap_handle_sweep.simps Let_def by (simp del: upt_Suc)
    ultimately show ?thesis using p(2) by auto
  qed
qed

lemma cap_handle_sweep_closure:
  assumes "r < 64"
  shows "visited_set (cap_handle_sweep 64 t (cap_handle_visited_set r [0])) = (handle_edge t)\<^sup>* `` {r}"
proof -
  let ?v = "cap_handle_visited_set r [0]"
  have v: "visited_set ?v = {r}" using assms by (rule visited_set_init)
  have c: "{r} \<subseteq> visited_set (cap_handle_sweep 64 t ?v)"
    "visited_set (cap_handle_sweep 64 t ?v) \<subseteq> (handle_edge t)\<^sup>* `` {r}"
    "handle_edge t `` visited_set (cap_handle_sweep 64 t ?v) \<subseteq> visited_set (cap_handle_sweep 64 t ?v)"
  proof -
    have "length ?v = 1" "64 < card (visited_set ?v) + 64" by (simp_all add: v)
    note closed = cap_handle_sweep_closed [OF this, of t, unfolded v]
    show "{r} \<subseteq> visited_set (cap_handle_sweep 64 t ?v)"
      "visited_set (cap_handle_sweep 64 t ?v) \<subseteq> (handle_edge t)\<^sup>* `` {r}"
      "handle_edge t `` visited_set (cap_handle_sweep 64 t ?v) \<subseteq> visited_set (cap_handle_sweep 64 t ?v)"
      using closed by blast+
  qed
  have "(handle_edge t)\<^sup>* `` visited_set (cap_handle_sweep 64 t ?v) = visited_set (cap_handle_sweep 64 t ?v)"
    using c(3) by (rule Image_closed_trancl)
  moreover have "(handle_edge t)\<^sup>* `` {r} \<subseteq> (handle_edge t)\<^sup>* `` visited_set (cap_handle_sweep 64 t ?v)"
    using c(1) by blast
  ultimately show ?thesis using c(2) by auto
qed

lemma cap_handle_revoke_subtree_eq:
  assumes "length t = 64"
  shows "snd (cap_handle_revoke_subtree h t) =
    (case handle_row h t of
       None \<Rightarrow> t
     | Some r \<Rightarrow> map (\<lambda>i. if (r, i) \<in> (handle_edge t)\<^sup>* \<and> row_live (t ! i) then row_revoke (t ! i) else t ! i) [0..<64])"
    and "fst (cap_handle_revoke_subtree h t) = CAP_OK \<longleftrightarrow> handle_row h t \<noteq> None"
proof -
  have tag0: "cap_handle_tag 0 = 0" by (simp add: cap_handle_tag_def)
  have loop: "(\<lambda>i g_rows. if \<not> cap_handle_visited_get v i then g_rows
                else if row_flags (g_rows ! i) AND CAP_HANDLE_FLAG_LIVE = 0 then g_rows
                else g_rows[i := row_revoke (g_rows ! i)]) =
        (\<lambda>i g_rows. if cap_handle_visited_get v i \<and> row_live (g_rows ! i) then g_rows[i := row_revoke (g_rows ! i)] else g_rows)" for v
    by (auto simp: fun_eq_iff)
  have get: "cap_handle_visited_get (cap_handle_sweep 64 t (cap_handle_visited_set r [0])) i \<longleftrightarrow> (r, i) \<in> (handle_edge t)\<^sup>*"
    if "i < 64" "r < 64" for i r
    using cap_handle_sweep_closure [OF that(2), of t] that(1) by (auto simp: visited_set_def)
  show "fst (cap_handle_revoke_subtree h t) = CAP_OK \<longleftrightarrow> handle_row h t \<noteq> None"
    using tag0 by (auto simp: cap_handle_revoke_subtree_def handle_row_def Let_def)
  show "snd (cap_handle_revoke_subtree h t) =
    (case handle_row h t of
       None \<Rightarrow> t
     | Some r \<Rightarrow> map (\<lambda>i. if (r, i) \<in> (handle_edge t)\<^sup>* \<and> row_live (t ! i) then row_revoke (t ! i) else t ! i) [0..<64])"
  proof (cases "handle_row h t")
    case None
    then show ?thesis using tag0 by (auto simp: cap_handle_revoke_subtree_def handle_row_def Let_def split: if_splits)
  next
    case (Some r)
    then have r: "unat (cap_handle_slot h) = r" "r < 64" by (auto dest: handle_row_SomeD)
    let ?v = "cap_handle_sweep 64 t (cap_handle_visited_set r [0])"
    have "snd (cap_handle_revoke_subtree h t) =
        fold (\<lambda>i g_rows. if cap_handle_visited_get ?v i \<and> row_live (g_rows ! i) then g_rows[i := row_revoke (g_rows ! i)] else g_rows) [0..<64] t"
      using Some tag0 r unfolding cap_handle_revoke_subtree_def Let_def loop
      by (auto simp: handle_row_def split: if_splits)
    then show ?thesis
      using Some fold_update_nth [of 64 t "\<lambda>i r. cap_handle_visited_get ?v i \<and> row_live r" row_revoke] assms get r(2)
      by (simp del: upt_Suc cong: map_cong)
  qed
qed

section \<open>Lemmas: histories\<close>

datatype handle_op =
    HO_Grant cap_subject_id_t capability_id_t
  | HO_Grant_Child cap_subject_id_t capability_id_t cap_handle_t
  | HO_Table_Grant cap_subject_id_t cap_subject_id_t capability_id_t
  | HO_Table_Revoke cap_subject_id_t capability_id_t
  | HO_Revoke cap_handle_t
  | HO_Revoke_Subject cap_subject_id_t
  | HO_Revoke_Subtree cap_handle_t

fun handle_step :: "handle_op \<Rightarrow> cap_handle_table \<Rightarrow> cap_handle_table" where
  "handle_step (HO_Grant s c) t = snd (cap_handle_grant s c t)"
| "handle_step (HO_Grant_Child s c p) t = snd (cap_handle_grant_child s c p t)"
| "handle_step (HO_Table_Grant s g c) t = snd (cap_handle_table_grant s g c t)"
| "handle_step (HO_Table_Revoke s c) t = snd (cap_handle_table_revoke s c t)"
| "handle_step (HO_Revoke h) t = snd (cap_handle_revoke h t)"
| "handle_step (HO_Revoke_Subject s) t = snd (cap_handle_revoke_subject s t)"
| "handle_step (HO_Revoke_Subtree h) t = snd (cap_handle_revoke_subtree h t)"

definition row_kept_or_killed :: "cap_handle_table \<Rightarrow> cap_handle_table \<Rightarrow> bool" where
  \<comment> \<open>a step that only revokes\<close>
  "row_kept_or_killed t t' \<longleftrightarrow> length t' = length t \<and>
     (\<forall>i<length t. t' ! i = t ! i \<or> row_live (t ! i) \<and> t' ! i = row_revoke (t ! i))"

definition row_installed :: "cap_subject_id_t \<Rightarrow> capability_id_t \<Rightarrow> cap_handle_table \<Rightarrow> cap_handle_table \<Rightarrow> bool" where
  \<comment> \<open>a step that fills one free row for a pair without a live row\<close>
  "row_installed s c t t' \<longleftrightarrow> cap_handle_subject_valid s \<and> cap_handle_cap_id_valid c \<and>
     cap_handle_find_live s c t = None \<and>
     (\<exists>i r. i < length t \<and> \<not> row_live (t ! i) \<and> t' = t[i := r] \<and> row_live r \<and>
        row_owner_subject r = s \<and> row_cap_id r = c \<and> row_generation r = row_generation (t ! i) + 1)"

definition row_evolves :: "cap_handle_row \<Rightarrow> cap_handle_row \<Rightarrow> bool" where
  "row_evolves r r' \<longleftrightarrow> r' = r \<or> row_live r' = (\<not> row_live r) \<and> row_generation r' = row_generation r + 1"

lemma row_live_flags_1: "row_flags r = 1 \<Longrightarrow> row_live r"
  by (simp add: row_live_def)

lemma cap_handle_grant_child_shape:
  "snd (cap_handle_grant_child s c p t) = t \<or> row_installed s c t (snd (cap_handle_grant_child s c p t))"
proof (cases "cap_handle_subject_valid s \<and> cap_handle_cap_id_valid c \<and> cap_handle_find_live s c t = None")
  case True
  show ?thesis
  proof (cases "cap_handle_find_free_slot t")
    case (Some i)
    note free = cap_handle_find_free_slot_Some [OF Some]
    let ?r = "(t ! i)\<lparr> row_abi_version := CAP_HANDLE_ABI_VERSION_V0, row_cap_id := c, row_owner_subject := s,
        row_granter_subject := s, row_parent_handle := p, row_generation := row_generation (t ! i) + 1,
        row_flags := CAP_HANDLE_FLAG_LIVE \<rparr>"
    have t': "snd (cap_handle_grant_child s c p t) = t[i := ?r]"
      using True Some by (simp add: cap_handle_grant_child_def Let_def)
    have "row_live ?r" "row_owner_subject ?r = s" "row_cap_id ?r = c" "row_generation ?r = row_generation (t ! i) + 1"
      by (simp_all add: row_live_def)
    then have "row_installed s c t (t[i := ?r])" unfolding row_installed_def using True free by blast
    then show ?thesis unfolding t' by blast
  qed (use True in \<open>simp add: cap_handle_grant_child_def\<close>)
qed (auto simp: cap_handle_grant_child_def)

lemma cap_handle_table_grant_shape:
  "snd (cap_handle_table_grant s g c t) = t \<or> row_installed s c t (snd (cap_handle_table_grant s g c t))"
proof (cases "cap_handle_subject_valid s \<and> cap_handle_subject_valid g \<and> cap_handle_cap_id_valid c \<and>
    cap_handle_find_live s c t = None")
  case True
  show ?thesis
  proof (cases "cap_handle_find_free_slot t")
    case (Some i)
    note free = cap_handle_find_free_slot_Some [OF Some]
    let ?r = "(t ! i)\<lparr> row_abi_version := CAP_HANDLE_ABI_VERSION_V0, row_cap_id := c, row_owner_subject := s,
        row_granter_subject := g, row_parent_handle := 0, row_generation := row_generation (t ! i) + 1,
        row_flags := CAP_HANDLE_FLAG_LIVE \<rparr>"
    have t': "snd (cap_handle_table_grant s g c t) = t[i := ?r]"
      using True Some by (simp add: cap_handle_table_grant_def)
    have "row_live ?r" "row_owner_subject ?r = s" "row_cap_id ?r = c" "row_generation ?r = row_generation (t ! i) + 1"
      by (simp_all add: row_live_def)
    then have "row_installed s c t (t[i := ?r])" unfolding row_installed_def using True free by blast
    then show ?thesis unfolding t' by blast
  qed (use True in \<open>simp add: cap_handle_table_grant_def\<close>)
qed (auto simp: cap_handle_table_grant_def)

lemma kept_refl [simp]: "row_kept_or_killed t t"
  by (simp add: row_kept_or_killed_def)

lemma kill_one: "i < length t \<Longrightarrow> row_live (t ! i) \<Longrightarrow> row_kept_or_killed t (t[i := row_revoke (t ! i)])"
  by (simp add: row_kept_or_killed_def nth_list_update)

lemma cap_handle_revoke_shapes:
  assumes "length t = 64"
  shows "row_kept_or_killed t (snd (cap_handle_table_revoke s c t))"
    and "row_kept_or_killed t (snd (cap_handle_revoke h t))"
    and "row_kept_or_killed t (snd (cap_handle_revoke_subject s t))"
    and "row_kept_or_killed t (snd (cap_handle_revoke_subtree h t))"
proof -
  show "row_kept_or_killed t (snd (cap_handle_table_revoke s c t))"
    using kill_one [of _ t] cap_handle_find_live_Some [of s c t]
    by (simp add: cap_handle_table_revoke_def split: option.splits)
  show "row_kept_or_killed t (snd (cap_handle_revoke h t))"
    using kill_one [of _ t] handle_row_SomeD [of h t] assms
    by (simp add: cap_handle_revoke_eq split: option.splits)
  show "row_kept_or_killed t (snd (cap_handle_revoke_subject s t))"
  proof (cases "cap_handle_subject_valid s")
    case True
    show ?thesis
      unfolding cap_handle_revoke_subject_eq [OF assms True] using assms
      by (auto simp: row_kept_or_killed_def simp del: upt_Suc)
  qed (simp add: cap_handle_revoke_subject_def row_kept_or_killed_def)
  show "row_kept_or_killed t (snd (cap_handle_revoke_subtree h t))"
    unfolding cap_handle_revoke_subtree_eq(1) [OF assms] using assms
    by (auto simp: row_kept_or_killed_def simp del: upt_Suc split: option.splits)
qed

lemma handle_step_shape:
  "length t = 64 \<Longrightarrow> row_kept_or_killed t (handle_step op t) \<or> (\<exists>s c. row_installed s c t (handle_step op t))"
proof (cases op)
  case (HO_Grant s c)
  then show ?thesis
    using cap_handle_grant_child_shape [of s c 0 t] by (auto simp: cap_handle_grant_def row_kept_or_killed_def)
next
  case (HO_Grant_Child s c p)
  then show ?thesis
    using cap_handle_grant_child_shape [of s c p t] by (auto simp: row_kept_or_killed_def)
next
  case (HO_Table_Grant s g c)
  then show ?thesis
    using cap_handle_table_grant_shape [of s g c t] by (auto simp: row_kept_or_killed_def)
qed (auto simp: cap_handle_revoke_shapes)

lemma cap_handle_wf_length: "cap_handle_wf t \<Longrightarrow> length t = 64"
  by (simp add: cap_handle_wf_def)

lemma cap_handle_wf_live:
  "cap_handle_wf t \<Longrightarrow> i < 64 \<Longrightarrow> row_live (t ! i) \<Longrightarrow>
   cap_handle_subject_valid (row_owner_subject (t ! i)) \<and> cap_handle_cap_id_valid (row_cap_id (t ! i))"
  by (simp add: cap_handle_wf_def)

lemma cap_handle_wf_unique:
  "cap_handle_wf t \<Longrightarrow> i < 64 \<Longrightarrow> j < 64 \<Longrightarrow> row_live (t ! i) \<Longrightarrow> row_live (t ! j) \<Longrightarrow>
   row_owner_subject (t ! i) = row_owner_subject (t ! j) \<Longrightarrow> row_cap_id (t ! i) = row_cap_id (t ! j) \<Longrightarrow> i = j"
  by (simp add: cap_handle_wf_def)

lemma killed_wf:
  assumes "cap_handle_wf t" "row_kept_or_killed t t'"
  shows "cap_handle_wf t'"
proof -
  have len: "length t = 64" using assms(1) by (simp add: cap_handle_wf_def)
  have live: "row_live (t' ! i) \<Longrightarrow> i < 64 \<Longrightarrow> t' ! i = t ! i" for i
    using assms(2) len by (metis row_kept_or_killed_def row_live_revoke)
  show ?thesis
    unfolding cap_handle_wf_def
  proof (intro conjI allI impI)
    show "length t' = 64" using assms(2) len by (simp add: row_kept_or_killed_def)
  next
    fix j assume j: "j < 64" "row_live (t' ! j)"
    note tj = live [OF j(2,1)]
    show "cap_handle_subject_valid (row_owner_subject (t' ! j))" "cap_handle_cap_id_valid (row_cap_id (t' ! j))"
      using assms(1) j by (simp_all add: cap_handle_wf_def tj)
    fix k assume k: "k < 64" "row_live (t' ! k) \<and> row_owner_subject (t' ! k) = row_owner_subject (t' ! j) \<and>
        row_cap_id (t' ! k) = row_cap_id (t' ! j)"
    then have "t' ! k = t ! k" using live by blast
    then show "k = j" using assms(1) j k tj by (simp add: cap_handle_wf_def)
  qed
qed

lemma installed_wf:
  assumes "cap_handle_wf t" "row_installed s c t t'"
  shows "cap_handle_wf t'"
proof -
  have len: "length t = 64" using assms(1) by (simp add: cap_handle_wf_def)
  obtain i r where i: "i < 64" "t' = t[i := r]" "row_live r" "row_owner_subject r = s" "row_cap_id r = c"
    using assms(2) len by (auto simp: row_installed_def)
  have none: "\<And>j. j < 64 \<Longrightarrow> row_live (t ! j) \<Longrightarrow> \<not> (row_owner_subject (t ! j) = s \<and> row_cap_id (t ! j) = c)"
    using assms(2) len by (auto simp: row_installed_def cap_handle_find_live_None)
  have val: "cap_handle_subject_valid s" "cap_handle_cap_id_valid c"
    using assms(2) by (auto simp: row_installed_def)
  show ?thesis
    unfolding cap_handle_wf_def
  proof (intro conjI allI impI)
    show "length t' = 64" using i len by simp
  next
    fix j assume j: "j < 64" "row_live (t' ! j)"
    show "cap_handle_subject_valid (row_owner_subject (t' ! j))" "cap_handle_cap_id_valid (row_cap_id (t' ! j))"
      using cap_handle_wf_live [OF assms(1), of j] i j val len by (cases "j = i"; simp)+
    fix k assume k: "k < 64" "row_live (t' ! k) \<and> row_owner_subject (t' ! k) = row_owner_subject (t' ! j) \<and>
        row_cap_id (t' ! k) = row_cap_id (t' ! j)"
    show "k = j"
      using cap_handle_wf_unique [OF assms(1) k(1) j(1)] none [OF j(1)] none [OF k(1)] i j k len
      by (cases "j = i"; cases "k = i"; simp)
  qed
qed

lemma handle_step_wf: "cap_handle_wf t \<Longrightarrow> cap_handle_wf (handle_step op t)"
  using handle_step_shape [OF cap_handle_wf_length] killed_wf installed_wf by blast

lemma handle_step_evolves:
  assumes "length t = 64"
  shows "length (handle_step op t) = 64" and "i < 64 \<Longrightarrow> row_evolves (t ! i) (handle_step op t ! i)"
proof -
  show "length (handle_step op t) = 64"
    using handle_step_shape [OF assms, of op] assms by (auto simp: row_kept_or_killed_def row_installed_def)
  show "row_evolves (t ! i) (handle_step op t ! i)" if "i < 64"
    using handle_step_shape [OF assms, of op]
  proof
    assume "row_kept_or_killed t (handle_step op t)"
    then show ?thesis using that assms by (auto simp: row_kept_or_killed_def row_evolves_def)
  next
    assume "\<exists>s c. row_installed s c t (handle_step op t)"
    then obtain j r where "j < 64" "\<not> row_live (t ! j)" "handle_step op t = t[j := r]" "row_live r"
        "row_generation r = row_generation (t ! j) + 1"
      using assms by (auto simp: row_installed_def)
    then show ?thesis using that assms by (cases "j = i") (simp_all add: row_evolves_def)
  qed
qed

section \<open>Lemmas: stale handles\<close>

lemma unat_take_bit_14_add:
  "unat (take_bit 14 (g + of_nat n :: u32)) = (unat g + n) mod 2 ^ 14"
proof -
  have "unat (g + of_nat n) = (unat g + n) mod 2 ^ LENGTH(32)"
    by (simp only: unat_word_ariths unat_of_nat mod_add_right_eq)
  moreover have "(unat g + n) mod 2 ^ LENGTH(32) mod 2 ^ 14 = (unat g + n) mod 2 ^ 14"
    by (rule mod_mod_cancel) (simp add: le_imp_power_dvd)
  moreover have "unat (take_bit 14 (g + of_nat n)) = unat (g + of_nat n) mod 2 ^ 14"
    unfolding unsigned_take_bit_eq by (rule take_bit_eq_mod)
  ultimately show ?thesis by (simp only:)
qed

lemma take_bit_14_alias:
  fixes g :: u32
  assumes "take_bit 14 (g + of_nat n) = take_bit 14 g"
  shows "16384 dvd n"
proof -
  have z: "g + of_nat 0 = g" by simp
  have "(unat g + n) mod 2 ^ 14 = (unat g + 0) mod 2 ^ 14"
    using unat_take_bit_14_add [of g n] unat_take_bit_14_add [of g 0] unfolding z assms by (rule box_equals [OF refl])
  then have "2 ^ 14 dvd (unat g + n) - (unat g + 0)" by (subst (asm) mod_eq_dvd_iff_nat) simp_all
  then show ?thesis by simp
qed

lemma take_bit_14_cycle: "take_bit 14 (g + of_nat 16384 :: u32) = take_bit 14 g"
proof -
  have "unat (take_bit 14 (g + of_nat 16384)) = unat (take_bit 14 (g + of_nat 0))"
    unfolding unat_take_bit_14_add by simp
  moreover have "g + of_nat 0 = g" by simp
  ultimately show ?thesis by (simp only: word_unat_eq_iff [symmetric])
qed

lemma run_generation:
  assumes "length t = 64" "i < 64"
  shows "length (fold handle_step ops t) = 64 \<and>
    (\<exists>d \<le> length ops. row_generation (fold handle_step ops t ! i) = row_generation (t ! i) + of_nat d)"
proof (induction ops rule: rev_induct)
  case Nil
  show ?case using assms by (auto intro: exI [of _ 0])
next
  case (snoc op ops)
  then obtain d where d: "d \<le> length ops" "length (fold handle_step ops t) = 64"
    "row_generation (fold handle_step ops t ! i) = row_generation (t ! i) + of_nat d" by blast
  have "row_evolves (fold handle_step ops t ! i) (handle_step op (fold handle_step ops t) ! i)"
    using handle_step_evolves(2) [OF d(2) assms(2)] .
  then consider
    "row_generation (handle_step op (fold handle_step ops t) ! i) = row_generation (t ! i) + of_nat d" |
    "row_generation (handle_step op (fold handle_step ops t) ! i) = row_generation (t ! i) + of_nat (Suc d)"
    unfolding row_evolves_def using d(3) by (auto simp: algebra_simps)
  then show ?case
    using d handle_step_evolves(1) [OF d(2), of op] by cases (auto intro: le_SucI)
qed

lemma stale_run:
  assumes "length t = 64" "i < 64" "unat (cap_handle_slot h) = i"
    and "row_generation (t ! i) = g + 1" "g AND CAP_HANDLE_GEN_MASK = ucast (cap_handle_generation h)"
    and "length ops \<le> 16382"
  shows "handle_row h (fold handle_step ops t) = None"
proof (rule ccontr)
  assume "handle_row h (fold handle_step ops t) \<noteq> None"
  then have m: "row_generation (fold handle_step ops t ! i) AND CAP_HANDLE_GEN_MASK = ucast (cap_handle_generation h)"
    using assms(3) by (auto simp: handle_row_def split: if_splits)
  obtain d where d: "d \<le> length ops" "row_generation (fold handle_step ops t ! i) = row_generation (t ! i) + of_nat d"
    using run_generation [OF assms(1,2), of ops] by blast
  have "row_generation (fold handle_step ops t ! i) = g + of_nat (Suc d)"
    unfolding d(2) assms(4) of_nat_Suc by (rule add.assoc)
  then have "take_bit 14 (g + of_nat (Suc d)) = take_bit 14 g"
    using m assms(5) by (simp only: take_bit_eq_mask)
  then have "16384 dvd Suc d" by (rule take_bit_14_alias)
  then have "16384 \<le> Suc d" by (rule dvd_imp_le) simp
  then show False using d(1) assms(6) by linarith
qed

lemma lost_handle_generation:
  assumes "length t = 64" "handle_row h t = Some i" "handle_row h (handle_step op t) = None"
  shows "row_generation (handle_step op t ! i) = row_generation (t ! i) + 1"
proof -
  have i: "i < 64" "row_live (t ! i)" "unat (cap_handle_slot h) = i" using assms(2) by (auto dest: handle_row_SomeD)
  have "handle_step op t ! i \<noteq> t ! i"
  proof
    assume "handle_step op t ! i = t ! i"
    then have "handle_row h (handle_step op t) = handle_row h t" by (simp only: handle_row_def i(3))
    with assms(2,3) show False by simp
  qed
  then show ?thesis
    using handle_step_evolves(2) [OF assms(1) i(1), of op] by (auto simp: row_evolves_def)
qed

section \<open>Lemmas: handle reuse\<close>

definition handle_cycle :: "cap_subject_id_t \<Rightarrow> capability_id_t \<Rightarrow> cap_handle_t \<times> cap_handle_table \<Rightarrow>
    cap_handle_t \<times> cap_handle_table" where
  \<comment> \<open>revoke the current handle and grant the same pair again\<close>
  "handle_cycle s c = (\<lambda>(h, t). cap_handle_grant s c (snd (cap_handle_revoke h t)))"

definition table_full :: "cap_handle_table \<Rightarrow> bool" where
  "table_full t \<longleftrightarrow> list_all row_live t"

lemma handle_cycle_once:
  assumes wf: "cap_handle_wf t" and full: "table_full t" and i: "i < 64"
    and s: "row_owner_subject (t ! i) = s" and c: "row_cap_id (t ! i) = c"
  obtains t' where "handle_cycle s c (cap_handle_from_row i t, t) = (cap_handle_from_row i t', t')"
    and "cap_handle_wf t'" "table_full t'" "row_owner_subject (t' ! i) = s" "row_cap_id (t' ! i) = c"
    and "row_generation (t' ! i) = row_generation (t ! i) + 2"
proof -
  have len: "length t = 64" using wf by (rule cap_handle_wf_length)
  have live: "row_live (t ! j)" if "j < 64" for j using full len that by (simp add: table_full_def list_all_length)
  have val: "cap_handle_subject_valid s" "cap_handle_cap_id_valid c"
    using cap_handle_wf_live [OF wf i live [OF i]] s c by auto
  let ?u = "t[i := row_revoke (t ! i)]"
  have u: "snd (cap_handle_revoke (cap_handle_from_row i t) t) = ?u"
    using handle_row_from_row [OF i live [OF i]] by (simp add: cap_handle_revoke_eq)
  have live_u: "row_live (?u ! j) \<longleftrightarrow> j \<noteq> i" if "j < 64" for j
    using that live [OF that] len by (cases "j = i") simp_all
  have none: "cap_handle_find_live s c ?u = None"
    unfolding cap_handle_find_live_None
  proof (intro allI impI notI)
    fix j assume j: "j < length ?u" and m: "row_live (?u ! j) \<and> row_owner_subject (?u ! j) = s \<and> row_cap_id (?u ! j) = c"
    then have "j \<noteq> i" "j < 64" using live_u len by auto
    with m cap_handle_wf_unique [OF wf i, of j] live [OF i] s c show False by auto
  qed
  have "find_idx (\<lambda>row. row_flags row AND CAP_HANDLE_FLAG_LIVE = 0) ?u = Some i"
    by (rule find_idx_unique) (use live_u len i in simp_all)
  moreover have "find_idx (\<lambda>row. row_flags row AND CAP_HANDLE_FLAG_LIVE = 0 \<and> row_flags row AND CAP_HANDLE_FLAG_REVOKED = 0) ?u = None"
    unfolding find_idx_None_iff
  proof (intro allI impI notI)
    fix j assume j: "j < length ?u" and m: "row_flags (?u ! j) AND 1 = 0 \<and> row_flags (?u ! j) AND 2 = 0"
    then have "j = i" using live_u [of j] len by auto
    with m i len show False by (simp add: row_revoke_def)
  qed
  ultimately have free: "cap_handle_find_free_slot ?u = Some i" by (simp add: cap_handle_find_free_slot_def)
  let ?r = "(row_revoke (t ! i))\<lparr> row_abi_version := CAP_HANDLE_ABI_VERSION_V0, row_cap_id := c, row_owner_subject := s,
      row_granter_subject := s, row_parent_handle := 0, row_generation := row_generation (t ! i) + 2,
      row_flags := CAP_HANDLE_FLAG_LIVE \<rparr>"
  let ?t = "t[i := ?r]"
  have g: "cap_handle_grant s c ?u = (cap_handle_from_row i ?t, ?t)"
    using val none free len i
    by (simp add: cap_handle_grant_def cap_handle_grant_child_def Let_def add.assoc)
  have cyc: "handle_cycle s c (cap_handle_from_row i t, t) = (cap_handle_from_row i ?t, ?t)"
    by (simp add: handle_cycle_def u g)
  have "?t = handle_step (HO_Grant s c) (handle_step (HO_Revoke (cap_handle_from_row i t)) t)"
    by (simp add: u g)
  then have "cap_handle_wf ?t" using handle_step_wf wf by metis
  moreover have "table_full ?t"
    unfolding table_full_def list_all_length
  proof (intro allI impI)
    fix j assume "j < length ?t"
    then show "row_live (?t ! j)" using live [of j] len by (cases "j = i") (simp_all add: row_live_flags_1)
  qed
  ultimately show thesis using that [OF cyc] len i by simp
qed

lemma handle_cycle_many:
  assumes "cap_handle_wf t" "table_full t" "i < 64" "row_owner_subject (t ! i) = s" "row_cap_id (t ! i) = c"
  shows "\<exists>t'. (handle_cycle s c ^^ k) (cap_handle_from_row i t, t) = (cap_handle_from_row i t', t') \<and>
    cap_handle_wf t' \<and> table_full t' \<and> row_owner_subject (t' ! i) = s \<and> row_cap_id (t' ! i) = c \<and>
    row_generation (t' ! i) = row_generation (t ! i) + of_nat (2 * k)"
proof (induction k)
  case 0
  show ?case using assms by auto
next
  case (Suc k)
  then obtain t' where t': "(handle_cycle s c ^^ k) (cap_handle_from_row i t, t) = (cap_handle_from_row i t', t')"
    "cap_handle_wf t'" "table_full t'" "row_owner_subject (t' ! i) = s" "row_cap_id (t' ! i) = c"
    "row_generation (t' ! i) = row_generation (t ! i) + of_nat (2 * k)" by blast
  obtain u where "handle_cycle s c (cap_handle_from_row i t', t') = (cap_handle_from_row i u, u)"
    "cap_handle_wf u" "table_full u" "row_owner_subject (u ! i) = s" "row_cap_id (u ! i) = c"
    "row_generation (u ! i) = row_generation (t' ! i) + 2"
    by (rule handle_cycle_once [OF t'(2,3) assms(3) t'(4,5)])
  with t' show ?case by (intro exI [of _ u]) (simp add: algebra_simps)
qed

section \<open>Lemmas: granting\<close>

lemma cap_handle_from_row_nonnull: "cap_handle_from_row i t \<noteq> 0"
proof
  assume "cap_handle_from_row i t = 0"
  then have "cap_handle_tag (cap_handle_from_row i t) = cap_handle_tag 0" by simp
  then show False by (simp add: cap_handle_from_row_def) (simp add: cap_handle_tag_def take_bit_eq_mask)
qed

lemma cap_handle_grant_child_result:
  assumes "length t = 64" "cap_handle_grant_child s c p t = (h, t')"
  shows "h = 0 \<and> t' = t \<and> (\<not> cap_handle_subject_valid s \<or> \<not> cap_handle_cap_id_valid c \<or>
            cap_handle_find_live s c t = None \<and> cap_handle_find_free_slot t = None) \<or>
         (cap_handle_subject_valid s \<and> cap_handle_cap_id_valid c \<and>
          (cap_handle_find_live s c t \<noteq> None \<or> cap_handle_find_free_slot t \<noteq> None) \<and>
          (\<exists>i<64. h = cap_handle_from_row i t' \<and> row_live (t' ! i) \<and> row_owner_subject (t' ! i) = s \<and>
             row_cap_id (t' ! i) = c))"
proof (cases "cap_handle_subject_valid s \<and> cap_handle_cap_id_valid c")
  case True
  show ?thesis
  proof (cases "cap_handle_find_live s c t")
    case (Some i)
    then show ?thesis
      using True assms cap_handle_find_live_Some [OF Some] by (auto simp: cap_handle_grant_child_def)
  next
    case None
    show ?thesis
    proof (cases "cap_handle_find_free_slot t")
      case (Some i)
      let ?r = "(t ! i)\<lparr> row_abi_version := CAP_HANDLE_ABI_VERSION_V0, row_cap_id := c, row_owner_subject := s,
        row_granter_subject := s, row_parent_handle := p, row_generation := row_generation (t ! i) + 1,
        row_flags := CAP_HANDLE_FLAG_LIVE \<rparr>"
      have i: "i < 64" using cap_handle_find_free_slot_Some [OF Some] assms(1) by simp
      have r: "row_live ?r" "row_owner_subject ?r = s" "row_cap_id ?r = c" by (simp_all add: row_live_def)
      have "cap_handle_grant_child s c p t = (cap_handle_from_row i (t[i := ?r]), t[i := ?r])"
        using True None Some by (simp add: cap_handle_grant_child_def Let_def)
      then have t': "h = cap_handle_from_row i t'" "t' = t[i := ?r]" using assms(2) by simp_all
      have "t' ! i = ?r" unfolding t'(2) using i assms(1) by (simp only: nth_list_update_eq)
      then have "row_live (t' ! i)" "row_owner_subject (t' ! i) = s" "row_cap_id (t' ! i) = c"
        using r by (simp_all only:)
      then show ?thesis using True Some i t'(1) by blast
    qed (use True None assms in \<open>simp add: cap_handle_grant_child_def\<close>)
  qed
qed (use assms in \<open>auto simp: cap_handle_grant_child_def\<close>)

lemma handle_row_keep:
  assumes "row_installed s c t t'" "length t = 64" "handle_row h t = Some i"
  shows "handle_row h t' = Some i"
proof -
  have i: "i < 64" "row_live (t ! i)" "unat (cap_handle_slot h) = i" using assms(3) by (auto dest: handle_row_SomeD)
  then have "t' ! i = t ! i" using assms(1,2) by (auto simp: row_installed_def nth_list_update)
  then have "handle_row h t' = handle_row h t" by (simp only: handle_row_def i(3))
  then show ?thesis using assms(3) by simp
qed

lemma reset_wf: "cap_handle_wf (cap_handle_table_reset t)"
  by (simp add: cap_handle_wf_def cap_handle_table_reset_def row_live_def)

section \<open>Properties\<close>




definition demo_table :: cap_handle_table where
  \<comment> \<open>subject 1 holds row 0; rows 1 and 2 are granted below it, row 2 through row 1\<close>
  "demo_table =
    (let (h0, t) = cap_handle_grant 1 CAP_FS_READ (cap_handle_table_reset []);
         (h1, t) = cap_handle_grant_child 2 CAP_FS_READ h0 t;
         (h2, t) = cap_handle_grant_child 3 CAP_FS_READ h1 t
     in t)"

lemma demo_table_facts:
  "length demo_table = 64" "handle_row (cap_handle_from_row 0 demo_table) demo_table = Some 0"
  "row_parent_handle (demo_table ! 1) \<noteq> 0" "unat (cap_handle_slot (row_parent_handle (demo_table ! 1))) = 0"
  "row_parent_handle (demo_table ! 2) \<noteq> 0" "unat (cap_handle_slot (row_parent_handle (demo_table ! 2))) = 1"
  "row_live (demo_table ! 2)"
  by code_simp+




text \<open>
  C14: Handle values do recur.  When the table is full, revoking a handle and granting the same
  pair again reuses its row and bumps the generation twice, so after 8192 such cycles the grant
  returns the very handle value that was revoked first, and it resolves again.
\<close>

theorem cap_handle_recurs_after_8192:
  assumes "cap_handle_wf t" "table_full t" "i < 64" "row_owner_subject (t ! i) = s" "row_cap_id (t ! i) = c"
  shows "\<exists>t'. (handle_cycle s c ^^ 8192) (cap_handle_from_row i t, t) = (cap_handle_from_row i t, t') \<and>
              handle_row (cap_handle_from_row i t) t' = Some i"
proof -
  obtain t' where t': "(handle_cycle s c ^^ 8192) (cap_handle_from_row i t, t) = (cap_handle_from_row i t', t')"
    "cap_handle_wf t'" "table_full t'" "row_generation (t' ! i) = row_generation (t ! i) + of_nat (2 * 8192)"
    using handle_cycle_many [OF assms, of 8192] by blast
  have "row_generation (t' ! i) AND mask 14 = row_generation (t ! i) AND mask 14"
    using take_bit_14_cycle [of "row_generation (t ! i)"] t'(4) by (simp only: take_bit_eq_mask) simp
  then have "cap_handle_from_row i t' = cap_handle_from_row i t" by (simp only: cap_handle_from_row_def)
  moreover have "handle_row (cap_handle_from_row i t') t' = Some i"
    using t'(3) cap_handle_wf_length [OF t'(2)] assms(3)
    by (intro handle_row_from_row) (auto simp: table_full_def list_all_length)
  ultimately show ?thesis using t'(1) by metis
qed

definition full_row :: "nat \<Rightarrow> cap_handle_row" where
  "full_row k = \<lparr> row_abi_version = 0, row_flags = 1, row_cap_id = of_nat (k mod 14 + 1),
     row_owner_subject = of_nat (k div 14), row_granter_subject = 0, row_parent_handle = 0, row_generation = 1 \<rparr>"

lemma full_row_unat:
  assumes "k < 64"
  shows "unat (row_cap_id (full_row k)) = k mod 14 + 1" "unat (row_owner_subject (full_row k)) = k div 14"
proof -
  have "unat (of_nat (k mod 14 + 1) :: u32) = k mod 14 + 1" "unat (of_nat (k div 14) :: u32) = k div 14"
    using assms by (intro unat_of_nat_small; simp)+
  then show "unat (row_cap_id (full_row k)) = k mod 14 + 1" "unat (row_owner_subject (full_row k)) = k div 14"
    by (simp_all only: full_row_def cap_handle_row.simps)
qed

lemma full_table_wf: "cap_handle_wf (map full_row [0..<64])" "table_full (map full_row [0..<64])"
proof -
  have live: "row_live (full_row k)" for k by (simp add: full_row_def row_live_def)
  show "table_full (map full_row [0..<64])" using live by (simp add: table_full_def list_all_length del: upt_Suc)
  have bnd: "cap_handle_subject_valid (row_owner_subject (full_row k))" "cap_handle_cap_id_valid (row_cap_id (full_row k))"
    if "k < 64" for k
    using full_row_unat [OF that] that
    by (auto simp: cap_handle_subject_valid_def cap_handle_cap_id_valid_def word_facts)
  have uniq: "j = k" if "j < 64" "k < 64" "row_owner_subject (full_row j) = row_owner_subject (full_row k)"
    "row_cap_id (full_row j) = row_cap_id (full_row k)" for j k
    using full_row_unat [OF that(1)] full_row_unat [OF that(2)] that(3,4) by (metis add_right_cancel div_mod_decomp)
  show "cap_handle_wf (map full_row [0..<64])"
    unfolding cap_handle_wf_def using bnd uniq by (auto simp del: upt_Suc)
qed

theorem cap_handle_recurs_after_8192_witness:
  "\<exists>t'. (handle_cycle 0 1 ^^ 8192) (cap_handle_from_row 0 (map full_row [0..<64]), map full_row [0..<64]) =
          (cap_handle_from_row 0 (map full_row [0..<64]), t')"
proof -
  have "row_owner_subject (map full_row [0..<64] ! 0) = 0" "row_cap_id (map full_row [0..<64] ! 0) = 1"
    by (simp_all add: full_row_def del: upt_Suc)
  with cap_handle_recurs_after_8192 [OF full_table_wf, of 0 0 1] show ?thesis by (simp del: upt_Suc) blast
qed

lemma revoke_subject_effect:
  assumes "cap_handle_wf t" "cap_handle_subject_valid s" "cap_handle_revoke_subject s t = (n, t')"
  shows "n = card {i. i < 64 \<and> row_live (t ! i) \<and> row_owner_subject (t ! i) = s} \<and>
         cap_handle_table_check s c t' \<noteq> CAP_OK \<and>
         handle_row h t' =
           (case handle_row h t of None \<Rightarrow> None | Some i \<Rightarrow> if row_owner_subject (t ! i) = s then None else Some i)"
proof -
  have len: "length t = 64" using assms(1) by (rule cap_handle_wf_length)
  have n: "n = card {i. i < 64 \<and> row_live (t ! i) \<and> row_owner_subject (t ! i) = s}"
    and t': "t' = map (\<lambda>i. if row_live (t ! i) \<and> row_owner_subject (t ! i) = s then row_revoke (t ! i) else t ! i) [0..<64]"
    using assms(3) unfolding cap_handle_revoke_subject_eq [OF len assms(2)] by simp_all
  have nth: "t' ! i = (if row_live (t ! i) \<and> row_owner_subject (t ! i) = s then row_revoke (t ! i) else t ! i)"
    if "i < 64" for i using that by (simp add: t' del: upt_Suc)
  have len': "length t' = 64" by (simp add: t' del: upt_Suc)
  have "cap_handle_find_live s c t' = None"
    unfolding cap_handle_find_live_None using nth len' by auto
  then have "cap_handle_table_check s c t' \<noteq> CAP_OK" by (simp add: cap_handle_table_check_def)
  moreover have "handle_row h t' =
      (case handle_row h t of None \<Rightarrow> None | Some i \<Rightarrow> if row_owner_subject (t ! i) = s then None else Some i)"
    using nth [of "unat (cap_handle_slot h)"] by (auto simp: handle_row_def)
  ultimately show ?thesis using n by blast
qed

text \<open>
  Revoking a subject.  For a subject in range the call reports how many live rows the subject
  owned, afterwards the subject holds nothing, exactly the handles it owned stop resolving, and
  every other handle resolves as before.
\<close>

theorem cap_handle_revoke_subject_exact:
  assumes "cap_handle_wf t" "cap_handle_subject_valid s" "cap_handle_revoke_subject s t = (n, t')"
  shows "n = card {i. i < 64 \<and> row_live (t ! i) \<and> row_owner_subject (t ! i) = s} \<and>
         cap_handle_table_check s c t' \<noteq> CAP_OK \<and>
         handle_row h t' =
           (case handle_row h t of None \<Rightarrow> None | Some i \<Rightarrow> if row_owner_subject (t ! i) = s then None else Some i)"
  using revoke_subject_effect [OF assms] .

theorem cap_handle_revoke_subject_exact_witness:
  "cap_handle_table_check 0 1 (snd (cap_handle_revoke_subject 0 (map full_row [0..<64]))) \<noteq> CAP_OK"
  using cap_handle_revoke_subject_exact [OF full_table_wf(1) _ prod.collapse [symmetric], of 0]
  by (simp add: cap_handle_subject_valid_def)

end
