(* ===== verification/Cap_Broker.thy ===== *)
theory Cap_Broker
  imports Cap_Audit
begin

text \<open>
  \<^verbatim>\<open>kernel/cap/cap_broker.c\<close>: the share workflow by which one subject gives another access to a
  named resource.  The eight shares and the capability state they act on form the record
  \<open>broker\<close>.  The life of one share is also given as an inductive relation, which every
  operation refines slot by slot.
\<close>

section \<open>Data\<close>

type_synonym cap_share_id_t = u32

datatype cap_share_state_t =
    CAP_SHARE_STATE_NONE
  | CAP_SHARE_STATE_REQUESTED
  | CAP_SHARE_STATE_APPROVED
  | CAP_SHARE_STATE_DENIED
  | CAP_SHARE_STATE_REVOKED

datatype cap_broker_result_t =
    CAP_BROKER_OK
  | CAP_BROKER_ERR_INVALID_SUBJECT
  | CAP_BROKER_ERR_INVALID_CAPABILITY
  | CAP_BROKER_ERR_INVALID_RESOURCE
  | CAP_BROKER_ERR_NO_SLOT
  | CAP_BROKER_ERR_NOT_FOUND
  | CAP_BROKER_ERR_NOT_AUTHORIZED
  | CAP_BROKER_ERR_OWNER_MISSING_CAP
  | CAP_BROKER_ERR_BAD_STATE

record cap_broker_share_t =
  sh_state :: cap_share_state_t
  sh_owner_subject_id :: cap_subject_id_t
  sh_recipient_subject_id :: cap_subject_id_t
  sh_capability_id :: capability_id_t
  sh_resource_name :: string

record broker =
  br_cap :: cap_state
  broker_shares :: "cap_broker_share_t list"

abbreviation "CAP_BROKER_MAX_SHARES \<equiv> (8 :: nat)"
abbreviation "CAP_BROKER_RESOURCE_NAME_MAX \<equiv> (31 :: nat)"
abbreviation "CAP_SHARE_ID_INVALID \<equiv> (0 :: cap_share_id_t)"

section \<open>Operations\<close>

fun broker_copy_loop :: "nat \<Rightarrow> string \<Rightarrow> string option" where
  \<comment> \<open>the copy loop at index \<open>i\<close>; \<open>None\<close> when the name is longer than the buffer\<close>
  "broker_copy_loop i [] = Some []"
| "broker_copy_loop i (c # cs) =
    (if i \<ge> CAP_BROKER_RESOURCE_NAME_MAX then None else map_option (Cons c) (broker_copy_loop (i + 1) cs))"

definition broker_resource_copy :: "string option \<Rightarrow> string option" where
  "broker_resource_copy resource_name =
    (case resource_name of
       None \<Rightarrow> None
     | Some r \<Rightarrow>
        (case broker_copy_loop 0 r of
           None \<Rightarrow> None
         | Some copy \<Rightarrow> if length copy = 0 then None else Some copy))"

fun broker_resource_equal :: "string \<Rightarrow> string \<Rightarrow> bool" where
  "broker_resource_equal (a # as) (b # bs) = (if a \<noteq> b then False else broker_resource_equal as bs)"
| "broker_resource_equal [] [] = True"
| "broker_resource_equal _ _ = False"

definition broker_share_id_valid :: "cap_share_id_t \<Rightarrow> bool" where
  "broker_share_id_valid share_id \<longleftrightarrow> share_id \<noteq> CAP_SHARE_ID_INVALID \<and> unat share_id \<le> CAP_BROKER_MAX_SHARES"

definition broker_share_at :: "cap_share_id_t \<Rightarrow> nat" where
  \<comment> \<open>the index of \<^verbatim>\<open>&broker_shares[share_id - 1u]\<close>\<close>
  "broker_share_at share_id = unat (share_id - 1)"

definition cap_broker_reset :: "broker \<Rightarrow> broker" where
  "cap_broker_reset b = b\<lparr> broker_shares := replicate CAP_BROKER_MAX_SHARES
     \<lparr> sh_state = CAP_SHARE_STATE_NONE, sh_owner_subject_id = 0, sh_recipient_subject_id = 0,
       sh_capability_id = 0, sh_resource_name = '''' \<rparr> \<rparr>"

definition cap_broker_request_share ::
  "cap_subject_id_t \<Rightarrow> cap_subject_id_t \<Rightarrow> capability_id_t \<Rightarrow> string option \<Rightarrow> bool \<Rightarrow> broker \<Rightarrow>
   cap_broker_result_t \<times> cap_share_id_t \<times> broker" where
  \<comment> \<open>the middle result is the value stored through the out pointer (0 when there is none)\<close>
  "cap_broker_request_share owner recipient cap_id resource_name out_share_id b =
    (if \<not> out_share_id then (CAP_BROKER_ERR_INVALID_SUBJECT, CAP_SHARE_ID_INVALID, b)
     else if owner = recipient then (CAP_BROKER_ERR_INVALID_SUBJECT, CAP_SHARE_ID_INVALID, b)
     else if owner \<ge> CAP_TABLE_MAX_SUBJECTS \<or> recipient \<ge> CAP_TABLE_MAX_SUBJECTS
     then (CAP_BROKER_ERR_INVALID_SUBJECT, CAP_SHARE_ID_INVALID, b)
     else let owner_check = cap_table_check owner cap_id (cap_tab (br_cap b)) in
     if owner_check = CAP_ERR_CAP_INVALID then (CAP_BROKER_ERR_INVALID_CAPABILITY, CAP_SHARE_ID_INVALID, b)
     else if owner_check \<noteq> CAP_OK then (CAP_BROKER_ERR_OWNER_MISSING_CAP, CAP_SHARE_ID_INVALID, b)
     else case broker_resource_copy resource_name of
       None \<Rightarrow> (CAP_BROKER_ERR_INVALID_RESOURCE, CAP_SHARE_ID_INVALID, b)
     | Some resource_copy \<Rightarrow>
        (case find_idx (\<lambda>sh. sh_state sh = CAP_SHARE_STATE_NONE) (broker_shares b) of
           None \<Rightarrow> (CAP_BROKER_ERR_NO_SLOT, CAP_SHARE_ID_INVALID, b)
         | Some i \<Rightarrow>
            (CAP_BROKER_OK, of_nat (i + 1),
             b\<lparr> broker_shares := (broker_shares b)[i :=
                  \<lparr> sh_state = CAP_SHARE_STATE_REQUESTED, sh_owner_subject_id = owner,
                    sh_recipient_subject_id = recipient, sh_capability_id = cap_id,
                    sh_resource_name = resource_copy \<rparr>] \<rparr>)))"

definition share_set_state :: "nat \<Rightarrow> cap_share_state_t \<Rightarrow> broker \<Rightarrow> broker" where
  "share_set_state i s b = b\<lparr> broker_shares := (broker_shares b)[i := (broker_shares b ! i)\<lparr> sh_state := s \<rparr>] \<rparr>"

definition cap_broker_approve :: "cap_subject_id_t \<Rightarrow> cap_share_id_t \<Rightarrow> broker \<Rightarrow> cap_broker_result_t \<times> broker" where
  "cap_broker_approve approver share_id b =
    (if \<not> broker_share_id_valid share_id then (CAP_BROKER_ERR_NOT_FOUND, b)
     else let i = broker_share_at share_id; share = broker_shares b ! i in
     if sh_state share = CAP_SHARE_STATE_NONE then (CAP_BROKER_ERR_NOT_FOUND, b)
     else if sh_state share \<noteq> CAP_SHARE_STATE_REQUESTED then (CAP_BROKER_ERR_BAD_STATE, b)
     else if approver \<noteq> sh_owner_subject_id share then (CAP_BROKER_ERR_NOT_AUTHORIZED, b)
     else let (grant, t) = cap_table_grant (sh_recipient_subject_id share) (sh_capability_id share) (cap_tab (br_cap b));
              b = b\<lparr> br_cap := (br_cap b)\<lparr> cap_tab := t \<rparr> \<rparr>;
              b = b\<lparr> br_cap := cap_audit_emit CAP_AUDIT_OP_GRANT approver (sh_recipient_subject_id share)
                       (sh_capability_id share) grant (br_cap b) \<rparr>
          in if grant \<noteq> CAP_OK then (CAP_BROKER_ERR_INVALID_CAPABILITY, b)
             else (CAP_BROKER_OK, share_set_state i CAP_SHARE_STATE_APPROVED b))"

definition cap_broker_deny :: "cap_subject_id_t \<Rightarrow> cap_share_id_t \<Rightarrow> broker \<Rightarrow> cap_broker_result_t \<times> broker" where
  "cap_broker_deny approver share_id b =
    (if \<not> broker_share_id_valid share_id then (CAP_BROKER_ERR_NOT_FOUND, b)
     else let i = broker_share_at share_id; share = broker_shares b ! i in
     if sh_state share = CAP_SHARE_STATE_NONE then (CAP_BROKER_ERR_NOT_FOUND, b)
     else if sh_state share \<noteq> CAP_SHARE_STATE_REQUESTED then (CAP_BROKER_ERR_BAD_STATE, b)
     else if approver \<noteq> sh_owner_subject_id share then (CAP_BROKER_ERR_NOT_AUTHORIZED, b)
     else let b = share_set_state i CAP_SHARE_STATE_DENIED b
          in (CAP_BROKER_OK,
              b\<lparr> br_cap := cap_audit_emit CAP_AUDIT_OP_GRANT approver (sh_recipient_subject_id share)
                   (sh_capability_id share) CAP_ERR_MISSING (br_cap b) \<rparr>))"

definition cap_broker_revoke :: "cap_subject_id_t \<Rightarrow> cap_share_id_t \<Rightarrow> broker \<Rightarrow> cap_broker_result_t \<times> broker" where
  "cap_broker_revoke actor share_id b =
    (if \<not> broker_share_id_valid share_id then (CAP_BROKER_ERR_NOT_FOUND, b)
     else let i = broker_share_at share_id; share = broker_shares b ! i in
     if sh_state share = CAP_SHARE_STATE_NONE then (CAP_BROKER_ERR_NOT_FOUND, b)
     else if sh_state share \<noteq> CAP_SHARE_STATE_APPROVED then (CAP_BROKER_ERR_BAD_STATE, b)
     else if actor \<noteq> sh_owner_subject_id share \<and> actor \<noteq> sh_recipient_subject_id share
     then (CAP_BROKER_ERR_NOT_AUTHORIZED, b)
     else let (revoke_result, t) =
                cap_table_revoke (sh_recipient_subject_id share) (sh_capability_id share) (cap_tab (br_cap b));
              b = b\<lparr> br_cap := (br_cap b)\<lparr> cap_tab := t \<rparr> \<rparr>;
              b = share_set_state i CAP_SHARE_STATE_REVOKED b
          in (CAP_BROKER_OK,
              b\<lparr> br_cap := cap_audit_emit CAP_AUDIT_OP_REVOKE actor (sh_recipient_subject_id share)
                   (sh_capability_id share) revoke_result (br_cap b) \<rparr>))"

definition cap_broker_recipient_check ::
  "cap_subject_id_t \<Rightarrow> capability_id_t \<Rightarrow> string option \<Rightarrow> broker \<Rightarrow> cap_result_t" where
  "cap_broker_recipient_check recipient cap_id resource_name b =
    (if recipient \<ge> CAP_TABLE_MAX_SUBJECTS then CAP_ERR_SUBJECT_INVALID
     else case resource_name of
       None \<Rightarrow> CAP_ERR_MISSING
     | Some r \<Rightarrow>
        if r = [] then CAP_ERR_MISSING
        else case find_idx (\<lambda>sh. sh_state sh = CAP_SHARE_STATE_APPROVED \<and>
                     sh_recipient_subject_id sh = recipient \<and> sh_capability_id sh = cap_id \<and>
                     broker_resource_equal (sh_resource_name sh) r) (broker_shares b) of
          None \<Rightarrow> CAP_ERR_MISSING
        | Some i \<Rightarrow>
           if cap_table_check recipient cap_id (cap_tab (br_cap b)) \<noteq> CAP_OK then CAP_ERR_MISSING else CAP_OK)"

definition cap_broker_state_for_tests :: "cap_share_id_t \<Rightarrow> broker \<Rightarrow> cap_share_state_t" where
  "cap_broker_state_for_tests share_id b =
    (if \<not> broker_share_id_valid share_id then CAP_SHARE_STATE_NONE
     else sh_state (broker_shares b ! broker_share_at share_id))"

definition cap_broker_active_count_for_tests :: "broker \<Rightarrow> nat" where
  "cap_broker_active_count_for_tests b =
     fold (\<lambda>sh count. if sh_state sh = CAP_SHARE_STATE_APPROVED then count + 1 else count) (broker_shares b) 0"

section \<open>The life of one share\<close>

inductive share_step :: "cap_broker_share_t \<Rightarrow> cap_broker_share_t \<Rightarrow> bool" where
  request: "sh_state s = CAP_SHARE_STATE_NONE \<Longrightarrow> sh_state s' = CAP_SHARE_STATE_REQUESTED \<Longrightarrow> share_step s s'"
| approve: "sh_state s = CAP_SHARE_STATE_REQUESTED \<Longrightarrow> share_step s (s\<lparr> sh_state := CAP_SHARE_STATE_APPROVED \<rparr>)"
| deny: "sh_state s = CAP_SHARE_STATE_REQUESTED \<Longrightarrow> share_step s (s\<lparr> sh_state := CAP_SHARE_STATE_DENIED \<rparr>)"
| revoke: "sh_state s = CAP_SHARE_STATE_APPROVED \<Longrightarrow> share_step s (s\<lparr> sh_state := CAP_SHARE_STATE_REVOKED \<rparr>)"

inductive_cases share_stepE: "share_step s s'"

datatype broker_op =
    B_Request cap_subject_id_t cap_subject_id_t capability_id_t "string option"
  | B_Approve cap_subject_id_t cap_share_id_t
  | B_Deny cap_subject_id_t cap_share_id_t
  | B_Revoke cap_subject_id_t cap_share_id_t

fun broker_step :: "broker_op \<Rightarrow> broker \<Rightarrow> broker" where
  "broker_step (B_Request o' r c n) b = snd (snd (cap_broker_request_share o' r c n True b))"
| "broker_step (B_Approve a i) b = snd (cap_broker_approve a i b)"
| "broker_step (B_Deny a i) b = snd (cap_broker_deny a i b)"
| "broker_step (B_Revoke a i) b = snd (cap_broker_revoke a i b)"

abbreviation broker_run :: "broker_op list \<Rightarrow> broker \<Rightarrow> broker" where
  "broker_run ops b \<equiv> fold broker_step ops b"

definition share_ok :: "cap_broker_share_t \<Rightarrow> bool" where
  "share_ok sh \<longleftrightarrow> (sh_state sh \<noteq> CAP_SHARE_STATE_NONE \<longrightarrow>
     cap_valid (sh_recipient_subject_id sh) (sh_capability_id sh) \<and> sh_resource_name sh \<noteq> [] \<and>
     sh_owner_subject_id sh \<noteq> sh_recipient_subject_id sh)"

definition broker_wf :: "broker \<Rightarrow> bool" where
  "broker_wf b \<longleftrightarrow> cap_table_wf (cap_tab (br_cap b)) \<and> length (broker_shares b) = 8 \<and>
     list_all share_ok (broker_shares b)"

section \<open>Lemmas\<close>

lemma broker_resource_equal_iff [simp]: "broker_resource_equal a b \<longleftrightarrow> a = b"
  by (induction a b rule: broker_resource_equal.induct) auto

lemma broker_copy_loop_eq: "broker_copy_loop i r = (if i + length r \<le> 31 \<or> r = [] then Some r else None)"
  by (induction i r rule: broker_copy_loop.induct) auto

lemma broker_resource_copy_Some:
  "broker_resource_copy r = Some x \<longleftrightarrow> r = Some x \<and> x \<noteq> [] \<and> length x \<le> 31"
  by (auto simp: broker_resource_copy_def broker_copy_loop_eq split: option.splits if_splits)

lemma broker_share_at_lt: "broker_share_id_valid i \<Longrightarrow> broker_share_at i < 8"
  unfolding broker_share_id_valid_def broker_share_at_def
  using unat_minus_one [of i] by auto

lemma share_ok_nth: "broker_wf b \<Longrightarrow> i < 8 \<Longrightarrow> share_ok (broker_shares b ! i)"
  by (simp add: broker_wf_def list_all_length)

lemma share_set_state_fields [simp]:
  "br_cap (share_set_state i s b) = br_cap b"
  "broker_shares (share_set_state i s b) = (broker_shares b)[i := (broker_shares b ! i)\<lparr> sh_state := s \<rparr>]"
  by (simp_all add: share_set_state_def)

lemma cap_audit_emit_fields [simp]:
  "cap_tab (cap_audit_emit op a s c r st) = cap_tab st"
  "cap_log (cap_audit_emit op a s c r st) = audit_push (op, a, s, c, r) (cap_log st)"
  by (simp_all add: cap_audit_emit_def audit_push.simps)

lemma cap_table_grant_valid: "cap_valid s c \<Longrightarrow> fst (cap_table_grant s c t) = CAP_OK"
  by (simp add: cap_table_grant_def cap_valid_def Let_def)

lemma cap_table_revoke_valid: "cap_valid s c \<Longrightarrow> fst (cap_table_revoke s c t) = CAP_OK"
  by (simp add: cap_table_revoke_def cap_valid_def Let_def)

lemma cap_broker_request_cases:
  assumes "cap_broker_request_share ow re c n True b = (res, i, b')"
  obtains (failed) "res \<noteq> CAP_BROKER_OK" "b' = b" "i = 0"
  | (ok) k r where "res = CAP_BROKER_OK" "n = Some r" "r \<noteq> []" "length r \<le> 31" "ow \<noteq> re" "cap_holds (br_cap b) ow c"
      "cap_subject_valid re" "k < length (broker_shares b)" "sh_state (broker_shares b ! k) = CAP_SHARE_STATE_NONE"
      "b' = b\<lparr> broker_shares := (broker_shares b)[k :=
                  \<lparr> sh_state = CAP_SHARE_STATE_REQUESTED, sh_owner_subject_id = ow,
                    sh_recipient_subject_id = re, sh_capability_id = c, sh_resource_name = r \<rparr>] \<rparr>"
      "i = of_nat (k + 1)"
proof (cases "ow \<noteq> re \<and> cap_subject_valid ow \<and> cap_subject_valid re \<and> cap_holds (br_cap b) ow c")
  case True
  then have g: "ow \<noteq> re" "\<not> (CAP_TABLE_MAX_SUBJECTS \<le> ow \<or> CAP_TABLE_MAX_SUBJECTS \<le> re)" "cap_holds (br_cap b) ow c"
    by (auto simp: cap_subject_valid_def not_le)
  show thesis
  proof (cases "broker_resource_copy n")
    case None
    then show thesis using assms g by (intro failed) (simp_all add: cap_broker_request_share_def)
  next
    case (Some r)
    show thesis
    proof (cases "find_idx (\<lambda>sh. sh_state sh = CAP_SHARE_STATE_NONE) (broker_shares b)")
      case None
      then show thesis using assms g Some by (intro failed) (simp_all add: cap_broker_request_share_def)
    next
      case k: (Some k)
      have "b' = b\<lparr> broker_shares := (broker_shares b)[k :=
                  \<lparr> sh_state = CAP_SHARE_STATE_REQUESTED, sh_owner_subject_id = ow,
                    sh_recipient_subject_id = re, sh_capability_id = c, sh_resource_name = r \<rparr>] \<rparr>"
        "res = CAP_BROKER_OK" "i = of_nat (k + 1)"
        using assms g Some k by (simp_all add: cap_broker_request_share_def)
      then show thesis
        using True Some find_idx_SomeD(1,2) [OF k]
        by (intro ok [of r k]) (simp_all add: broker_resource_copy_Some)
    qed
  qed
next
  case False
  then have "fst (cap_broker_request_share ow re c n True b) \<noteq> CAP_BROKER_OK \<and>
      snd (cap_broker_request_share ow re c n True b) = (0, b)"
    by (auto simp: cap_broker_request_share_def Let_def cap_subject_valid_def not_le)
  then show thesis using assms by (intro failed) simp_all
qed

lemma cap_broker_approve_cases:
  assumes "broker_wf b" "cap_broker_approve a i b = (res, b')"
  obtains (failed) "res \<noteq> CAP_BROKER_OK" "b' = b"
  | (ok) k where "res = CAP_BROKER_OK" "broker_share_id_valid i" "k = broker_share_at i" "k < 8"
      "sh_state (broker_shares b ! k) = CAP_SHARE_STATE_REQUESTED" "a = sh_owner_subject_id (broker_shares b ! k)"
      "broker_shares b' = (broker_shares b)[k := (broker_shares b ! k)\<lparr> sh_state := CAP_SHARE_STATE_APPROVED \<rparr>]"
      "cap_tab (br_cap b') = snd (cap_table_grant (sh_recipient_subject_id (broker_shares b ! k))
         (sh_capability_id (broker_shares b ! k)) (cap_tab (br_cap b)))"
      "cap_log (br_cap b') = audit_push (CAP_AUDIT_OP_GRANT, a, sh_recipient_subject_id (broker_shares b ! k),
         sh_capability_id (broker_shares b ! k), CAP_OK) (cap_log (br_cap b))"
proof (cases "broker_share_id_valid i \<and> sh_state (broker_shares b ! broker_share_at i) = CAP_SHARE_STATE_REQUESTED \<and>
    a = sh_owner_subject_id (broker_shares b ! broker_share_at i)")
  case True
  let ?sh = "broker_shares b ! broker_share_at i"
  have lt: "broker_share_at i < 8" using True broker_share_at_lt by blast
  have "share_ok ?sh" using share_ok_nth [OF assms(1) lt] .
  then have "cap_valid (sh_recipient_subject_id ?sh) (sh_capability_id ?sh)" using True by (simp add: share_ok_def)
  note g = cap_table_grant_valid [OF this, of "cap_tab (br_cap b)"]
  have "cap_broker_approve a i b = (CAP_BROKER_OK, share_set_state (broker_share_at i) CAP_SHARE_STATE_APPROVED
      (b\<lparr> br_cap := cap_audit_emit CAP_AUDIT_OP_GRANT a (sh_recipient_subject_id ?sh) (sh_capability_id ?sh) CAP_OK
        ((br_cap b)\<lparr> cap_tab := snd (cap_table_grant (sh_recipient_subject_id ?sh) (sh_capability_id ?sh) (cap_tab (br_cap b))) \<rparr>) \<rparr>))"
    using True g by (simp add: cap_broker_approve_def Let_def prod.case_eq_if)
  then show thesis
    using True lt assms(2) by (intro ok [of "broker_share_at i"]) auto
next
  case False
  then show thesis
    using assms(2) by (intro failed) (auto simp: cap_broker_approve_def Let_def split: if_splits)
qed

lemma cap_broker_deny_cases:
  assumes "cap_broker_deny a i b = (res, b')"
  obtains (failed) "res \<noteq> CAP_BROKER_OK" "b' = b"
  | (ok) k where "res = CAP_BROKER_OK" "broker_share_id_valid i" "k = broker_share_at i" "k < 8"
      "sh_state (broker_shares b ! k) = CAP_SHARE_STATE_REQUESTED" "a = sh_owner_subject_id (broker_shares b ! k)"
      "broker_shares b' = (broker_shares b)[k := (broker_shares b ! k)\<lparr> sh_state := CAP_SHARE_STATE_DENIED \<rparr>]"
      "cap_tab (br_cap b') = cap_tab (br_cap b)"
      "cap_log (br_cap b') = audit_push (CAP_AUDIT_OP_GRANT, a, sh_recipient_subject_id (broker_shares b ! k),
         sh_capability_id (broker_shares b ! k), CAP_ERR_MISSING) (cap_log (br_cap b))"
proof (cases "broker_share_id_valid i \<and> sh_state (broker_shares b ! broker_share_at i) = CAP_SHARE_STATE_REQUESTED \<and>
    a = sh_owner_subject_id (broker_shares b ! broker_share_at i)")
  case True
  let ?sh = "broker_shares b ! broker_share_at i"
  have "cap_broker_deny a i b = (CAP_BROKER_OK,
      (share_set_state (broker_share_at i) CAP_SHARE_STATE_DENIED b)
      \<lparr> br_cap := cap_audit_emit CAP_AUDIT_OP_GRANT a (sh_recipient_subject_id ?sh) (sh_capability_id ?sh) CAP_ERR_MISSING (br_cap b) \<rparr>)"
    using True by (simp add: cap_broker_deny_def Let_def)
  then show thesis
    using True broker_share_at_lt [of i] assms by (intro ok [of "broker_share_at i"]) auto
next
  case False
  then show thesis
    using assms by (intro failed) (auto simp: cap_broker_deny_def Let_def split: if_splits)
qed

lemma cap_broker_revoke_cases:
  assumes "broker_wf b" "cap_broker_revoke a i b = (res, b')"
  obtains (failed) "res \<noteq> CAP_BROKER_OK" "b' = b"
  | (ok) k where "res = CAP_BROKER_OK" "broker_share_id_valid i" "k = broker_share_at i" "k < 8"
      "sh_state (broker_shares b ! k) = CAP_SHARE_STATE_APPROVED"
      "a = sh_owner_subject_id (broker_shares b ! k) \<or> a = sh_recipient_subject_id (broker_shares b ! k)"
      "broker_shares b' = (broker_shares b)[k := (broker_shares b ! k)\<lparr> sh_state := CAP_SHARE_STATE_REVOKED \<rparr>]"
      "cap_tab (br_cap b') = snd (cap_table_revoke (sh_recipient_subject_id (broker_shares b ! k))
         (sh_capability_id (broker_shares b ! k)) (cap_tab (br_cap b)))"
      "cap_log (br_cap b') = audit_push (CAP_AUDIT_OP_REVOKE, a, sh_recipient_subject_id (broker_shares b ! k),
         sh_capability_id (broker_shares b ! k), CAP_OK) (cap_log (br_cap b))"
proof (cases "broker_share_id_valid i \<and> sh_state (broker_shares b ! broker_share_at i) = CAP_SHARE_STATE_APPROVED \<and>
    (a = sh_owner_subject_id (broker_shares b ! broker_share_at i) \<or>
     a = sh_recipient_subject_id (broker_shares b ! broker_share_at i))")
  case True
  let ?sh = "broker_shares b ! broker_share_at i"
  have lt: "broker_share_at i < 8" using True broker_share_at_lt by blast
  have "share_ok ?sh" using share_ok_nth [OF assms(1) lt] .
  then have "cap_valid (sh_recipient_subject_id ?sh) (sh_capability_id ?sh)" using True by (simp add: share_ok_def)
  note g = cap_table_revoke_valid [OF this, of "cap_tab (br_cap b)"]
  have "cap_broker_revoke a i b = (CAP_BROKER_OK,
      (share_set_state (broker_share_at i) CAP_SHARE_STATE_REVOKED
        (b\<lparr> br_cap := (br_cap b)\<lparr> cap_tab := snd (cap_table_revoke (sh_recipient_subject_id ?sh) (sh_capability_id ?sh) (cap_tab (br_cap b))) \<rparr> \<rparr>))
      \<lparr> br_cap := cap_audit_emit CAP_AUDIT_OP_REVOKE a (sh_recipient_subject_id ?sh) (sh_capability_id ?sh) CAP_OK
        ((br_cap b)\<lparr> cap_tab := snd (cap_table_revoke (sh_recipient_subject_id ?sh) (sh_capability_id ?sh) (cap_tab (br_cap b))) \<rparr>) \<rparr>)"
    using True g by (auto simp: cap_broker_revoke_def Let_def prod.case_eq_if)
  then show thesis
    using True lt assms(2) by (intro ok [of "broker_share_at i"]) auto
next
  case False
  then show thesis
    using assms(2) by (intro failed) (auto simp: cap_broker_revoke_def Let_def split: if_splits)
qed

lemma broker_step_slot:
  assumes "broker_wf b" "k < 8"
  obtains (same) "broker_shares (broker_step op b) ! k = broker_shares b ! k"
  | (request) ow re c r where "op = B_Request ow re c (Some r)" "r \<noteq> []" "ow \<noteq> re" "cap_holds (br_cap b) ow c"
      "cap_subject_valid re" "sh_state (broker_shares b ! k) = CAP_SHARE_STATE_NONE"
      "broker_shares (broker_step op b) ! k =
         \<lparr> sh_state = CAP_SHARE_STATE_REQUESTED, sh_owner_subject_id = ow, sh_recipient_subject_id = re,
           sh_capability_id = c, sh_resource_name = r \<rparr>"
  | (approve) i where "op = B_Approve (sh_owner_subject_id (broker_shares b ! k)) i"
      "sh_state (broker_shares b ! k) = CAP_SHARE_STATE_REQUESTED"
      "broker_shares (broker_step op b) ! k = (broker_shares b ! k)\<lparr> sh_state := CAP_SHARE_STATE_APPROVED \<rparr>"
  | (deny) "sh_state (broker_shares b ! k) = CAP_SHARE_STATE_REQUESTED"
      "broker_shares (broker_step op b) ! k = (broker_shares b ! k)\<lparr> sh_state := CAP_SHARE_STATE_DENIED \<rparr>"
  | (revoke) "sh_state (broker_shares b ! k) = CAP_SHARE_STATE_APPROVED"
      "broker_shares (broker_step op b) ! k = (broker_shares b ! k)\<lparr> sh_state := CAP_SHARE_STATE_REVOKED \<rparr>"
proof (cases op)
  case op: (B_Request ow re c n)
  obtain res i b' where run: "cap_broker_request_share ow re c n True b = (res, i, b')" by (cases "cap_broker_request_share ow re c n True b")
  show thesis
    using run
  proof (cases rule: cap_broker_request_cases)
    case failed
    then show thesis using same run op by simp
  next
    case (ok j r)
    then show thesis using same request [of ow re c r] run op assms(2) by (cases "j = k") simp_all
  qed
next
  case op: (B_Approve a i)
  obtain res b' where run: "cap_broker_approve a i b = (res, b')" by (cases "cap_broker_approve a i b")
  show thesis
    using assms(1) run
  proof (cases rule: cap_broker_approve_cases)
    case failed
    then show thesis using same run op by simp
  next
    case (ok j)
    then show thesis using same approve [of i] run op assms by (cases "j = k") (simp_all add: broker_wf_def)
  qed
next
  case op: (B_Deny a i)
  obtain res b' where run: "cap_broker_deny a i b = (res, b')" by (cases "cap_broker_deny a i b")
  show thesis
    using run
  proof (cases rule: cap_broker_deny_cases)
    case failed
    then show thesis using same run op by simp
  next
    case (ok j)
    then show thesis using same deny run op assms by (cases "j = k") (simp_all add: broker_wf_def)
  qed
next
  case op: (B_Revoke a i)
  obtain res b' where run: "cap_broker_revoke a i b = (res, b')" by (cases "cap_broker_revoke a i b")
  show thesis
    using assms(1) run
  proof (cases rule: cap_broker_revoke_cases)
    case failed
    then show thesis using same run op by simp
  next
    case (ok j)
    then show thesis using same revoke run op assms by (cases "j = k") (simp_all add: broker_wf_def)
  qed
qed

lemma broker_step_table:
  assumes "broker_wf b"
  shows "cap_table_wf (cap_tab (br_cap (broker_step op b))) \<and> length (broker_shares (broker_step op b)) = 8"
proof (cases op)
  case op: (B_Request ow re c n)
  obtain res i b' where run: "cap_broker_request_share ow re c n True b = (res, i, b')" by (cases "cap_broker_request_share ow re c n True b")
  have e: "broker_step op b = b'" using op run by simp
  show ?thesis unfolding e using run by (cases rule: cap_broker_request_cases) (use assms in \<open>simp_all add: broker_wf_def\<close>)
next
  case op: (B_Approve a i)
  obtain res b' where run: "cap_broker_approve a i b = (res, b')" by (cases "cap_broker_approve a i b")
  show ?thesis using assms run by (cases rule: cap_broker_approve_cases) (use assms op run in \<open>simp_all add: broker_wf_def\<close>)
next
  case op: (B_Deny a i)
  obtain res b' where run: "cap_broker_deny a i b = (res, b')" by (cases "cap_broker_deny a i b")
  have e: "broker_step op b = b'" using op run by simp
  show ?thesis unfolding e using run by (cases rule: cap_broker_deny_cases) (use assms in \<open>simp_all add: broker_wf_def\<close>)
next
  case op: (B_Revoke a i)
  obtain res b' where run: "cap_broker_revoke a i b = (res, b')" by (cases "cap_broker_revoke a i b")
  show ?thesis using assms run by (cases rule: cap_broker_revoke_cases) (use assms op run in \<open>simp_all add: broker_wf_def\<close>)
qed

lemma broker_step_wf:
  assumes "broker_wf b"
  shows "broker_wf (broker_step op b)"
proof -
  have "share_ok (broker_shares (broker_step op b) ! k)" if "k < 8" for k
    using assms that
  proof (cases rule: broker_step_slot [where op = op])
    case same
    then show ?thesis using share_ok_nth [OF assms that] by simp
  next
    case (request ow re c r)
    then show ?thesis by (simp add: share_ok_def cap_table_check_OK_iff cap_valid_def)
  qed (use share_ok_nth [OF assms that] in \<open>simp_all add: share_ok_def\<close>)
  then show ?thesis using broker_step_table [OF assms, of op] by (simp add: broker_wf_def list_all_length)
qed

lemma broker_run_wf: "broker_wf b \<Longrightarrow> broker_wf (broker_run ops b)"
  by (induction ops arbitrary: b) (simp_all add: broker_step_wf)

lemma broker_step_refines:
  assumes "broker_wf b" "k < 8"
  shows "broker_shares (broker_step op b) ! k = broker_shares b ! k \<or>
         share_step (broker_shares b ! k) (broker_shares (broker_step op b) ! k)"
  using assms by (cases rule: broker_step_slot [where op = op]) (auto intro: share_step.intros)

definition requested_in :: "broker_op list \<Rightarrow> broker \<Rightarrow> cap_broker_share_t \<Rightarrow> bool" where
  \<comment> \<open>the history contains the request of this share, made while the owner held the capability\<close>
  "requested_in ops b sh \<longleftrightarrow> (\<exists>pre post. ops = pre @
     B_Request (sh_owner_subject_id sh) (sh_recipient_subject_id sh) (sh_capability_id sh) (Some (sh_resource_name sh)) # post \<and>
     cap_holds (br_cap (broker_run pre b)) (sh_owner_subject_id sh) (sh_capability_id sh))"

definition approved_in :: "broker_op list \<Rightarrow> broker \<Rightarrow> cap_broker_share_t \<Rightarrow> bool" where
  \<comment> \<open>... and later its approval by the owner\<close>
  "approved_in ops b sh \<longleftrightarrow> (\<exists>pre post i. ops = pre @ B_Approve (sh_owner_subject_id sh) i # post \<and> requested_in pre b sh)"

lemma requested_in_snoc: "requested_in ops b sh \<Longrightarrow> requested_in (ops @ [op]) b sh"
  by (fastforce simp: requested_in_def)

lemma approved_in_snoc: "approved_in ops b sh \<Longrightarrow> approved_in (ops @ [op]) b sh"
  by (fastforce simp: approved_in_def)

lemma requested_in_state [simp]: "requested_in ops b (sh\<lparr> sh_state := s \<rparr>) = requested_in ops b sh"
  by (simp add: requested_in_def)

lemma approved_in_state [simp]: "approved_in ops b (sh\<lparr> sh_state := s \<rparr>) = approved_in ops b sh"
  by (simp add: approved_in_def)

lemma broker_history:
  assumes "broker_wf b" "\<And>k. k < 8 \<Longrightarrow> sh_state (broker_shares b ! k) = CAP_SHARE_STATE_NONE" "k < 8"
  shows "(sh_state (broker_shares (broker_run ops b) ! k) \<noteq> CAP_SHARE_STATE_NONE \<longrightarrow>
            requested_in ops b (broker_shares (broker_run ops b) ! k)) \<and>
         (sh_state (broker_shares (broker_run ops b) ! k) = CAP_SHARE_STATE_APPROVED \<longrightarrow>
            approved_in ops b (broker_shares (broker_run ops b) ! k))"
proof (induction ops rule: rev_induct)
  case Nil
  show ?case using assms(2,3) by simp
next
  case (snoc op ops)
  let ?b = "broker_run ops b"
  show ?case
    using broker_run_wf [OF assms(1), of ops] assms(3)
  proof (cases rule: broker_step_slot [where op = op])
    case same
    then show ?thesis using snoc requested_in_snoc approved_in_snoc by simp
  next
    case (request ow re c r)
    have "requested_in (ops @ [op]) b (broker_shares (broker_step op ?b) ! k)"
      unfolding requested_in_def using request by (intro exI [of _ ops] exI [of _ "[]"]) simp
    then show ?thesis using request by simp
  next
    case (approve i)
    have "approved_in (ops @ [op]) b (broker_shares ?b ! k)"
      unfolding approved_in_def using approve snoc by (intro exI [of _ ops] exI [of _ "[]"] exI [of _ i]) simp
    then show ?thesis using approve snoc requested_in_snoc by simp
  next
    case deny
    then show ?thesis using snoc requested_in_snoc by simp
  next
    case revoke
    then show ?thesis using snoc requested_in_snoc by simp
  qed
qed

section \<open>Properties\<close>

lemma cap_broker_reset_wf:
  "cap_table_wf (cap_tab (br_cap b)) \<Longrightarrow> broker_wf (cap_broker_reset b)"
  "k < 8 \<Longrightarrow> sh_state (broker_shares (cap_broker_reset b) ! k) = CAP_SHARE_STATE_NONE"
  by (simp_all add: broker_wf_def cap_broker_reset_def list_all_length share_ok_def)

lemma recipient_check_OK:
  assumes "broker_wf b" "cap_broker_recipient_check r c n b = CAP_OK"
  obtains k where "k < 8" "sh_state (broker_shares b ! k) = CAP_SHARE_STATE_APPROVED"
    "sh_recipient_subject_id (broker_shares b ! k) = r" "sh_capability_id (broker_shares b ! k) = c"
    "n = Some (sh_resource_name (broker_shares b ! k))" "cap_holds (br_cap b) r c"
  using assms
  by (auto simp: cap_broker_recipient_check_def broker_wf_def find_idx_Some_iff split: if_splits option.splits)


definition demo_broker :: broker where
  \<comment> \<open>subject 1 may read files, no shares yet\<close>
  "demo_broker = cap_broker_reset
    \<lparr> br_cap = cap_state_boot\<lparr> cap_tab := snd (cap_table_grant 1 CAP_FS_READ cap_boot) \<rparr>, broker_shares = [] \<rparr>"

definition demo_share_ops :: "broker_op list" where
  "demo_share_ops = [B_Request 1 2 CAP_FS_READ (Some ''notes''), B_Request 1 2 CAP_FS_READ (Some ''mail''),
     B_Approve 1 1, B_Approve 1 2]"

lemma demo_broker_facts:
  "cap_table_wf (cap_tab (br_cap demo_broker))" "cap_broker_reset demo_broker = demo_broker"
  "cap_broker_recipient_check 2 CAP_FS_READ (Some ''notes'') (broker_run demo_share_ops demo_broker) = CAP_OK"
  by (simp_all add: demo_broker_def cap_broker_reset_def cap_state_boot_def del: One_nat_def)
    (simp add: demo_share_ops_def cap_boot_def, code_simp)


text \<open>
  C16: Every broker operation moves each share along its life cycle (none, requested, then approved
  or denied, approved to revoked) or leaves it alone, and the owner, recipient, capability and
  resource of a share never change after the request.  A denied or revoked share is final: no
  sequence of operations changes it, so its slot is not used again.
\<close>

theorem cap_broker_lifecycle:
  assumes "broker_wf b" "k < 8"
  shows "(broker_shares (broker_step op b) ! k = broker_shares b ! k \<or>
          share_step (broker_shares b ! k) (broker_shares (broker_step op b) ! k)) \<and>
         broker_wf (broker_step op b) \<and>
         (sh_state (broker_shares b ! k) \<in> {CAP_SHARE_STATE_DENIED, CAP_SHARE_STATE_REVOKED} \<longrightarrow>
          broker_shares (broker_run ops b) ! k = broker_shares b ! k)"
proof -
  have "broker_wf b \<Longrightarrow> sh_state (broker_shares b ! k) \<in> {CAP_SHARE_STATE_DENIED, CAP_SHARE_STATE_REVOKED} \<Longrightarrow>
      broker_shares (broker_run ops b) ! k = broker_shares b ! k"
  proof (induction ops arbitrary: b)
    case (Cons op ops)
    have "broker_shares (broker_step op b) ! k = broker_shares b ! k"
      using broker_step_refines [OF Cons.prems(1) assms(2), of op] Cons.prems(2) by (auto elim!: share_stepE)
    then show ?case using Cons.IH [OF broker_step_wf [OF Cons.prems(1)], of op] Cons.prems(2) by simp
  qed simp
  then show ?thesis using assms broker_step_refines broker_step_wf by blast
qed

theorem cap_broker_lifecycle_witness: "broker_wf (broker_step (B_Approve 2 1) demo_broker)"
  using cap_broker_lifecycle [OF cap_broker_reset_wf(1) [OF demo_broker_facts(1)], of 0 "B_Approve 2 1"]
  by (simp add: demo_broker_facts(2))

text \<open>
  Revocation always wins.  A successful revocation by the owner or the recipient takes the
  capability away from the recipient, and from then on, as long as the recipient is not granted
  the capability anew, the broker's check fails for every resource, also for other shares of the
  same capability to the same recipient that are still marked approved.
\<close>

theorem cap_broker_revoke_wins:
  assumes "broker_wf b" "cap_broker_revoke a i b = (CAP_BROKER_OK, b')"
  defines "sh \<equiv> broker_shares b ! broker_share_at i"
  shows "(a = sh_owner_subject_id sh \<or> a = sh_recipient_subject_id sh) \<and>
         cap_broker_state_for_tests i b' = CAP_SHARE_STATE_REVOKED \<and>
         cap_table_check (sh_recipient_subject_id sh) (sh_capability_id sh) (cap_tab (br_cap b')) \<noteq> CAP_OK \<and>
         cap_broker_recipient_check (sh_recipient_subject_id sh) (sh_capability_id sh) n b' \<noteq> CAP_OK"
  using assms(1,2)
proof (cases rule: cap_broker_revoke_cases)
  case (ok k)
  have w: "cap_table_wf (cap_tab (br_cap b))" and len: "length (broker_shares b) = 8" using assms(1) by (auto simp: broker_wf_def)
  have gone: "cap_table_check (sh_recipient_subject_id sh) (sh_capability_id sh) (cap_tab (br_cap b')) \<noteq> CAP_OK"
    unfolding sh_def using ok(3,8) cap_table_check_revoke [OF w] by simp
  moreover have "cap_broker_recipient_check (sh_recipient_subject_id sh) (sh_capability_id sh) n b' \<noteq> CAP_OK"
    using gone by (auto simp: cap_broker_recipient_check_def split: option.splits)
  ultimately show ?thesis using ok len by (simp add: sh_def cap_broker_state_for_tests_def)
qed simp

theorem cap_broker_revoke_wins_witness:
  "cap_broker_recipient_check 2 CAP_FS_READ (Some ''mail'')
     (broker_run [B_Revoke 2 1] (broker_run demo_share_ops demo_broker)) \<noteq> CAP_OK"
proof -
  let ?b = "broker_run demo_share_ops demo_broker"
  have wf: "broker_wf ?b"
    using broker_run_wf [OF cap_broker_reset_wf(1) [OF demo_broker_facts(1)], of demo_share_ops] by (simp only: demo_broker_facts(2))
  have run: "fst (cap_broker_revoke 2 1 ?b) = CAP_BROKER_OK"
    and sh: "sh_recipient_subject_id (broker_shares ?b ! broker_share_at 1) = 2"
      "sh_capability_id (broker_shares ?b ! broker_share_at 1) = CAP_FS_READ"
    by code_simp+
  have "cap_broker_revoke 2 1 ?b = (CAP_BROKER_OK, snd (cap_broker_revoke 2 1 ?b))" using run by (metis prod.collapse)
  from cap_broker_revoke_wins [OF wf this, of "Some ''mail''"] show ?thesis by (simp add: sh)
qed

end
