(* ===== verification/Workflow_Rule.thy ===== *)
theory Workflow_Rule
  imports Cap_Table
begin

text \<open>
  \<^verbatim>\<open>kernel/cap/workflow_rule.c\<close>: tenant-scoped rules that allow one subject one direction of use
  of one capability, with their own bounded audit log (an array that is shifted down when full) and
  its textual form.
\<close>

section \<open>Data\<close>

type_synonym workflow_tenant_id_t = u32
type_synonym workflow_rule_id_t = u32

datatype workflow_scope_t = WORKFLOW_SCOPE_NONE | WORKFLOW_SCOPE_READ | WORKFLOW_SCOPE_WRITE

datatype workflow_reason_t =
    WORKFLOW_REASON_NONE
  | WORKFLOW_REASON_TENANT_POLICY
  | WORKFLOW_REASON_OPERATOR
  | WORKFLOW_REASON_AUTOMATION

datatype workflow_result_t =
    WORKFLOW_OK
  | WORKFLOW_ERR_MISSING
  | WORKFLOW_ERR_TENANT_INVALID
  | WORKFLOW_ERR_RULE_INVALID
  | WORKFLOW_ERR_SCOPE_INVALID
  | WORKFLOW_ERR_SUBJECT_INVALID
  | WORKFLOW_ERR_CAPABILITY_INVALID
  | WORKFLOW_ERR_REASON_INVALID
  | WORKFLOW_ERR_DUPLICATE
  | WORKFLOW_ERR_NO_SLOT

datatype workflow_audit_op_t =
    WORKFLOW_AUDIT_OP_REGISTER
  | WORKFLOW_AUDIT_OP_EVAL_READ
  | WORKFLOW_AUDIT_OP_EVAL_WRITE

datatype workflow_audit_outcome_t = WORKFLOW_AUDIT_OUTCOME_ALLOW | WORKFLOW_AUDIT_OUTCOME_DENY

record workflow_audit_event_t =
  we_sequence_id :: u64
  we_operation :: workflow_audit_op_t
  we_tenant_id :: workflow_tenant_id_t
  we_rule_id :: workflow_rule_id_t
  we_scope_requested :: workflow_scope_t
  we_subject_id :: cap_subject_id_t
  we_capability_id :: capability_id_t
  we_reason :: workflow_reason_t
  we_result :: workflow_result_t
  we_outcome :: workflow_audit_outcome_t

record workflow_rule_slot_t =
  wr_in_use :: bool
  wr_tenant_id :: workflow_tenant_id_t
  wr_rule_id :: workflow_rule_id_t
  wr_scope :: workflow_scope_t
  wr_subject_id :: cap_subject_id_t
  wr_capability_id :: capability_id_t
  wr_reason :: workflow_reason_t

record workflow =
  g_rules :: "workflow_rule_slot_t list"
  g_audit_ring :: "workflow_audit_event_t list"
  g_audit_count :: nat
  g_audit_dropped :: u64
  g_audit_next_sequence :: u64

abbreviation "WORKFLOW_RULE_MAX_RULES \<equiv> (16 :: nat)"
abbreviation "WORKFLOW_AUDIT_EVENT_MAX \<equiv> (32 :: nat)"
abbreviation "WORKFLOW_RULE_TENANT_INVALID \<equiv> (0 :: workflow_tenant_id_t)"
abbreviation "WORKFLOW_RULE_ID_INVALID \<equiv> (0 :: workflow_rule_id_t)"

section \<open>Rules\<close>

definition scope_is_directional :: "workflow_scope_t \<Rightarrow> bool" where
  "scope_is_directional scope \<longleftrightarrow> scope = WORKFLOW_SCOPE_READ \<or> scope = WORKFLOW_SCOPE_WRITE"

fun reason_is_valid :: "workflow_reason_t \<Rightarrow> bool" where
  "reason_is_valid WORKFLOW_REASON_TENANT_POLICY = True"
| "reason_is_valid WORKFLOW_REASON_OPERATOR = True"
| "reason_is_valid WORKFLOW_REASON_AUTOMATION = True"
| "reason_is_valid WORKFLOW_REASON_NONE = False"

definition capability_is_known :: "capability_id_t \<Rightarrow> bool" where
  "capability_is_known cap \<longleftrightarrow> cap \<in> set [CAP_CONSOLE_WRITE, CAP_SERIAL_WRITE, CAP_DEBUG_EXIT,
     CAP_CAPABILITY_ADMIN, CAP_DISK_IO_REQUEST, CAP_FS_READ, CAP_FS_WRITE, CAP_EVENT_SUBSCRIBE,
     CAP_EVENT_PUBLISH, CAP_APP_EXEC, CAP_CODESIGN_BYPASS, CAP_NETWORK, CAP_IPC_SEND, CAP_IPC_RECV,
     CAP_SYSCALL]"

definition find_slot_for_tenant ::
  "workflow_tenant_id_t \<Rightarrow> workflow_rule_id_t \<Rightarrow> workflow_rule_slot_t list \<Rightarrow> nat option" where
  "find_slot_for_tenant tenant_id rule_id rules =
     find_idx (\<lambda>slot. wr_in_use slot \<and> wr_tenant_id slot = tenant_id \<and> wr_rule_id slot = rule_id) rules"

definition find_free_slot :: "workflow_rule_slot_t list \<Rightarrow> nat option" where
  "find_free_slot rules = find_idx (\<lambda>slot. \<not> wr_in_use slot) rules"

definition result_to_outcome :: "workflow_result_t \<Rightarrow> workflow_audit_outcome_t" where
  "result_to_outcome result =
     (if result = WORKFLOW_OK then WORKFLOW_AUDIT_OUTCOME_ALLOW else WORKFLOW_AUDIT_OUTCOME_DENY)"

definition audit_record ::
  "workflow_audit_op_t \<Rightarrow> workflow_tenant_id_t \<Rightarrow> workflow_rule_id_t \<Rightarrow> workflow_scope_t \<Rightarrow> cap_subject_id_t \<Rightarrow>
   capability_id_t \<Rightarrow> workflow_reason_t \<Rightarrow> workflow_result_t \<Rightarrow> workflow \<Rightarrow> workflow" where
  "audit_record operation tenant rule scope subject cap reason result w =
    (let event = \<lparr> we_sequence_id = g_audit_next_sequence w, we_operation = operation, we_tenant_id = tenant,
           we_rule_id = rule, we_scope_requested = scope, we_subject_id = subject, we_capability_id = cap,
           we_reason = reason, we_result = result, we_outcome = result_to_outcome result \<rparr>;
         w = w\<lparr> g_audit_next_sequence := g_audit_next_sequence w + 1 \<rparr>
     in if g_audit_count w < WORKFLOW_AUDIT_EVENT_MAX
        then w\<lparr> g_audit_ring := (g_audit_ring w)[g_audit_count w := event], g_audit_count := g_audit_count w + 1 \<rparr>
        else let ring = fold (\<lambda>i ring. ring[i - 1 := ring ! i]) [1..<WORKFLOW_AUDIT_EVENT_MAX] (g_audit_ring w);
                 ring = ring[WORKFLOW_AUDIT_EVENT_MAX - 1 := event]
             in w\<lparr> g_audit_ring := ring, g_audit_dropped := g_audit_dropped w + 1 \<rparr>)"

definition workflow_empty_slot :: workflow_rule_slot_t where
  "workflow_empty_slot = \<lparr> wr_in_use = False, wr_tenant_id = 0, wr_rule_id = 0, wr_scope = WORKFLOW_SCOPE_NONE,
     wr_subject_id = 0, wr_capability_id = 0, wr_reason = WORKFLOW_REASON_NONE \<rparr>"

definition workflow_zero_event :: workflow_audit_event_t where
  "workflow_zero_event = \<lparr> we_sequence_id = 0, we_operation = WORKFLOW_AUDIT_OP_REGISTER, we_tenant_id = 0,
     we_rule_id = 0, we_scope_requested = WORKFLOW_SCOPE_NONE, we_subject_id = 0, we_capability_id = 0,
     we_reason = WORKFLOW_REASON_NONE, we_result = WORKFLOW_OK, we_outcome = WORKFLOW_AUDIT_OUTCOME_ALLOW \<rparr>"

definition workflow_rule_reset_for_tests :: workflow where
  "workflow_rule_reset_for_tests =
     \<lparr> g_rules = replicate WORKFLOW_RULE_MAX_RULES workflow_empty_slot,
       g_audit_ring = replicate WORKFLOW_AUDIT_EVENT_MAX workflow_zero_event,
       g_audit_count = 0, g_audit_dropped = 0, g_audit_next_sequence = 0 \<rparr>"

definition workflow_rule_register ::
  "workflow_tenant_id_t \<Rightarrow> workflow_rule_id_t \<Rightarrow> workflow_scope_t \<Rightarrow> cap_subject_id_t \<Rightarrow> capability_id_t \<Rightarrow>
   workflow_reason_t \<Rightarrow> workflow \<Rightarrow> workflow_result_t \<times> workflow" where
  "workflow_rule_register tenant rule scope subject cap reason w =
    (let deny = (\<lambda>e. (e, audit_record WORKFLOW_AUDIT_OP_REGISTER tenant rule scope subject cap reason e w)) in
     if tenant = WORKFLOW_RULE_TENANT_INVALID then deny WORKFLOW_ERR_TENANT_INVALID
     else if rule = WORKFLOW_RULE_ID_INVALID then deny WORKFLOW_ERR_RULE_INVALID
     else if \<not> scope_is_directional scope then deny WORKFLOW_ERR_SCOPE_INVALID
     else if subject = 0 then deny WORKFLOW_ERR_SUBJECT_INVALID
     else if \<not> capability_is_known cap then deny WORKFLOW_ERR_CAPABILITY_INVALID
     else if \<not> reason_is_valid reason then deny WORKFLOW_ERR_REASON_INVALID
     else if find_slot_for_tenant tenant rule (g_rules w) \<noteq> None then deny WORKFLOW_ERR_DUPLICATE
     else case find_free_slot (g_rules w) of
       None \<Rightarrow> deny WORKFLOW_ERR_NO_SLOT
     | Some i \<Rightarrow>
        (WORKFLOW_OK,
         audit_record WORKFLOW_AUDIT_OP_REGISTER tenant rule scope subject cap reason WORKFLOW_OK
           (w\<lparr> g_rules := (g_rules w)[i :=
              \<lparr> wr_in_use = True, wr_tenant_id = tenant, wr_rule_id = rule, wr_scope = scope,
                wr_subject_id = subject, wr_capability_id = cap, wr_reason = reason \<rparr>] \<rparr>)))"

definition eval_locked ::
  "workflow_audit_op_t \<Rightarrow> workflow_scope_t \<Rightarrow> workflow_tenant_id_t \<Rightarrow> workflow_rule_id_t \<Rightarrow> cap_subject_id_t \<Rightarrow>
   capability_id_t \<Rightarrow> workflow \<Rightarrow> workflow_result_t \<times> workflow" where
  "eval_locked audit_op scope tenant rule subject cap w =
    (let answer = (\<lambda>reason result. (result, audit_record audit_op tenant rule scope subject cap reason result w)) in
     if tenant = WORKFLOW_RULE_TENANT_INVALID \<or> rule = WORKFLOW_RULE_ID_INVALID \<or>
        \<not> scope_is_directional scope \<or> subject = 0 \<or> \<not> capability_is_known cap
     then answer WORKFLOW_REASON_NONE WORKFLOW_ERR_MISSING
     else case find_slot_for_tenant tenant rule (g_rules w) of
       None \<Rightarrow> answer WORKFLOW_REASON_NONE WORKFLOW_ERR_MISSING
     | Some i \<Rightarrow>
        let slot = g_rules w ! i in
        if wr_scope slot \<noteq> scope \<or> wr_subject_id slot \<noteq> subject \<or> wr_capability_id slot \<noteq> cap
        then answer (wr_reason slot) WORKFLOW_ERR_MISSING
        else answer (wr_reason slot) WORKFLOW_OK)"

definition workflow_rule_eval_read ::
  "workflow_tenant_id_t \<Rightarrow> workflow_rule_id_t \<Rightarrow> cap_subject_id_t \<Rightarrow> capability_id_t \<Rightarrow> workflow \<Rightarrow>
   workflow_result_t \<times> workflow" where
  "workflow_rule_eval_read = eval_locked WORKFLOW_AUDIT_OP_EVAL_READ WORKFLOW_SCOPE_READ"

definition workflow_rule_eval_write ::
  "workflow_tenant_id_t \<Rightarrow> workflow_rule_id_t \<Rightarrow> cap_subject_id_t \<Rightarrow> capability_id_t \<Rightarrow> workflow \<Rightarrow>
   workflow_result_t \<times> workflow" where
  "workflow_rule_eval_write = eval_locked WORKFLOW_AUDIT_OP_EVAL_WRITE WORKFLOW_SCOPE_WRITE"

definition workflow_audit_count_for_tests :: "workflow \<Rightarrow> nat" where
  "workflow_audit_count_for_tests w = g_audit_count w"

definition workflow_audit_dropped_for_tests :: "workflow \<Rightarrow> u64" where
  "workflow_audit_dropped_for_tests w = g_audit_dropped w"

definition workflow_audit_get_for_tests ::
  "nat \<Rightarrow> bool \<Rightarrow> workflow \<Rightarrow> workflow_result_t \<times> workflow_audit_event_t option" where
  "workflow_audit_get_for_tests index out_event w =
    (if \<not> out_event then (WORKFLOW_ERR_MISSING, None)
     else if index \<ge> g_audit_count w then (WORKFLOW_ERR_MISSING, None)
     else (WORKFLOW_OK, Some (g_audit_ring w ! index)))"

section \<open>Textual form\<close>

fun audit_op_name :: "workflow_audit_op_t \<Rightarrow> string" where
  "audit_op_name WORKFLOW_AUDIT_OP_REGISTER = ''REGISTER''"
| "audit_op_name WORKFLOW_AUDIT_OP_EVAL_READ = ''EVAL_READ''"
| "audit_op_name WORKFLOW_AUDIT_OP_EVAL_WRITE = ''EVAL_WRITE''"

fun scope_name :: "workflow_scope_t \<Rightarrow> string" where
  "scope_name WORKFLOW_SCOPE_NONE = ''NONE''"
| "scope_name WORKFLOW_SCOPE_READ = ''READ''"
| "scope_name WORKFLOW_SCOPE_WRITE = ''WRITE''"

fun reason_name :: "workflow_reason_t \<Rightarrow> string" where
  "reason_name WORKFLOW_REASON_NONE = ''NONE''"
| "reason_name WORKFLOW_REASON_TENANT_POLICY = ''TENANT_POLICY''"
| "reason_name WORKFLOW_REASON_OPERATOR = ''OPERATOR''"
| "reason_name WORKFLOW_REASON_AUTOMATION = ''AUTOMATION''"

fun result_name :: "workflow_result_t \<Rightarrow> string" where
  "result_name WORKFLOW_OK = ''OK''"
| "result_name WORKFLOW_ERR_MISSING = ''MISSING''"
| "result_name WORKFLOW_ERR_TENANT_INVALID = ''TENANT_INVALID''"
| "result_name WORKFLOW_ERR_RULE_INVALID = ''RULE_INVALID''"
| "result_name WORKFLOW_ERR_SCOPE_INVALID = ''SCOPE_INVALID''"
| "result_name WORKFLOW_ERR_SUBJECT_INVALID = ''SUBJECT_INVALID''"
| "result_name WORKFLOW_ERR_CAPABILITY_INVALID = ''CAPABILITY_INVALID''"
| "result_name WORKFLOW_ERR_REASON_INVALID = ''REASON_INVALID''"
| "result_name WORKFLOW_ERR_DUPLICATE = ''DUPLICATE''"
| "result_name WORKFLOW_ERR_NO_SLOT = ''NO_SLOT''"

fun outcome_name :: "workflow_audit_outcome_t \<Rightarrow> string" where
  "outcome_name WORKFLOW_AUDIT_OUTCOME_ALLOW = ''ALLOW''"
| "outcome_name WORKFLOW_AUDIT_OUTCOME_DENY = ''DENY''"

definition u64_emit :: "u64 \<Rightarrow> nat \<Rightarrow> string \<Rightarrow> string option" where
  "u64_emit v buf_size out =
    (let tmp = (if v = 0 then ''0'' else u64_digit_loop 24 v)
     in if length out + length tmp \<ge> buf_size then None else Some (out @ rev tmp))"

definition str_emit :: "string \<Rightarrow> nat \<Rightarrow> string \<Rightarrow> string option" where
  "str_emit s buf_size out = (if length out + length s \<ge> buf_size then None else Some (out @ s))"

definition workflow_audit_format_event :: "workflow_audit_event_t option \<Rightarrow> bool \<Rightarrow> nat \<Rightarrow> string option" where
  "workflow_audit_format_event event buf buf_size =
    (case event of
       None \<Rightarrow> None
     | Some e \<Rightarrow>
        if \<not> buf \<or> buf_size = 0 then None
        else fold (\<lambda>emit out. Option.bind out (emit buf_size))
          [str_emit ''WORKFLOW_AUDIT:seq='', u64_emit (we_sequence_id e),
           str_emit '':op='', str_emit (audit_op_name (we_operation e)),
           str_emit '':tenant='', u64_emit (ucast (we_tenant_id e)),
           str_emit '':rule='', u64_emit (ucast (we_rule_id e)),
           str_emit '':scope='', str_emit (scope_name (we_scope_requested e)),
           str_emit '':subject='', u64_emit (ucast (we_subject_id e)),
           str_emit '':cap='', u64_emit (ucast (we_capability_id e)),
           str_emit '':reason='', str_emit (reason_name (we_reason e)),
           str_emit '':result='', str_emit (result_name (we_result e)),
           str_emit '':outcome='', str_emit (outcome_name (we_outcome e))] (Some []))"

section \<open>Histories\<close>

datatype workflow_op =
    W_Register workflow_tenant_id_t workflow_rule_id_t workflow_scope_t cap_subject_id_t capability_id_t workflow_reason_t
  | W_Eval_Read workflow_tenant_id_t workflow_rule_id_t cap_subject_id_t capability_id_t
  | W_Eval_Write workflow_tenant_id_t workflow_rule_id_t cap_subject_id_t capability_id_t

fun workflow_step :: "workflow_op \<Rightarrow> workflow \<Rightarrow> workflow_result_t \<times> workflow" where
  "workflow_step (W_Register t r sc s c re) w = workflow_rule_register t r sc s c re w"
| "workflow_step (W_Eval_Read t r s c) w = workflow_rule_eval_read t r s c w"
| "workflow_step (W_Eval_Write t r s c) w = workflow_rule_eval_write t r s c w"

fun workflow_op_tenant :: "workflow_op \<Rightarrow> workflow_tenant_id_t" where
  "workflow_op_tenant (W_Register t r sc s c re) = t"
| "workflow_op_tenant (W_Eval_Read t r s c) = t"
| "workflow_op_tenant (W_Eval_Write t r s c) = t"

abbreviation workflow_run :: "workflow_op list \<Rightarrow> workflow \<Rightarrow> workflow" where
  "workflow_run ops w \<equiv> fold (\<lambda>op w. snd (workflow_step op w)) ops w"

type_synonym workflow_rule = "workflow_tenant_id_t \<times> workflow_rule_id_t \<times> workflow_scope_t \<times> cap_subject_id_t \<times> capability_id_t"

definition rule_of :: "workflow_rule_slot_t \<Rightarrow> workflow_rule" where
  "rule_of sl = (wr_tenant_id sl, wr_rule_id sl, wr_scope sl, wr_subject_id sl, wr_capability_id sl)"

definition rules_of :: "workflow \<Rightarrow> workflow_rule set" where
  "rules_of w = rule_of ` {sl \<in> set (g_rules w). wr_in_use sl}"

definition rule_added :: "workflow_op \<Rightarrow> workflow \<Rightarrow> workflow_rule set" where
  \<comment> \<open>the rule a call adds: that of a registration which succeeds\<close>
  "rule_added op w =
    (case op of W_Register t r sc s c re \<Rightarrow>
       if fst (workflow_rule_register t r sc s c re w) = WORKFLOW_OK then {(t, r, sc, s, c)} else {}
     | _ \<Rightarrow> {})"

definition registered_in :: "workflow_op list \<Rightarrow> workflow \<Rightarrow> workflow_rule set" where
  \<comment> \<open>the rules whose registration succeeded somewhere in the history\<close>
  "registered_in ops w = (\<Union>k<length ops. rule_added (ops ! k) (workflow_run (take k ops) w))"

definition rule_valid :: "workflow_rule \<Rightarrow> bool" where
  "rule_valid = (\<lambda>(t, r, sc, s, c). t \<noteq> 0 \<and> r \<noteq> 0 \<and> scope_is_directional sc \<and> s \<noteq> 0 \<and> capability_is_known c)"

definition workflow_wf :: "workflow \<Rightarrow> bool" where
  "workflow_wf w \<longleftrightarrow> length (g_rules w) = 16 \<and> length (g_audit_ring w) = 32 \<and> g_audit_count w \<le> 32 \<and>
     (\<forall>i<16. wr_in_use (g_rules w ! i) \<longrightarrow> rule_valid (rule_of (g_rules w ! i)) \<and>
        (\<forall>j<16. wr_in_use (g_rules w ! j) \<and> wr_tenant_id (g_rules w ! j) = wr_tenant_id (g_rules w ! i) \<and>
           wr_rule_id (g_rules w ! j) = wr_rule_id (g_rules w ! i) \<longrightarrow> j = i))"

section \<open>Lemmas: rules\<close>

lemma audit_record_rules [simp]: "g_rules (audit_record op t r sc s c re res w) = g_rules w"
  by (simp add: audit_record_def Let_def)

lemma eval_locked_rules [simp]: "g_rules (snd (eval_locked op sc t r s c w)) = g_rules w"
  by (simp add: eval_locked_def Let_def split: option.splits)

lemma rules_of_iff:
  "length (g_rules w) = 16 \<Longrightarrow> x \<in> rules_of w \<longleftrightarrow> (\<exists>i<16. wr_in_use (g_rules w ! i) \<and> rule_of (g_rules w ! i) = x)"
  by (auto simp: rules_of_def in_set_conv_nth image_iff)

lemma find_slot_for_tenant_Some:
  "find_slot_for_tenant t r rules = Some i \<Longrightarrow>
   i < length rules \<and> wr_in_use (rules ! i) \<and> wr_tenant_id (rules ! i) = t \<and> wr_rule_id (rules ! i) = r"
  by (auto simp: find_slot_for_tenant_def find_idx_Some_iff)

lemma find_slot_for_tenant_None:
  "find_slot_for_tenant t r rules = None \<longleftrightarrow>
   (\<forall>i<length rules. wr_in_use (rules ! i) \<longrightarrow> \<not> (wr_tenant_id (rules ! i) = t \<and> wr_rule_id (rules ! i) = r))"
  by (auto simp: find_slot_for_tenant_def find_idx_None_iff)

lemma workflow_wfD:
  assumes "workflow_wf w"
  shows "length (g_rules w) = 16"
    and "i < 16 \<Longrightarrow> wr_in_use (g_rules w ! i) \<Longrightarrow> rule_valid (rule_of (g_rules w ! i))"
    and "i < 16 \<Longrightarrow> j < 16 \<Longrightarrow> wr_in_use (g_rules w ! i) \<Longrightarrow> wr_in_use (g_rules w ! j) \<Longrightarrow>
      wr_tenant_id (g_rules w ! j) = wr_tenant_id (g_rules w ! i) \<Longrightarrow>
      wr_rule_id (g_rules w ! j) = wr_rule_id (g_rules w ! i) \<Longrightarrow> j = i"
  using assms by (auto simp: workflow_wf_def)

lemma eval_locked_result:
  assumes "workflow_wf w"
  shows "fst (eval_locked op sc t r s c w) = (if (t, r, sc, s, c) \<in> rules_of w then WORKFLOW_OK else WORKFLOW_ERR_MISSING)"
proof (cases "rule_valid (t, r, sc, s, c)")
  case False
  then have "(t, r, sc, s, c) \<notin> rules_of w"
    unfolding rules_of_iff [OF workflow_wfD(1) [OF assms]] using workflow_wfD(2) [OF assms] by metis
  then show ?thesis using False by (auto simp: eval_locked_def Let_def rule_valid_def)
next
  case True
  note len = workflow_wfD(1) [OF assms]
  show ?thesis
  proof (cases "find_slot_for_tenant t r (g_rules w)")
    case None
    then have "(t, r, sc, s, c) \<notin> rules_of w"
      by (auto simp: rules_of_iff [OF len] rule_of_def find_slot_for_tenant_None len)
    then show ?thesis using None True by (simp add: eval_locked_def Let_def rule_valid_def)
  next
    case (Some i)
    note i = find_slot_for_tenant_Some [OF Some, unfolded len]
    have "(t, r, sc, s, c) \<in> rules_of w \<longleftrightarrow> rule_of (g_rules w ! i) = (t, r, sc, s, c)"
    proof
      assume "(t, r, sc, s, c) \<in> rules_of w"
      then obtain j where j: "j < 16" "wr_in_use (g_rules w ! j)" "rule_of (g_rules w ! j) = (t, r, sc, s, c)"
        by (auto simp: rules_of_iff [OF len])
      then have "j = i" using workflow_wfD(3) [OF assms, of i j] i by (simp add: rule_of_def)
      then show "rule_of (g_rules w ! i) = (t, r, sc, s, c)" using j by simp
    qed (use i in \<open>auto simp: rules_of_iff [OF len]\<close>)
    then show ?thesis using Some True i by (simp add: eval_locked_def Let_def rule_valid_def rule_of_def)
  qed
qed

lemma workflow_register_cases:
  assumes "workflow_rule_register t r sc s c re w = (res, w')"
  obtains (failed) "res \<noteq> WORKFLOW_OK" "g_rules w' = g_rules w"
  | (ok) i where "res = WORKFLOW_OK" "rule_valid (t, r, sc, s, c)" "i < length (g_rules w)" "\<not> wr_in_use (g_rules w ! i)"
      "find_slot_for_tenant t r (g_rules w) = None"
      "g_rules w' = (g_rules w)[i := \<lparr> wr_in_use = True, wr_tenant_id = t, wr_rule_id = r, wr_scope = sc,
                wr_subject_id = s, wr_capability_id = c, wr_reason = re \<rparr>]"
proof (cases "rule_valid (t, r, sc, s, c) \<and> reason_is_valid re \<and> find_slot_for_tenant t r (g_rules w) = None")
  case True
  show thesis
  proof (cases "find_free_slot (g_rules w)")
    case None
    then show thesis using assms True by (intro failed) (auto simp: workflow_rule_register_def Let_def rule_valid_def)
  next
    case (Some i)
    then have "i < length (g_rules w)" "\<not> wr_in_use (g_rules w ! i)" by (auto simp: find_free_slot_def find_idx_Some_iff)
    then show thesis using assms True Some by (intro ok [of i]) (auto simp: workflow_rule_register_def Let_def rule_valid_def)
  qed
next
  case False
  then show thesis
    using assms by (intro failed) (auto simp: workflow_rule_register_def Let_def rule_valid_def split: if_splits)
qed

lemma workflow_register_step:
  assumes "workflow_wf w" "workflow_rule_register t r sc s c re w = (res, w')"
  shows "rules_of w' = (if res = WORKFLOW_OK then insert (t, r, sc, s, c) (rules_of w) else rules_of w)"
    and "length (g_rules w') = 16 \<and> (\<forall>i<16. wr_in_use (g_rules w' ! i) \<longrightarrow> rule_valid (rule_of (g_rules w' ! i)) \<and>
        (\<forall>j<16. wr_in_use (g_rules w' ! j) \<and> wr_tenant_id (g_rules w' ! j) = wr_tenant_id (g_rules w' ! i) \<and>
           wr_rule_id (g_rules w' ! j) = wr_rule_id (g_rules w' ! i) \<longrightarrow> j = i))"
proof -
  note len = workflow_wfD(1) [OF assms(1)]
  have "rules_of w' = (if res = WORKFLOW_OK then insert (t, r, sc, s, c) (rules_of w) else rules_of w) \<and>
    length (g_rules w') = 16 \<and> (\<forall>i<16. wr_in_use (g_rules w' ! i) \<longrightarrow> rule_valid (rule_of (g_rules w' ! i)) \<and>
        (\<forall>j<16. wr_in_use (g_rules w' ! j) \<and> wr_tenant_id (g_rules w' ! j) = wr_tenant_id (g_rules w' ! i) \<and>
           wr_rule_id (g_rules w' ! j) = wr_rule_id (g_rules w' ! i) \<longrightarrow> j = i))"
    using assms(2)
  proof (cases rule: workflow_register_cases)
    case failed
    then show ?thesis using assms(1) by (simp add: rules_of_def workflow_wf_def)
  next
    case (ok k)
    let ?sl = "\<lparr> wr_in_use = True, wr_tenant_id = t, wr_rule_id = r, wr_scope = sc,
                wr_subject_id = s, wr_capability_id = c, wr_reason = re \<rparr>"
    have k: "k < 16" using ok(3) len by simp
    have nth: "g_rules w' ! i = (if i = k then ?sl else g_rules w ! i)" if "i < 16" for i
      using ok(6) k len by (simp add: nth_list_update)
    have len': "length (g_rules w') = 16" using ok(6) len by simp
    have fresh: "\<not> (wr_tenant_id (g_rules w ! i) = t \<and> wr_rule_id (g_rules w ! i) = r)" if "i < 16" "wr_in_use (g_rules w ! i)" for i
      using ok(5) that len by (auto simp: find_slot_for_tenant_None)
    have set_eq: "x \<in> rules_of w' \<longleftrightarrow> x = (t, r, sc, s, c) \<or> x \<in> rules_of w" for x
    proof -
      have new: "rule_of ?sl = (t, r, sc, s, c)" by (simp add: rule_of_def)
      show ?thesis
        unfolding rules_of_iff [OF len'] rules_of_iff [OF len] using nth k new ok(4)
        by (metis (full_types) workflow_rule_slot_t.select_convs(1))
    qed
    have inv: "rule_valid (rule_of (g_rules w' ! i))" if "i < 16" "wr_in_use (g_rules w' ! i)" for i
      using nth [OF that(1)] workflow_wfD(2) [OF assms(1) that(1)] that ok(2) by (cases "i = k") (simp_all add: rule_of_def)
    have uniq: "j = i" if ij: "i < 16" "j < 16" "wr_in_use (g_rules w' ! i)" "wr_in_use (g_rules w' ! j)"
      "wr_tenant_id (g_rules w' ! j) = wr_tenant_id (g_rules w' ! i)" "wr_rule_id (g_rules w' ! j) = wr_rule_id (g_rules w' ! i)" for i j
      using ij nth [OF ij(1)] nth [OF ij(2)] fresh [OF ij(1)] fresh [OF ij(2)] workflow_wfD(3) [OF assms(1) ij(1,2)]
      by (cases "i = k"; cases "j = k") simp_all
    have "rules_of w' = insert (t, r, sc, s, c) (rules_of w)" using set_eq by blast
    then show ?thesis using len' inv uniq ok(1) by simp
  qed
  then show "rules_of w' = (if res = WORKFLOW_OK then insert (t, r, sc, s, c) (rules_of w) else rules_of w)"
    and "length (g_rules w') = 16 \<and> (\<forall>i<16. wr_in_use (g_rules w' ! i) \<longrightarrow> rule_valid (rule_of (g_rules w' ! i)) \<and>
        (\<forall>j<16. wr_in_use (g_rules w' ! j) \<and> wr_tenant_id (g_rules w' ! j) = wr_tenant_id (g_rules w' ! i) \<and>
           wr_rule_id (g_rules w' ! j) = wr_rule_id (g_rules w' ! i) \<longrightarrow> j = i))"
    by blast+
qed

section \<open>Lemmas: the shifted log\<close>

lemma shift_loop:
  "m < length xs \<Longrightarrow>
   fold (\<lambda>i xs. xs[i - 1 := xs ! i]) [1..<Suc m] xs = map (\<lambda>i. if i < m then xs ! Suc i else xs ! i) [0..<length xs]"
proof (induction m)
  case 0
  show ?case by (simp add: map_nth)
next
  case (Suc m)
  then show ?case by (auto simp: less_Suc_eq nth_list_update intro!: nth_equalityI)
qed

lemma shift_append:
  assumes "length xs = 32"
  shows "(fold (\<lambda>i ring. ring[i - 1 := ring ! i]) [1..<32] xs)[31 := x] = tl xs @ [x]"
proof -
  have "fold (\<lambda>i ring. ring[i - 1 := ring ! i]) [1..<Suc 31] xs =
      map (\<lambda>i. if i < 31 then xs ! Suc i else xs ! i) [0..<length xs]"
    using assms by (intro shift_loop) simp
  then have "fold (\<lambda>i ring. ring[i - 1 := ring ! i]) [1..<32] xs =
      map (\<lambda>i. if i < 31 then xs ! Suc i else xs ! i) [0..<length xs]"
    by (simp only: Suc_numeral semiring_norm)
  then show ?thesis
    using assms by (auto simp: nth_tl nth_append nth_list_update intro!: nth_equalityI simp del: upt_Suc)
qed

type_synonym workflow_call =
  "workflow_audit_op_t \<times> workflow_tenant_id_t \<times> workflow_rule_id_t \<times> workflow_scope_t \<times> cap_subject_id_t \<times>
   capability_id_t \<times> workflow_reason_t \<times> workflow_result_t"

definition workflow_log :: "workflow \<Rightarrow> workflow_audit_event_t list" where
  "workflow_log w = take (g_audit_count w) (g_audit_ring w)"

lemma audit_record_log:
  assumes "length (g_audit_ring w) = 32" "g_audit_count w \<le> 32"
  shows "workflow_log (audit_record op t r sc s c re res w) =
      keep_last 32 (workflow_log w @ [\<lparr> we_sequence_id = g_audit_next_sequence w, we_operation = op, we_tenant_id = t,
           we_rule_id = r, we_scope_requested = sc, we_subject_id = s, we_capability_id = c,
           we_reason = re, we_result = res, we_outcome = result_to_outcome res \<rparr>])"
    and "length (g_audit_ring (audit_record op t r sc s c re res w)) = 32"
    and "g_audit_count (audit_record op t r sc s c re res w) = min (g_audit_count w + 1) 32"
    and "g_audit_next_sequence (audit_record op t r sc s c re res w) = g_audit_next_sequence w + 1"
    and "g_audit_dropped (audit_record op t r sc s c re res w) =
      (if g_audit_count w < 32 then g_audit_dropped w else g_audit_dropped w + 1)"
proof -
  have tl: "length (tl (g_audit_ring w)) = 31" using assms(1) by simp
  show "workflow_log (audit_record op t r sc s c re res w) =
      keep_last 32 (workflow_log w @ [\<lparr> we_sequence_id = g_audit_next_sequence w, we_operation = op, we_tenant_id = t,
           we_rule_id = r, we_scope_requested = sc, we_subject_id = s, we_capability_id = c,
           we_reason = re, we_result = res, we_outcome = result_to_outcome res \<rparr>])"
  proof (cases "g_audit_count w < 32")
    case True
    then show ?thesis using assms by (simp add: audit_record_def Let_def workflow_log_def take_Suc_conv_app_nth)
  next
    case False
    then have c: "g_audit_count w = 32" using assms(2) by simp
    have sh: "(fold (\<lambda>i ring. ring[i - 1 := ring ! i]) [1..<32] (g_audit_ring w))[31 := x] = tl (g_audit_ring w) @ [x]" for x
      using assms(1) by (rule shift_append)
    show ?thesis
      using c assms(1) tl unfolding audit_record_def Let_def workflow_log_def
      by (simp add: sh keep_last_snoc_full del: upt_Suc One_nat_def)
  qed
  show "length (g_audit_ring (audit_record op t r sc s c re res w)) = 32"
  proof -
    have keep: "length (fold (\<lambda>i ring. ring[i - 1 := ring ! i]) is xs) = length xs" for "is" and xs :: "'a list"
      by (induction "is" arbitrary: xs) simp_all
    show ?thesis using assms unfolding audit_record_def Let_def by (simp add: keep del: upt_Suc One_nat_def)
  qed
qed (use assms in \<open>auto simp: audit_record_def Let_def\<close>)

section \<open>Lemmas: histories\<close>

fun workflow_op_event :: "workflow_op \<Rightarrow> workflow_reason_t \<Rightarrow> workflow_result_t \<Rightarrow> u64 \<Rightarrow> workflow_audit_event_t" where
  "workflow_op_event (W_Register t r sc s c re) re' res q =
     \<lparr> we_sequence_id = q, we_operation = WORKFLOW_AUDIT_OP_REGISTER, we_tenant_id = t, we_rule_id = r,
       we_scope_requested = sc, we_subject_id = s, we_capability_id = c, we_reason = re, we_result = res,
       we_outcome = result_to_outcome res \<rparr>"
| "workflow_op_event (W_Eval_Read t r s c) re' res q =
     \<lparr> we_sequence_id = q, we_operation = WORKFLOW_AUDIT_OP_EVAL_READ, we_tenant_id = t, we_rule_id = r,
       we_scope_requested = WORKFLOW_SCOPE_READ, we_subject_id = s, we_capability_id = c, we_reason = re', we_result = res,
       we_outcome = result_to_outcome res \<rparr>"
| "workflow_op_event (W_Eval_Write t r s c) re' res q =
     \<lparr> we_sequence_id = q, we_operation = WORKFLOW_AUDIT_OP_EVAL_WRITE, we_tenant_id = t, we_rule_id = r,
       we_scope_requested = WORKFLOW_SCOPE_WRITE, we_subject_id = s, we_capability_id = c, we_reason = re', we_result = res,
       we_outcome = result_to_outcome res \<rparr>"

lemma eval_locked_record:
  "\<exists>re. snd (eval_locked op sc t r s c w) = audit_record op t r sc s c re (fst (eval_locked op sc t r s c w)) w"
  by (auto simp: eval_locked_def Let_def split: option.splits)

lemma workflow_register_record:
  "\<exists>u. snd (workflow_rule_register t r sc s c re w) =
     audit_record WORKFLOW_AUDIT_OP_REGISTER t r sc s c re (fst (workflow_rule_register t r sc s c re w)) u \<and>
     g_audit_ring u = g_audit_ring w \<and> g_audit_count u = g_audit_count w \<and>
     g_audit_next_sequence u = g_audit_next_sequence w \<and> g_audit_dropped u = g_audit_dropped w"
  unfolding workflow_rule_register_def Let_def
  by (cases "find_free_slot (g_rules w)") (fastforce+)

lemma workflow_step_log:
  assumes "length (g_audit_ring w) = 32" "g_audit_count w \<le> 32"
  obtains re where "workflow_log (snd (workflow_step op w)) =
      keep_last 32 (workflow_log w @ [workflow_op_event op re (fst (workflow_step op w)) (g_audit_next_sequence w)])"
    and "length (g_audit_ring (snd (workflow_step op w))) = 32"
    and "g_audit_count (snd (workflow_step op w)) = min (g_audit_count w + 1) 32"
    and "g_audit_next_sequence (snd (workflow_step op w)) = g_audit_next_sequence w + 1"
    and "g_audit_dropped (snd (workflow_step op w)) = (if g_audit_count w < 32 then g_audit_dropped w else g_audit_dropped w + 1)"
proof (cases op)
  case op: (W_Register t r sc s c re)
  obtain u where u: "snd (workflow_rule_register t r sc s c re w) =
     audit_record WORKFLOW_AUDIT_OP_REGISTER t r sc s c re (fst (workflow_rule_register t r sc s c re w)) u"
     "g_audit_ring u = g_audit_ring w" "g_audit_count u = g_audit_count w"
     "g_audit_next_sequence u = g_audit_next_sequence w" "g_audit_dropped u = g_audit_dropped w"
    using workflow_register_record by metis
  have "workflow_log u = workflow_log w" using u by (simp add: workflow_log_def)
  then show thesis
    using that [of re] audit_record_log [of u WORKFLOW_AUDIT_OP_REGISTER t r sc s c re] assms u op by simp
next
  case op: (W_Eval_Read t r s c)
  obtain re where "snd (eval_locked WORKFLOW_AUDIT_OP_EVAL_READ WORKFLOW_SCOPE_READ t r s c w) =
      audit_record WORKFLOW_AUDIT_OP_EVAL_READ t r WORKFLOW_SCOPE_READ s c re
        (fst (eval_locked WORKFLOW_AUDIT_OP_EVAL_READ WORKFLOW_SCOPE_READ t r s c w)) w"
    using eval_locked_record by blast
  then show thesis
    using that [of re] audit_record_log [OF assms, of WORKFLOW_AUDIT_OP_EVAL_READ t r WORKFLOW_SCOPE_READ s c re] op
    by (simp add: workflow_rule_eval_read_def)
next
  case op: (W_Eval_Write t r s c)
  obtain re where "snd (eval_locked WORKFLOW_AUDIT_OP_EVAL_WRITE WORKFLOW_SCOPE_WRITE t r s c w) =
      audit_record WORKFLOW_AUDIT_OP_EVAL_WRITE t r WORKFLOW_SCOPE_WRITE s c re
        (fst (eval_locked WORKFLOW_AUDIT_OP_EVAL_WRITE WORKFLOW_SCOPE_WRITE t r s c w)) w"
    using eval_locked_record by blast
  then show thesis
    using that [of re] audit_record_log [OF assms, of WORKFLOW_AUDIT_OP_EVAL_WRITE t r WORKFLOW_SCOPE_WRITE s c re] op
    by (simp add: workflow_rule_eval_write_def)
qed

lemma workflow_step_rules:
  assumes "workflow_wf w"
  shows "rules_of (snd (workflow_step op w)) =
rules_of w \<union> rule_added op w"
  using workflow_register_step(1) [OF assms prod.collapse [symmetric]]
  by (cases op) (simp_all add: rule_added_def rules_of_def workflow_rule_eval_read_def workflow_rule_eval_write_def)

lemma workflow_step_wf:
  assumes "workflow_wf w"
  shows "workflow_wf (snd (workflow_step op w))"
proof -
  have log: "length (g_audit_ring w) = 32" "g_audit_count w \<le> 32" using assms by (simp_all add: workflow_wf_def)
  have "length (g_audit_ring (snd (workflow_step op w))) = 32" "g_audit_count (snd (workflow_step op w)) \<le> 32"
    by (rule workflow_step_log [OF log, of op]; simp)+
  then show ?thesis
    using workflow_register_step(2) [OF assms prod.collapse [symmetric]] assms
    by (cases op) (simp_all add: workflow_wf_def workflow_rule_eval_read_def workflow_rule_eval_write_def)
qed

lemma workflow_run_wf: "workflow_wf w \<Longrightarrow> workflow_wf (workflow_run ops w)"
  by (induction ops arbitrary: w) (simp_all add: workflow_step_wf)

lemma workflow_reset_wf: "workflow_wf workflow_rule_reset_for_tests"
  by (simp add: workflow_wf_def workflow_rule_reset_for_tests_def workflow_empty_slot_def)

lemma registered_in_snoc:
  "registered_in (ops @ [op]) w = registered_in ops w \<union> rule_added op (workflow_run ops w)"
  by (simp add: registered_in_def lessThan_Suc nth_append Un_commute)

lemma workflow_run_rules:
  assumes "workflow_wf w"
  shows "rules_of (workflow_run ops w) = rules_of w \<union> registered_in ops w"
proof (induction ops rule: rev_induct)
  case Nil
  show ?case by (simp add: registered_in_def)
next
  case (snoc op ops)
  then show ?case
    using workflow_step_rules [OF workflow_run_wf [OF assms], of op ops]
    by (simp add: registered_in_snoc Un_assoc)
qed

lemma workflow_run_log:
  assumes "workflow_wf w" "g_audit_count w = 0" "g_audit_dropped w = 0"
  shows "\<exists>rs. length rs = length ops \<and>
     workflow_log (workflow_run ops w) = keep_last 32 (map (\<lambda>j. workflow_op_event (ops ! j) (rs ! j)
        (fst (workflow_step (ops ! j) (workflow_run (take j ops) w))) (g_audit_next_sequence w + of_nat j)) [0..<length ops])"
    and "g_audit_next_sequence (workflow_run ops w) = g_audit_next_sequence w + of_nat (length ops)"
    and "g_audit_count (workflow_run ops w) = min (length ops) 32"
    and "g_audit_dropped (workflow_run ops w) = of_nat (length ops - 32)"
proof -
  have "(\<exists>rs. length rs = length ops \<and>
     workflow_log (workflow_run ops w) = keep_last 32 (map (\<lambda>j. workflow_op_event (ops ! j) (rs ! j)
        (fst (workflow_step (ops ! j) (workflow_run (take j ops) w))) (g_audit_next_sequence w + of_nat j)) [0..<length ops])) \<and>
    g_audit_next_sequence (workflow_run ops w) = g_audit_next_sequence w + of_nat (length ops) \<and>
    g_audit_count (workflow_run ops w) = min (length ops) 32 \<and>
    g_audit_dropped (workflow_run ops w) = of_nat (length ops - 32)"
  proof (induction ops rule: rev_induct)
    case Nil
    show ?case using assms by (simp add: workflow_log_def)
  next
    case (snoc op ops)
    let ?w = "workflow_run ops w"
    let ?ev = "\<lambda>ops rs j. workflow_op_event (ops ! j) (rs ! j)
        (fst (workflow_step (ops ! j) (workflow_run (take j ops) w))) (g_audit_next_sequence w + of_nat j)"
    obtain rs where rs: "length rs = length ops" "workflow_log ?w = keep_last 32 (map (?ev ops rs) [0..<length ops])"
      using snoc by blast
    have log: "length (g_audit_ring ?w) = 32" "g_audit_count ?w \<le> 32"
      using workflow_run_wf [OF assms(1), of ops] by (simp_all add: workflow_wf_def)
    obtain re where re: "workflow_log (snd (workflow_step op ?w)) =
        keep_last 32 (workflow_log ?w @ [workflow_op_event op re (fst (workflow_step op ?w)) (g_audit_next_sequence ?w)])"
      and cnt: "g_audit_count (snd (workflow_step op ?w)) = min (g_audit_count ?w + 1) 32"
      and seq: "g_audit_next_sequence (snd (workflow_step op ?w)) = g_audit_next_sequence ?w + 1"
      and drp: "g_audit_dropped (snd (workflow_step op ?w)) = (if g_audit_count ?w < 32 then g_audit_dropped ?w else g_audit_dropped ?w + 1)"
      by (rule workflow_step_log [OF log, of op])
    have pre: "map (?ev (ops @ [op]) (rs @ [re])) [0..<length ops] = map (?ev ops rs) [0..<length ops]"
      using rs(1) by (simp add: nth_append)
    have last: "?ev (ops @ [op]) (rs @ [re]) (length ops) = workflow_op_event op re (fst (workflow_step op ?w)) (g_audit_next_sequence ?w)"
      using rs(1) snoc by (simp add: nth_append)
    have "workflow_log (workflow_run (ops @ [op]) w) = keep_last 32 (map (?ev (ops @ [op]) (rs @ [re])) [0..<length (ops @ [op])])"
    proof -
      have upt: "[0..<length (ops @ [op])] = [0..<length ops] @ [length ops]" by simp
      have "workflow_run (ops @ [op]) w = snd (workflow_step op ?w)" by simp
      then show ?thesis
        unfolding upt map_append pre list.map last by (simp only: re rs(2) keep_last_snoc [OF zero_less_numeral])
    qed
    then show ?case using rs(1) snoc cnt seq drp by (intro conjI exI [of _ "rs @ [re]"]) (auto simp: Suc_diff_le min_def not_less)
  qed
  then show "\<exists>rs. length rs = length ops \<and>
     workflow_log (workflow_run ops w) = keep_last 32 (map (\<lambda>j. workflow_op_event (ops ! j) (rs ! j)
        (fst (workflow_step (ops ! j) (workflow_run (take j ops) w))) (g_audit_next_sequence w + of_nat j)) [0..<length ops])"
    and "g_audit_next_sequence (workflow_run ops w) = g_audit_next_sequence w + of_nat (length ops)"
    and "g_audit_count (workflow_run ops w) = min (length ops) 32"
    and "g_audit_dropped (workflow_run ops w) = of_nat (length ops - 32)"
    by blast+
qed

section \<open>Properties\<close>

lemma nth_keep_last_map: "i < min n k \<Longrightarrow> keep_last k (map f [0..<n]) ! i = f (n - min n k + i)"
  by (auto simp: keep_last_def min_def split: if_splits)

text \<open>
  C17: Evaluation is exact.  After any history of registrations and evaluations on a reset store, a
  read (write) evaluation succeeds precisely when a registration of this very tenant, rule,
  direction, subject and capability succeeded earlier, and answers with the one undifferentiated
  missing code in every other case.
\<close>

theorem workflow_eval_exact:
  "fst (workflow_rule_eval_read t r s c (workflow_run ops workflow_rule_reset_for_tests)) =
     (if (t, r, WORKFLOW_SCOPE_READ, s, c) \<in> registered_in ops workflow_rule_reset_for_tests
      then WORKFLOW_OK else WORKFLOW_ERR_MISSING) \<and>
   fst (workflow_rule_eval_write t r s c (workflow_run ops workflow_rule_reset_for_tests)) =
     (if (t, r, WORKFLOW_SCOPE_WRITE, s, c) \<in> registered_in ops workflow_rule_reset_for_tests
      then WORKFLOW_OK else WORKFLOW_ERR_MISSING)"
proof -
  have "rules_of workflow_rule_reset_for_tests = {}"
    by (simp add: rules_of_def workflow_rule_reset_for_tests_def workflow_empty_slot_def)
  then have "rules_of (workflow_run ops workflow_rule_reset_for_tests) = registered_in ops workflow_rule_reset_for_tests"
    using workflow_run_rules [OF workflow_reset_wf] by simp
  then show ?thesis
    using eval_locked_result [OF workflow_run_wf [OF workflow_reset_wf]]
    by (simp add: workflow_rule_eval_read_def workflow_rule_eval_write_def)
qed

text \<open>
  C18: Tenant isolation.  No sequence of calls made by other tenants changes the outcome of any
  evaluation by a tenant.
\<close>

theorem workflow_tenant_isolation:
  assumes "workflow_wf w" "list_all (\<lambda>op. workflow_op_tenant op \<noteq> t) ops"
  shows "fst (workflow_rule_eval_read t r s c (workflow_run ops w)) = fst (workflow_rule_eval_read t r s c w) \<and>
         fst (workflow_rule_eval_write t r s c (workflow_run ops w)) = fst (workflow_rule_eval_write t r s c w)"
proof -
  have added: "(t, x) \<notin> rule_added op u" if "workflow_op_tenant op \<noteq> t" for op u x
    using that by (cases op) (auto simp: rule_added_def)
  have "(t, x) \<notin> registered_in ops w" for x
    using assms(2) added by (auto simp: registered_in_def list_all_length)
  then show ?thesis
    using eval_locked_result [OF assms(1)] eval_locked_result [OF workflow_run_wf [OF assms(1)], of _ _ _ _ _ _ ops]
      workflow_run_rules [OF assms(1), of ops]
    by (simp add: workflow_rule_eval_read_def workflow_rule_eval_write_def)
qed

theorem workflow_tenant_isolation_witness:
  "fst (workflow_rule_eval_read 1 9 3 CAP_FS_READ
     (workflow_run [W_Register 2 9 WORKFLOW_SCOPE_READ 3 CAP_FS_READ WORKFLOW_REASON_OPERATOR]
        workflow_rule_reset_for_tests)) = WORKFLOW_ERR_MISSING"
proof -
  have "fst (workflow_rule_eval_read 1 9 3 CAP_FS_READ workflow_rule_reset_for_tests) = WORKFLOW_ERR_MISSING" by code_simp
  then show ?thesis
    using workflow_tenant_isolation [OF workflow_reset_wf,
        of 1 "[W_Register 2 9 WORKFLOW_SCOPE_READ 3 CAP_FS_READ WORKFLOW_REASON_OPERATOR]" 9 3 CAP_FS_READ]
    by simp
qed

text \<open>
  C19: The rule log is complete and ordered.  After any history on a reset store the log returns,
  oldest first, exactly the last 32 calls, each as the call it was with the result it returned and
  numbered by its position; the dropped counter is the number of older calls.
\<close>

theorem workflow_audit_complete:
  "let w0 = workflow_rule_reset_for_tests; w = workflow_run ops w0; kept = min (length ops) 32;
       j = length ops - kept + i
   in workflow_audit_count_for_tests w = kept \<and>
      workflow_audit_dropped_for_tests w = of_nat (length ops - 32) \<and>
      (if i < kept
       then \<exists>reason. workflow_audit_get_for_tests i True w =
         (WORKFLOW_OK, Some (workflow_op_event (ops ! j) reason (fst (workflow_step (ops ! j) (workflow_run (take j ops) w0))) (of_nat j)))
       else workflow_audit_get_for_tests i True w = (WORKFLOW_ERR_MISSING, None))"
proof -
  let ?w0 = workflow_rule_reset_for_tests
  have z: "g_audit_count ?w0 = 0" "g_audit_dropped ?w0 = 0" "g_audit_next_sequence ?w0 = 0"
    by (simp_all add: workflow_rule_reset_for_tests_def)
  note run = workflow_run_log [OF workflow_reset_wf z(1,2), of ops]
  obtain rs where rs: "workflow_log (workflow_run ops ?w0) = keep_last 32 (map (\<lambda>j. workflow_op_event (ops ! j) (rs ! j)
        (fst (workflow_step (ops ! j) (workflow_run (take j ops) ?w0))) (of_nat j)) [0..<length ops])"
    using run(1) z(3) by auto
  define j where "j = length ops - min (length ops) 32 + i"
  have "g_audit_ring (workflow_run ops ?w0) ! i = workflow_op_event (ops ! j) (rs ! j)
      (fst (workflow_step (ops ! j) (workflow_run (take j ops) ?w0))) (of_nat j)" if i: "i < min (length ops) 32"
  proof -
    have "g_audit_ring (workflow_run ops ?w0) ! i = workflow_log (workflow_run ops ?w0) ! i"
      using i run(3) by (simp add: workflow_log_def)
    then show ?thesis by (simp only: rs nth_keep_last_map [OF i] j_def)
  qed
  then show ?thesis
    unfolding Let_def j_def [symmetric]
    by (auto simp: workflow_audit_count_for_tests_def workflow_audit_dropped_for_tests_def run(3,4)
        workflow_audit_get_for_tests_def simp del: workflow_op_event.simps)
qed

section \<open>Lemmas: textual form\<close>

definition workflow_line :: "workflow_audit_event_t \<Rightarrow> string" where
  "workflow_line e =
     ''WORKFLOW_AUDIT:seq='' @ dec_string (unat (we_sequence_id e)) @
     '':op='' @ audit_op_name (we_operation e) @
     '':tenant='' @ dec_string (unat (we_tenant_id e)) @
     '':rule='' @ dec_string (unat (we_rule_id e)) @
     '':scope='' @ scope_name (we_scope_requested e) @
     '':subject='' @ dec_string (unat (we_subject_id e)) @
     '':cap='' @ dec_string (unat (we_capability_id e)) @
     '':reason='' @ reason_name (we_reason e) @
     '':result='' @ result_name (we_result e) @
     '':outcome='' @ outcome_name (we_outcome e)"

lemma u64_emit_str: "u64_emit v = str_emit (dec_string (unat v))"
  by (simp add: u64_emit_def str_emit_def fun_eq_iff Let_def u64_digits)

lemma fold_str_emit_None: "fold (\<lambda>emit out. Option.bind out (emit n)) es None = None"
  by (induction es) simp_all

lemma fold_str_emit:
  "length out < n \<Longrightarrow> fold (\<lambda>emit out. Option.bind out (emit n)) (map str_emit ps) (Some out) =
     (if length (out @ concat ps) < n then Some (out @ concat ps) else None)"
proof (induction ps arbitrary: out)
  case (Cons p ps)
  then show ?case
    using Cons.IH [of "out @ p"] by (auto simp: str_emit_def fold_str_emit_None not_le)
qed simp

theorem workflow_audit_format_exact:
  "workflow_audit_format_event (Some e) True n =
     (if length (workflow_line e) < n then Some (workflow_line e) else None)"
proof (cases "n = 0")
  case False
  let ?ps = "[''WORKFLOW_AUDIT:seq='', dec_string (unat (we_sequence_id e)),
     '':op='', audit_op_name (we_operation e), '':tenant='', dec_string (unat (we_tenant_id e)),
     '':rule='', dec_string (unat (we_rule_id e)), '':scope='', scope_name (we_scope_requested e),
     '':subject='', dec_string (unat (we_subject_id e)), '':cap='', dec_string (unat (we_capability_id e)),
     '':reason='', reason_name (we_reason e), '':result='', result_name (we_result e),
     '':outcome='', outcome_name (we_outcome e)]"
  have line: "workflow_line e = concat ?ps"
    by (simp only: workflow_line_def concat.simps append_Nil2)
  have "workflow_audit_format_event (Some e) True n =
      fold (\<lambda>emit out. Option.bind out (emit n)) (map str_emit ?ps) (Some [])"
    using False by (simp only: workflow_audit_format_event_def u64_emit_str list.map option.case unat_ucast_u64) simp
  then show ?thesis unfolding line using fold_str_emit [of "[]" n ?ps] False by simp
qed (simp add: workflow_audit_format_event_def)

end
