(* ===== verification/Byte_Memory.thy ===== *)
theory Byte_Memory
  imports Prelude
begin

text \<open>
  Byte-addressed memory and the little-endian fields that the C sources read and write through
  struct pointers and explicit byte shifts.  Addresses are natural numbers; the code that computes
  them writes its own wrap-around.  The heap allocator is modelled on top of it.
\<close>

type_synonym memory = "nat \<Rightarrow> u8"

primrec le_read :: "memory \<Rightarrow> nat \<Rightarrow> nat \<Rightarrow> nat" where
  \<comment> \<open>the value of a little-endian field of \<open>k\<close> bytes at address \<open>a\<close>\<close>
  "le_read m a 0 = 0"
| "le_read m a (Suc k) = unat (m a) + 256 * le_read m (a + 1) k"

primrec le_write :: "memory \<Rightarrow> nat \<Rightarrow> nat \<Rightarrow> nat \<Rightarrow> memory" where
  \<comment> \<open>store the low \<open>k\<close> bytes of \<open>v\<close> at address \<open>a\<close>\<close>
  "le_write m a 0 v = m"
| "le_write m a (Suc k) v = le_write (m(a := of_nat (v mod 256))) (a + 1) k (v div 256)"

primrec mem_zero :: "memory \<Rightarrow> nat \<Rightarrow> nat \<Rightarrow> memory" where
  \<comment> \<open>\<^verbatim>\<open>for (i = 0; i < n; ++i) p[i] = 0\<close>\<close>
  "mem_zero m a 0 = m"
| "mem_zero m a (Suc n) = mem_zero (m(a := 0)) (a + 1) n"

named_theorems mem_frame \<open>what a field access leaves alone\<close>

lemma le_write_outside [mem_frame]: "x < a \<or> a + k \<le> x \<Longrightarrow> le_write m a k v x = m x"
  by (induction k arbitrary: m a v) auto

lemma mem_zero_at [simp]: "mem_zero m a n x = (if a \<le> x \<and> x < a + n then 0 else m x)"
  by (induction n arbitrary: m a) auto

lemma le_read_cong: "(\<And>x. a \<le> x \<Longrightarrow> x < a + k \<Longrightarrow> m x = m' x) \<Longrightarrow> le_read m a k = le_read m' a k"
  by (induction k arbitrary: a) auto

lemma le_read_upd_outside [mem_frame]: "x < a \<or> a + k \<le> x \<Longrightarrow> le_read (m(x := b)) a k = le_read m a k"
  by (rule le_read_cong) auto

lemma le_read_write_outside [mem_frame]:
  "a + k \<le> a' \<or> a' + k' \<le> a \<Longrightarrow> le_read (le_write m a' k' v) a k = le_read m a k"
  by (rule le_read_cong) (auto intro: le_write_outside)

lemma le_read_zero_outside [mem_frame]:
  "a + k \<le> a' \<or> a' + n \<le> a \<Longrightarrow> le_read (mem_zero m a' n) a k = le_read m a k"
  by (rule le_read_cong) auto

lemma le_read_write [simp]: "le_read (le_write m a k v) a k = v mod 256 ^ k"
proof (induction k arbitrary: m a v)
  case (Suc k)
  have "unat (of_nat (v mod 256) :: u8) = v mod 256" by (simp add: unat_of_nat)
  then show ?case
    using Suc by (simp add: le_write_outside mod_mult2_eq)
qed simp

lemma le_read_bound: "le_read m a k < 256 ^ k"
proof (induction k arbitrary: a)
  case (Suc k)
  have "unat (m a) < 256" using unat_word_bound [of "m a"] by simp
  with Suc [of "a + 1"] show ?case by simp
qed simp

lemma le_read_16: "le_read m a 2 = unat (m a) + 256 * unat (m (a + 1))"
  by (simp add: numeral_2_eq_2)

end
