(* ===== verification/Kheap.thy ===== *)
theory Kheap
  imports Byte_Memory
begin

text \<open>
  The kernel heap of \<^verbatim>\<open>kernel/mem/kheap.c\<close>, down to the bytes of its arena: block headers are read
  and written through their struct offsets, and the search and coalescing loops follow the
  \<^verbatim>\<open>next\<close> pointers found in memory, so that not returning is a possible outcome of the model.
  A simulation relates the arena to an abstract heap, a finite map from the pointers handed out to
  the bytes the client sees there.
\<close>

section \<open>State and operations\<close>

abbreviation KHEAP_ARENA_SIZE :: nat where "KHEAP_ARENA_SIZE \<equiv> 2097152"
abbreviation KHEAP_ALIGN :: nat where "KHEAP_ALIGN \<equiv> 16"
abbreviation SIZE_MOD :: nat where "SIZE_MOD \<equiv> 18446744073709551616"

text \<open>
  \<^verbatim>\<open>kheap_block_t\<close> has its size at offset 0, the 4-byte free flag at 8 and the next pointer at 16,
  24 bytes in all.  The address of the arena is chosen by the linker.
\<close>

record kheap =
  g_arena :: nat
  g_mem :: memory
  g_head :: nat
  g_initialized :: bool

abbreviation HEADER_SIZE :: nat where "HEADER_SIZE \<equiv> 24"

definition block_size :: "memory \<Rightarrow> nat \<Rightarrow> nat" where
  "block_size m b = le_read m b 8"

definition block_free :: "memory \<Rightarrow> nat \<Rightarrow> bool" where
  "block_free m b \<longleftrightarrow> le_read m (b + 8) 4 \<noteq> 0"

definition block_next :: "memory \<Rightarrow> nat \<Rightarrow> nat" where
  "block_next m b = le_read m (b + 16) 8"

definition set_block_size :: "nat \<Rightarrow> nat \<Rightarrow> memory \<Rightarrow> memory" where
  "set_block_size b v m = le_write m b 8 v"

definition set_block_free :: "nat \<Rightarrow> nat \<Rightarrow> memory \<Rightarrow> memory" where
  "set_block_free b v m = le_write m (b + 8) 4 v"

definition set_block_next :: "nat \<Rightarrow> nat \<Rightarrow> memory \<Rightarrow> memory" where
  "set_block_next b v m = le_write m (b + 16) 8 v"

definition align_up :: "nat \<Rightarrow> nat" where
  \<comment> \<open>\<^verbatim>\<open>(val + KHEAP_ALIGN - 1u) & ~(KHEAP_ALIGN - 1u)\<close> on a 64-bit \<^verbatim>\<open>size_t\<close>: the mask has type
    \<^verbatim>\<open>unsigned int\<close> and is zero-extended, so it also clears the upper half of the sum\<close>
  "align_up val = ((val + KHEAP_ALIGN - 1) mod SIZE_MOD) mod 4294967296 div KHEAP_ALIGN * KHEAP_ALIGN"

definition effective_header :: nat where
  "effective_header = align_up HEADER_SIZE"

definition kheap_init :: "kheap \<Rightarrow> kheap" where
  "kheap_init h =
    (let m = g_mem h; b = g_arena h;
         m = set_block_size b (KHEAP_ARENA_SIZE - effective_header) m;
         m = set_block_free b 1 m;
         m = set_block_next b 0 m
     in h\<lparr> g_head := b, g_mem := m, g_initialized := True \<rparr>)"

partial_function (option) kmalloc_search :: "memory \<Rightarrow> nat \<Rightarrow> nat \<Rightarrow> nat option" where
  \<comment> \<open>the first-fit loop; the result 0 is the end of the list\<close>
  "kmalloc_search m aligned_size current =
    (if current = 0 then Some 0
     else if block_free m current \<and> block_size m current \<ge> aligned_size then Some current
     else kmalloc_search m aligned_size (block_next m current))"

definition kmalloc_split :: "nat \<Rightarrow> nat \<Rightarrow> memory \<Rightarrow> memory" where
  "kmalloc_split current aligned_size m =
    (let min_split = effective_header + KHEAP_ALIGN in
     if block_size m current \<ge> (aligned_size + min_split) mod SIZE_MOD
     then let new_block = (current + effective_header + aligned_size) mod SIZE_MOD;
              m = set_block_size new_block (block_size m current - aligned_size - effective_header) m;
              m = set_block_free new_block 1 m;
              m = set_block_next new_block (block_next m current) m;
              m = set_block_next current new_block m
          in set_block_size current aligned_size m
     else m)"

definition kmalloc :: "nat \<Rightarrow> kheap \<Rightarrow> (nat \<times> kheap) option" where
  \<comment> \<open>\<open>None\<close>: the call does not return; pointer 0: no memory\<close>
  "kmalloc sz h =
    (if \<not> g_initialized h \<or> sz = 0 then Some (0, h)
     else let aligned_size = align_up sz in
       case kmalloc_search (g_mem h) aligned_size (g_head h) of
         None \<Rightarrow> None
       | Some current \<Rightarrow>
          if current = 0 then Some (0, h)
          else let m = kmalloc_split current aligned_size (g_mem h);
                   m = set_block_free current 0 m;
                   m = mem_zero m (current + effective_header) (block_size m current)
               in Some (current + effective_header, h\<lparr> g_mem := m \<rparr>))"

partial_function (option) kfree_coalesce :: "memory \<Rightarrow> nat \<Rightarrow> memory option" where
  \<comment> \<open>the forward pass that merges adjacent free blocks\<close>
  "kfree_coalesce m current =
    (if current = 0 then Some m
     else if block_free m current \<and> block_next m current \<noteq> 0 \<and> block_free m (block_next m current)
     then let nxt = block_next m current;
              m = set_block_size current ((block_size m current + effective_header + block_size m nxt) mod SIZE_MOD) m;
              m = set_block_next current (block_next m nxt) m
          in kfree_coalesce m current
     else kfree_coalesce m (block_next m current))"

definition kfree :: "nat \<Rightarrow> kheap \<Rightarrow> kheap option" where
  "kfree ptr h =
    (if ptr = 0 \<or> \<not> g_initialized h then Some h
     else let block = (ptr + SIZE_MOD - effective_header) mod SIZE_MOD in
       if block < g_arena h \<or> block \<ge> g_arena h + KHEAP_ARENA_SIZE then Some h
       else map_option (\<lambda>m. h\<lparr> g_mem := m \<rparr>) (kfree_coalesce (set_block_free block 1 (g_mem h)) (g_head h)))"

partial_function (option) kheap_free_sum :: "memory \<Rightarrow> nat \<Rightarrow> nat \<Rightarrow> nat option" where
  "kheap_free_sum m current tot =
    (if current = 0 then Some tot
     else kheap_free_sum m (block_next m current)
       (if block_free m current then (tot + block_size m current) mod SIZE_MOD else tot))"

definition kheap_free_bytes :: "kheap \<Rightarrow> nat option" where
  "kheap_free_bytes h = (if \<not> g_initialized h then Some 0 else kheap_free_sum (g_mem h) (g_head h) 0)"

definition kheap_total_bytes :: nat where
  "kheap_total_bytes = KHEAP_ARENA_SIZE"

section \<open>The abstract heap\<close>

type_synonym live = "nat \<rightharpoonup> u8 list"
type_synonym block = "nat \<times> bool"

abbreviation span :: "block list \<Rightarrow> nat" where
  "span bs \<equiv> sum_list (map (\<lambda>b. 32 + fst b) bs)"

definition hdr :: "memory \<Rightarrow> nat \<Rightarrow> nat \<Rightarrow> bool \<Rightarrow> nat \<Rightarrow> bool" where
  "hdr m a s f n \<longleftrightarrow> block_size m a = s \<and> block_free m a = f \<and> block_next m a = n"

fun heap_seg :: "memory \<Rightarrow> nat \<Rightarrow> block list \<Rightarrow> nat \<Rightarrow> bool" where
  \<comment> \<open>the headers of the contiguous blocks from \<open>a\<close> on; the last one points to \<open>n\<close>\<close>
  "heap_seg m a [] n = True"
| "heap_seg m a ((s, f) # bs) n =
    (hdr m a s f (if bs = [] then n else a + 32 + s) \<and> heap_seg m (a + 32 + s) bs n)"

fun locate :: "nat \<Rightarrow> block list \<Rightarrow> (nat \<times> nat \<times> bool) list" where
  \<comment> \<open>the address, size and free flag of every block\<close>
  "locate a [] = []"
| "locate a ((s, f) # bs) = (a, s, f) # locate (a + 32 + s) bs"

fun coal :: "block list \<Rightarrow> block list" where
  "coal (b # c # bs) = (if snd b \<and> snd c then coal ((fst b + 32 + fst c, True) # bs) else b # coal (c # bs))"
| "coal [b] = [b]"
| "coal [] = []"

fun coalesced :: "block list \<Rightarrow> bool" where
  "coalesced (b # c # bs) \<longleftrightarrow> \<not> (snd b \<and> snd c) \<and> coalesced (c # bs)"
| "coalesced _ \<longleftrightarrow> True"

definition kheap_placed :: "kheap \<Rightarrow> bool" where
  \<comment> \<open>where the linker may put the arena\<close>
  "kheap_placed h \<longleftrightarrow> 0 < g_arena h \<and> g_arena h mod KHEAP_ALIGN = 0 \<and> g_arena h + KHEAP_ARENA_SIZE < SIZE_MOD"

definition heap_rel :: "kheap \<Rightarrow> live \<Rightarrow> block list \<Rightarrow> bool" where
  "heap_rel h L bs \<longleftrightarrow>
     kheap_placed h \<and> g_initialized h \<and> g_head h = g_arena h \<and>
     bs \<noteq> [] \<and> span bs = KHEAP_ARENA_SIZE \<and> (\<forall>b \<in> set bs. 16 dvd fst b) \<and> coalesced bs \<and>
     heap_seg (g_mem h) (g_arena h) bs 0 \<and>
     dom L = {c + 32 |c s. (c, s, False) \<in> set (locate (g_arena h) bs)} \<and>
     (\<forall>c s d. (c, s, False) \<in> set (locate (g_arena h) bs) \<longrightarrow> L (c + 32) = Some d \<longrightarrow>
        length d \<le> s \<and> (\<forall>i<length d. g_mem h (c + 32 + i) = d ! i))"

definition heap_sim :: "kheap \<Rightarrow> live \<Rightarrow> bool" where
  "heap_sim h L \<longleftrightarrow> (\<exists>bs. heap_rel h L bs)"

section \<open>Lemmas\<close>

subsection \<open>Headers\<close>

lemma effective_header [simp]: "effective_header = 32"
  by (simp add: effective_header_def align_up_def)

lemmas block_defs = block_size_def block_free_def block_next_def
  set_block_size_def set_block_free_def set_block_next_def

lemma block_read_set [simp]:
  "block_size (set_block_size b v m) b = v mod SIZE_MOD"
  "block_size (set_block_free b v m) b = block_size m b"
  "block_size (set_block_next b v m) b = block_size m b"
  "block_free (set_block_size b v m) b = block_free m b"
  "block_free (set_block_free b v m) b \<longleftrightarrow> v mod 4294967296 \<noteq> 0"
  "block_free (set_block_next b v m) b = block_free m b"
  "block_next (set_block_size b v m) b = block_next m b"
  "block_next (set_block_free b v m) b = block_next m b"
  "block_next (set_block_next b v m) b = v mod SIZE_MOD"
  by (simp_all add: block_defs mem_frame)

lemma hdr_cong: "(\<And>x. a \<le> x \<Longrightarrow> x < a + 24 \<Longrightarrow> m x = m' x) \<Longrightarrow> hdr m a s f n = hdr m' a s f n"
  using le_read_cong [of a 8 m m'] le_read_cong [of "a + 8" 4 m m'] le_read_cong [of "a + 16" 8 m m']
  by (simp add: hdr_def block_defs)

lemma set_block_outside [mem_frame]:
  assumes "x < b \<or> b + 24 \<le> x"
  shows "set_block_size b v m x = m x" "set_block_free b v m x = m x" "set_block_next b v m x = m x"
  using assms by (auto simp: block_defs intro!: le_write_outside)

subsection \<open>Block lists\<close>

lemma heap_seg_append:
  "heap_seg m a (xs @ ys) n \<longleftrightarrow>
   heap_seg m a xs (if ys = [] then n else a + span xs) \<and> heap_seg m (a + span xs) ys n"
  by (induction m a xs n rule: heap_seg.induct) (auto simp: add.assoc)

lemma locate_append [simp]: "locate a (xs @ ys) = locate a xs @ locate (a + span xs) ys"
  by (induction a xs rule: locate.induct) (auto simp: add.assoc)

lemma locate_bounds: "(c, s, f) \<in> set (locate a bs) \<Longrightarrow> a \<le> c \<and> c + 32 + s \<le> a + span bs \<and> (s, f) \<in> set bs"
  by (induction a bs rule: locate.induct) force+

lemma locate_aligned:
  "(c, s, f) \<in> set (locate a bs) \<Longrightarrow> \<forall>b \<in> set bs. 16 dvd fst b \<Longrightarrow> a mod 16 = 0 \<Longrightarrow> c mod 16 = (0 :: nat)"
proof (induction a bs rule: locate.induct)
  case (2 a s' f' bs)
  have "16 dvd s'" using 2(3) by simp
  then have "(a + 32 + s') mod 16 = 0" using 2(4) by presburger
  with 2 show ?case by auto
qed simp

lemma locate_disjoint:
  assumes "(c, s, f) \<in> set (locate a bs)" "(c', s', f') \<in> set (locate a bs)" "c \<noteq> c'"
  shows "c + 32 + s \<le> c' \<or> c' + 32 + s' \<le> c"
  using assms
proof (induction a bs rule: locate.induct)
  case (2 a t g bs)
  then show ?case using locate_bounds [of c s f "a + 32 + t" bs] locate_bounds [of c' s' f' "a + 32 + t" bs] by auto
qed simp

lemma locate_unique:
  "(c, s, f) \<in> set (locate a bs) \<Longrightarrow> (c, s', f') \<in> set (locate a bs) \<Longrightarrow> s = s' \<and> f = f'"
proof (induction a bs rule: locate.induct)
  case (2 a t g bs)
  then show ?case using locate_bounds [of c s f "a + 32 + t" bs] locate_bounds [of c s' f' "a + 32 + t" bs] by auto
qed simp

lemma locate_split:
  "(c, s, f) \<in> set (locate a bs) \<Longrightarrow> \<exists>xs ys. bs = xs @ (s, f) # ys \<and> c = a + span xs"
proof (induction a bs rule: locate.induct)
  case (2 a t g bs)
  show ?case
  proof (cases "(c, s, f) = (a, t, g)")
    case True
    then show ?thesis by (intro exI [of _ "[]"] exI [of _ bs]) simp
  next
    case False
    with 2 obtain xs ys where "bs = xs @ (s, f) # ys" "c = a + 32 + t + span xs" by auto
    then show ?thesis by (intro exI [of _ "(t, g) # xs"] exI [of _ ys]) simp
  qed
qed simp

lemma heap_seg_cong:
  "(\<And>c s f x. (c, s, f) \<in> set (locate a bs) \<Longrightarrow> c \<le> x \<Longrightarrow> x < c + 24 \<Longrightarrow> m x = m' x) \<Longrightarrow>
   heap_seg m a bs n = heap_seg m' a bs n"
proof (induction a bs rule: locate.induct)
  case (2 a s f bs)
  have "heap_seg m (a + 32 + s) bs n = heap_seg m' (a + 32 + s) bs n"
    by (rule 2(1)) (use 2(2) in \<open>auto\<close>)
  moreover have "hdr m a s f k = hdr m' a s f k" for k
    by (rule hdr_cong) (use 2(2) in auto)
  ultimately show ?case by simp
qed simp

lemma heap_seg_outside:
  "(\<And>x. a \<le> x \<Longrightarrow> x < a + span bs \<Longrightarrow> m x = m' x) \<Longrightarrow> heap_seg m a bs n = heap_seg m' a bs n"
  by (rule heap_seg_cong) (use locate_bounds in fastforce)

lemma coalesced_Cons: "coalesced (b # bs) \<longleftrightarrow> coalesced bs \<and> (bs \<noteq> [] \<longrightarrow> \<not> (snd b \<and> snd (hd bs)))"
  by (cases bs) auto

lemma coalesced_append:
  "coalesced (xs @ ys) \<longleftrightarrow>
   coalesced xs \<and> coalesced ys \<and> (xs \<noteq> [] \<longrightarrow> ys \<noteq> [] \<longrightarrow> \<not> (snd (last xs) \<and> snd (hd ys)))"
proof (induction xs)
  case (Cons b bs)
  then show ?case by (cases "bs = []") (auto simp: coalesced_Cons simp del: coalesced.simps)
qed simp

lemma coal_eq_Nil [simp]: "coal bs = [] \<longleftrightarrow> bs = []"
  by (induction bs rule: coal.induct) auto

lemma span_coal [simp]: "span (coal bs) = span bs"
  by (induction bs rule: coal.induct) auto

lemma coal_aligned: "\<forall>b \<in> set bs. 16 dvd fst b \<Longrightarrow> \<forall>b \<in> set (coal bs). (16 :: nat) dvd fst b"
  by (induction bs rule: coal.induct) (auto simp: dvd_add_right_iff)

lemma snd_hd_coal: "bs \<noteq> [] \<Longrightarrow> snd (hd (coal bs)) = snd (hd bs)"
  by (induction bs rule: coal.induct) auto

lemma coalesced_coal [simp]: "coalesced (coal bs)"
proof (induction bs rule: coal.induct)
  case (1 b c bs)
  show ?case
  proof (cases "snd b \<and> snd c")
    case False
    obtain d ds where d: "coal (c # bs) = d # ds" by (metis coal_eq_Nil list.exhaust list.distinct(1))
    then have "snd d = snd c" using snd_hd_coal [of "c # bs"] by simp
    then show ?thesis using 1 False d by auto
  qed (use 1 in auto)
qed auto

lemma coal_used: "(c, s, False) \<in> set (locate a (coal bs)) \<longleftrightarrow> (c, s, False) \<in> set (locate a bs)"
proof (induction bs arbitrary: a rule: coal.induct)
  case (1 b d bs)
  then show ?case
  proof (cases "snd b \<and> snd d")
    case True
    then show ?thesis
      using 1(1) [OF True, of a] by (cases b; cases d) (auto simp: add.assoc add.left_commute)
  next
    case False
    then show ?thesis using 1(2) [OF False] by (cases b; cases d) auto
  qed
qed auto

subsection \<open>Loops\<close>

lemma kmalloc_search_found:
  "heap_seg m a (xs @ (s, True) # ys) n \<Longrightarrow> 0 < a \<Longrightarrow> k \<le> s \<Longrightarrow> \<forall>b \<in> set xs. \<not> (snd b \<and> k \<le> fst b) \<Longrightarrow>
   kmalloc_search m k a = Some (a + span xs)"
proof (induction xs arbitrary: a)
  case Nil
  then show ?case by (simp add: kmalloc_search.simps hdr_def)
next
  case (Cons b xs)
  obtain t f where b: "b = (t, f)" by (cases b)
  have "kmalloc_search m k (a + 32 + t) = Some (a + 32 + t + span xs)"
    by (rule Cons.IH) (use Cons.prems b in auto)
  then show ?case using Cons.prems b by (subst kmalloc_search.simps) (auto simp: hdr_def add.assoc)
qed

lemma kmalloc_search_none:
  "heap_seg m a bs 0 \<Longrightarrow> bs \<noteq> [] \<Longrightarrow> 0 < a \<Longrightarrow> \<forall>b \<in> set bs. \<not> (snd b \<and> k \<le> fst b) \<Longrightarrow>
   kmalloc_search m k a = Some 0"
proof (induction bs arbitrary: a)
  case (Cons b bs)
  obtain t f where b: "b = (t, f)" by (cases b)
  have z: "kmalloc_search m k 0 = Some 0" by (simp add: kmalloc_search.simps)
  show ?case
  proof (cases "bs = []")
    case True
    then show ?thesis using Cons.prems b z by (subst kmalloc_search.simps) (auto simp: hdr_def)
  next
    case False
    then have "kmalloc_search m k (a + 32 + t) = Some 0" by (intro Cons.IH) (use Cons.prems b in auto)
    then show ?thesis using Cons.prems b False by (subst kmalloc_search.simps) (auto simp: hdr_def)
  qed
qed simp

lemma kheap_free_sum_eq:
  "heap_seg m a bs 0 \<Longrightarrow> bs \<noteq> [] \<Longrightarrow> 0 < a \<Longrightarrow> tot + span bs < SIZE_MOD \<Longrightarrow>
   kheap_free_sum m a tot = Some (tot + sum_list (map fst (filter snd bs)))"
proof (induction bs arbitrary: a tot)
  case (Cons b bs)
  obtain t f where b: "b = (t, f)" by (cases b)
  let ?tot = "if f then tot + t else tot"
  have z: "kheap_free_sum m 0 k = Some k" for k by (simp add: kheap_free_sum.simps)
  have step: "kheap_free_sum m a tot = kheap_free_sum m (if bs = [] then 0 else a + 32 + t) ?tot"
    using Cons.prems b by (subst kheap_free_sum.simps) (auto simp: hdr_def)
  show ?case
  proof (cases "bs = []")
    case True
    then show ?thesis using step z b by simp
  next
    case False
    then have "kheap_free_sum m (a + 32 + t) ?tot = Some (?tot + sum_list (map fst (filter snd bs)))"
      by (intro Cons.IH) (use Cons.prems b in auto)
    then show ?thesis using step False b by simp
  qed
qed simp

definition coal_ok :: "memory \<Rightarrow> nat \<Rightarrow> block list \<Rightarrow> bool" where
  \<comment> \<open>the pass returns, leaves the merged list behind and touches headers only\<close>
  "coal_ok m a bs \<longleftrightarrow> (\<exists>m'. kfree_coalesce m a = Some m' \<and> heap_seg m' a (coal bs) 0 \<and>
     (\<forall>x. (\<forall>c s f. (c, s, f) \<in> set (locate a bs) \<longrightarrow> x < c \<or> c + 24 \<le> x) \<longrightarrow> m' x = m x))"

lemma coal_advance:
  assumes seg: "heap_seg m a ((s, f) # bs) 0" and a: "0 < a" and c: "coal ((s, f) # bs) = (s, f) # coal bs"
    and no: "bs \<noteq> [] \<Longrightarrow> f \<Longrightarrow> \<not> snd (hd bs)" and IH: "bs \<noteq> [] \<Longrightarrow> coal_ok m (a + 32 + s) bs"
  shows "coal_ok m a ((s, f) # bs)"
proof (cases "bs = []")
  case True
  have "kfree_coalesce m 0 = Some m" by (simp add: kfree_coalesce.simps)
  then have "kfree_coalesce m a = Some m"
    using seg a True by (subst kfree_coalesce.simps) (auto simp: hdr_def)
  then show ?thesis unfolding coal_ok_def c using seg True by auto
next
  case False
  then obtain t g bs' where bs: "bs = (t, g) # bs'" by (cases bs) auto
  from IH [OF False] obtain m' where m': "kfree_coalesce m (a + 32 + s) = Some m'"
    "heap_seg m' (a + 32 + s) (coal bs) 0"
    "\<And>x. (\<forall>c s' f. (c, s', f) \<in> set (locate (a + 32 + s) bs) \<longrightarrow> x < c \<or> c + 24 \<le> x) \<Longrightarrow> m' x = m x"
    unfolding coal_ok_def by blast
  have h: "hdr m a s f (a + 32 + s)" "block_free m (a + 32 + s) = g" using seg bs by (auto simp: hdr_def)
  have "kfree_coalesce m a = Some m'"
    using h no m'(1) a bs by (subst kfree_coalesce.simps) (auto simp: hdr_def)
  moreover have "m' x = m x" if "x < a + 32 + s" for x
    using that by (intro m'(3)) (use locate_bounds in fastforce)
  then have "hdr m' a s f (a + 32 + s)" using h(1) hdr_cong [of a m m' s f] by auto
  ultimately show ?thesis unfolding coal_ok_def c using False m'(2,3) by auto
qed

lemma coal_merge:
  assumes seg: "heap_seg m a ((s, True) # (t, True) # bs) 0" and a: "0 < a"
    and bd: "a + span ((s, True) # (t, True) # bs) < SIZE_MOD"
  obtains m' where "kfree_coalesce m a = kfree_coalesce m' a" "heap_seg m' a ((s + 32 + t, True) # bs) 0"
    "\<And>x. x < a \<or> a + 24 \<le> x \<Longrightarrow> m' x = m x"
proof -
  let ?n = "a + 32 + s" and ?nn = "if bs = [] then 0 else a + 32 + s + 32 + t"
  let ?m = "set_block_next a ?nn (set_block_size a (s + 32 + t) m)"
  have h: "hdr m a s True ?n" "hdr m ?n t True ?nn" "heap_seg m (?n + 32 + t) bs 0"
    using seg by auto
  have "block_next (set_block_size a v m) ?n = block_next m ?n" for v by (simp add: block_defs mem_frame)
  then have "kfree_coalesce m a = kfree_coalesce ?m a"
    using h a bd by (subst kfree_coalesce.simps) (auto simp: hdr_def Let_def)
  moreover have fr: "?m x = m x" if "x < a \<or> a + 24 \<le> x" for x
    using that by (simp add: set_block_outside)
  have "heap_seg ?m (?n + 32 + t) bs 0"
    by (subst heap_seg_outside [of _ _ _ m]) (use h(3) fr in auto)
  then have "heap_seg ?m a ((s + 32 + t, True) # bs) 0"
    using h bd by (auto simp: hdr_def add.assoc)
  ultimately show ?thesis using fr that by blast
qed

lemma kfree_coalesce_correct:
  "heap_seg m a bs 0 \<Longrightarrow> bs \<noteq> [] \<Longrightarrow> 0 < a \<Longrightarrow> a + span bs < SIZE_MOD \<Longrightarrow> coal_ok m a bs"
proof (induction bs arbitrary: m a rule: coal.induct)
  case (1 b d bs)
  show ?case
  proof (cases "snd b \<and> snd d")
    case True
    then obtain s t where bd: "b = (s, True)" "d = (t, True)" by (cases b; cases d) auto
    obtain m' where m': "kfree_coalesce m a = kfree_coalesce m' a" "heap_seg m' a ((s + 32 + t, True) # bs) 0"
      "\<And>x. x < a \<or> a + 24 \<le> x \<Longrightarrow> m' x = m x"
      using coal_merge [of m a s t bs] 1 bd by blast
    have "coal_ok m' a ((s + 32 + t, True) # bs)"
      using 1(1) [OF True, of m' a] m'(2) 1(5,6) bd by simp
    then show ?thesis unfolding coal_ok_def using m'(1,3) bd by (auto simp: add.assoc add.left_commute)
  next
    case False
    obtain s f where b: "b = (s, f)" by (cases b)
    have "coal_ok m (a + 32 + s) (d # bs)" by (rule 1(2) [OF False]) (use 1 b in auto)
    then show ?thesis unfolding b by (intro coal_advance) (use 1 b False in auto)
  qed
next
  case (2 b)
  then show ?case by (cases b) (auto intro: coal_advance)
qed simp

subsection \<open>Allocation\<close>

definition pieces :: "nat \<Rightarrow> nat \<Rightarrow> block list" where
  \<comment> \<open>what a free block of size \<open>s\<close> becomes when \<open>k\<close> bytes of it are handed out\<close>
  "pieces k s = (if k + 48 \<le> s then [(k, False), (s - k - 32, True)] else [(s, False)])"

lemma pieces_facts:
  "k \<le> s \<Longrightarrow> span (pieces k s) = 32 + s" "pieces k s \<noteq> []" "k \<le> s \<Longrightarrow> k \<le> fst (hd (pieces k s))"
  "snd (hd (pieces k s)) = False" "k \<le> s \<Longrightarrow> fst (hd (pieces k s)) \<le> s"
  "(c, t, False) \<in> set (locate a (pieces k s)) \<longleftrightarrow> c = a \<and> t = fst (hd (pieces k s))"
  "coalesced (pieces k s)"
  by (auto simp: pieces_def)

lemma pieces_aligned: "16 dvd k \<Longrightarrow> 16 dvd s \<Longrightarrow> \<forall>b \<in> set (pieces k s). (16 :: nat) dvd fst b"
  by (auto simp: pieces_def intro!: dvd_diff_nat)

lemma kmalloc_split_correct:
  assumes h: "hdr m c s True nx" and k: "k \<le> s" and bd: "c + 32 + s < SIZE_MOD" "s + 48 < SIZE_MOD" and nx: "nx < SIZE_MOD"
  defines "m' \<equiv> set_block_free c 0 (kmalloc_split c k m)"
  shows "heap_seg m' c (pieces k s) nx" "block_size m' c = fst (hd (pieces k s))"
    "\<And>x. x < c \<or> c + 32 + s \<le> x \<Longrightarrow> m' x = m x"
proof -
  let ?n = "c + 32 + k"
  have "heap_seg m' c (pieces k s) nx \<and> (\<forall>x. x < c \<or> c + 32 + s \<le> x \<longrightarrow> m' x = m x)"
  proof (cases "k + 48 \<le> s")
    case False
    then have "m' = set_block_free c 0 m"
      using h k bd by (simp add: m'_def kmalloc_split_def hdr_def mod_less)
    then show ?thesis using h False by (auto simp: pieces_def hdr_def set_block_outside)
  next
    case True
    define m1 where "m1 = set_block_next ?n nx (set_block_free ?n 1 (set_block_size ?n (s - k - 32) m))"
    have m': "m' = set_block_free c 0 (set_block_size c k (set_block_next c ?n m1))"
    proof -
      have "block_next (set_block_free ?n 1 (set_block_size ?n v m)) c = block_next m c" for v
        using True by (simp add: block_defs mem_frame)
      then show ?thesis using h bd True by (simp add: m'_def kmalloc_split_def hdr_def Let_def m1_def)
    qed
    have "hdr m1 ?n (s - k - 32) True nx" using bd nx by (simp add: m1_def hdr_def)
    then have "hdr m' ?n (s - k - 32) True nx"
      by (subst hdr_cong [of _ _ m1]) (auto simp: m' set_block_outside)
    moreover have "hdr m1 c s True nx"
      by (subst hdr_cong [of _ _ m]) (use h in \<open>auto simp: m1_def set_block_outside\<close>)
    then have "hdr m' c k False ?n" using True bd by (simp add: m' hdr_def)
    moreover have "m' x = m x" if "x < c \<or> c + 32 + s \<le> x" for x
      using that True by (auto simp: m' m1_def set_block_outside)
    ultimately show ?thesis using True by (auto simp: pieces_def)
  qed
  then show seg: "heap_seg m' c (pieces k s) nx" and "\<And>x. x < c \<or> c + 32 + s \<le> x \<Longrightarrow> m' x = m x" by auto
  show "block_size m' c = fst (hd (pieces k s))" using seg by (auto simp: pieces_def hdr_def split: if_splits)
qed

lemma align_up_small: "n + 15 < 4294967296 \<Longrightarrow> n \<le> align_up n \<and> align_up n < n + 16 \<and> 16 dvd align_up n"
proof -
  assume n: "n + 15 < 4294967296"
  then have "align_up n = (n + 15) div 16 * 16" by (simp add: align_up_def)
  then show ?thesis by presburger
qed

lemma heap_rel_bound: "heap_rel h L bs \<Longrightarrow> g_arena h + span bs < SIZE_MOD"
  by (simp add: heap_rel_def kheap_placed_def)

lemma heap_rel_replace:
  \<comment> \<open>a block is split or handed out; memory changes within this block only\<close>
  assumes R: "heap_rel h L (xs @ (s, f) # ys)" and k: "k \<le> s" "16 dvd k" and len: "length d \<le> k"
    and f: "f" and c: "c = g_arena h + span xs"
    and seg: "heap_seg m c (pieces k s) (if ys = [] then 0 else c + 32 + s)"
    and out: "\<And>x. x < c \<or> c + 32 + s \<le> x \<Longrightarrow> m x = g_mem h x"
    and dat: "\<And>i. i < length d \<Longrightarrow> m (c + 32 + i) = d ! i"
  shows "heap_rel (h\<lparr> g_mem := m \<rparr>) (L(c + 32 \<mapsto> d)) (xs @ pieces k s @ ys)"
proof -
  let ?a = "g_arena h" and ?new = "xs @ pieces k s @ ys" and ?old = "xs @ (s, f) # ys"
  note P = pieces_facts [of k s]
  have R': "heap_seg (g_mem h) ?a ?old 0" "coalesced ?old" "\<forall>b \<in> set ?old. 16 dvd fst b" "span ?old = KHEAP_ARENA_SIZE"
    using R by (auto simp: heap_rel_def)
  have used: "(c', t, False) \<in> set (locate ?a ?new) \<longleftrightarrow> (c', t, False) \<in> set (locate ?a ?old) \<or> c' = c \<and> t = fst (hd (pieces k s))" for c' t
    using f k(1) P(1) by (auto simp: c add.assoc pieces_facts(6))
  have seg1: "heap_seg (g_mem h) ?a xs c" "heap_seg (g_mem h) (c + 32 + s) ys 0"
    using R'(1) by (auto simp: heap_seg_append c)
  have "heap_seg m ?a xs c" by (subst heap_seg_outside [of _ _ _ "g_mem h"]) (use seg1(1) out in \<open>auto simp: c\<close>)
  moreover have "heap_seg m (c + 32 + s) ys 0"
    by (subst heap_seg_outside [of _ _ _ "g_mem h"]) (use seg1(2) out in auto)
  ultimately have "heap_seg m ?a ?new 0"
    unfolding heap_seg_append using seg [unfolded c] P(1,2) k(1) by (auto simp: c add.assoc split: if_splits)
  moreover have "coalesced ?new"
    using R'(2) f P(2,4,7) unfolding coalesced_append
    by (auto simp: coalesced_Cons pieces_def hd_append split: if_splits)
  moreover have "\<forall>b \<in> set ?new. 16 dvd fst b" using R'(3) pieces_aligned [of k s] k(2) by auto
  moreover have "span ?new = KHEAP_ARENA_SIZE" using R'(4) P(1) k(1) by simp
  moreover have "dom (L(c + 32 \<mapsto> d)) = {c' + 32 |c' t. (c', t, False) \<in> set (locate ?a ?new)}"
    using R used by (auto simp: heap_rel_def)
  moreover have "length d' \<le> t \<and> (\<forall>i<length d'. m (c' + 32 + i) = d' ! i)"
    if "(c', t, False) \<in> set (locate ?a ?new)" "(L(c + 32 \<mapsto> d)) (c' + 32) = Some d'" for c' t d'
  proof (cases "c' = c")
    case True
    have "(c, s, True) \<in> set (locate ?a ?old)" using f by (simp add: c)
    then have "t = fst (hd (pieces k s))" using that(1) used locate_unique [of c s True ?a ?old t False] True by auto
    then show ?thesis using that True dat len P(3) k(1) by auto
  next
    case False
    have old: "(c', t, False) \<in> set (locate ?a ?old)" using that used False by blast
    have "(c, s, True) \<in> set (locate ?a ?old)" using f by (simp add: c)
    then have "c' + 32 + t \<le> c \<or> c + 32 + s \<le> c'" using locate_disjoint [OF old] False by blast
    moreover have "length d' \<le> t \<and> (\<forall>i<length d'. g_mem h (c' + 32 + i) = d' ! i)"
      using R old that(2) False by (auto simp: heap_rel_def)
    ultimately show ?thesis using out by auto
  qed
  ultimately show ?thesis using R P(2) unfolding heap_rel_def kheap_placed_def by simp
qed

lemma kmalloc_rel:
  assumes R: "heap_rel h L bs" and n: "0 < n" "n + 15 < 4294967296"
  obtains (none) "kmalloc n h = Some (0, h)" "\<forall>b \<in> set bs. \<not> (snd b \<and> align_up n \<le> fst b)"
  | (ok) c s h' bs' where "kmalloc n h = Some (c + 32, h')" "(c, s, True) \<in> set (locate (g_arena h) bs)" "align_up n \<le> s"
      "heap_rel h' (L(c + 32 \<mapsto> replicate n 0)) bs'" "g_arena h' = g_arena h"
proof -
  let ?k = "align_up n" and ?a = "g_arena h"
  have R': "heap_seg (g_mem h) ?a bs 0" "bs \<noteq> []" "0 < ?a" "g_initialized h" "g_head h = ?a"
    using R by (auto simp: heap_rel_def kheap_placed_def)
  show ?thesis
  proof (cases "\<exists>b \<in> set bs. snd b \<and> ?k \<le> fst b")
    case False
    then have "kmalloc_search (g_mem h) ?k ?a = Some 0" using kmalloc_search_none [OF R'(1-3)] by blast
    then show ?thesis using False R' n(1) by (intro none) (auto simp: kmalloc_def Let_def)
  next
    case True
    then obtain xs b ys where bs: "bs = xs @ b # ys" "snd b \<and> ?k \<le> fst b" "\<forall>y \<in> set xs. \<not> (snd y \<and> ?k \<le> fst y)"
      by (rule split_list_first_propE) blast
    then obtain s where b: "b = (s, True)" "?k \<le> s" by (cases b) auto
    define c where "c = ?a + span xs"
    have sr: "kmalloc_search (g_mem h) ?k ?a = Some c"
      unfolding c_def by (rule kmalloc_search_found [of _ _ _ s ys 0]) (use R' bs b in auto)
    let ?nx = "if ys = [] then 0 else c + 32 + s"
    have h: "hdr (g_mem h) c s True ?nx" using R'(1) bs b by (auto simp: heap_seg_append c_def)
    have mem: "(c, s, True) \<in> set (locate ?a bs)" using bs b by (simp add: c_def)
    have bd: "c + 32 + s < SIZE_MOD" "s + 48 < SIZE_MOD"
      using locate_bounds [OF mem] heap_rel_bound [OF R] R by (auto simp: heap_rel_def)
    define m where "m = set_block_free c 0 (kmalloc_split c ?k (g_mem h))"
    define m' where "m' = mem_zero m (c + 32) (block_size m c)"
    have nx: "?nx < SIZE_MOD" using bd by simp
    note S = kmalloc_split_correct [OF h b(2) bd nx, folded m_def]
    note P = pieces_facts [of ?k s]
    have k: "n \<le> ?k" "16 dvd ?k" using align_up_small [OF n(2)] by auto
    have seg': "heap_seg m' c (pieces ?k s) ?nx"
      by (subst heap_seg_cong [of _ _ _ m]) (use S(1) b(2) in \<open>auto simp: m'_def S(2) pieces_def split: if_splits\<close>)
    have out': "m' x = g_mem h x" if "x < c \<or> c + 32 + s \<le> x" for x
      using that S(3) [OF that] P(5) b(2) by (auto simp: m'_def S(2))
    have dat': "m' (c + 32 + i) = replicate n 0 ! i" if "i < length (replicate n (0 :: u8))" for i
      using that P(3) b(2) k(1) by (simp add: m'_def S(2))
    have rel: "heap_rel (h\<lparr> g_mem := m' \<rparr>) (L(c + 32 \<mapsto> replicate n 0)) (xs @ pieces ?k s @ ys)"
      by (rule heap_rel_replace [OF R [unfolded bs(1) b(1)] b(2) k(2) _ TrueI c_def seg' out' dat']) (use k in auto)
    have run: "kmalloc n h = Some (c + 32, h\<lparr> g_mem := m' \<rparr>)"
      using sr R' n(1) c_def by (simp add: kmalloc_def Let_def m'_def m_def)
    show ?thesis by (rule ok [OF run mem b(2) rel]) simp
  qed
qed

subsection \<open>Release\<close>

lemma locate_free_used:
  "(c, t, False) \<in> set (locate a (xs @ (s, True) # ys)) \<longleftrightarrow>
   (c, t, False) \<in> set (locate a (xs @ (s, False) # ys)) \<and> c \<noteq> a + span xs"
  using locate_bounds [of c t False a xs] locate_bounds [of c t False "a + span xs + 32 + s" ys] by auto

lemma kfree_rel:
  assumes R: "heap_rel h L bs" and p: "p \<in> dom L"
  obtains h' bs' where "kfree p h = Some h'" "heap_rel h' (L(p := None)) bs'" "g_arena h' = g_arena h"
proof -
  let ?a = "g_arena h" and ?m = "g_mem h"
  have R': "heap_seg ?m ?a bs 0" "bs \<noteq> []" "0 < ?a" "g_initialized h" "g_head h = ?a" "span bs = KHEAP_ARENA_SIZE"
    "?a + KHEAP_ARENA_SIZE < SIZE_MOD" "\<forall>b \<in> set bs. 16 dvd fst b"
    using R by (auto simp: heap_rel_def kheap_placed_def)
  obtain c s where c: "p = c + 32" "(c, s, False) \<in> set (locate ?a bs)"
    using R p unfolding heap_rel_def by blast
  obtain xs ys where bs: "bs = xs @ (s, False) # ys" "c = ?a + span xs" using locate_split [OF c(2)] by blast
  let ?bs1 = "xs @ (s, True) # ys" and ?m1 = "set_block_free c 1 ?m"
  have used1: "(c', t, False) \<in> set (locate ?a ?bs1) \<longleftrightarrow> (c', t, False) \<in> set (locate ?a bs) \<and> c' \<noteq> c" for c' t
    unfolding bs by (rule locate_free_used)
  have hdrs1: "(c', t, f) \<in> set (locate ?a ?bs1) \<Longrightarrow> \<exists>f. (c', t, f) \<in> set (locate ?a bs)" for c' t f
    by (auto simp: bs)
  have seg0: "heap_seg ?m ?a xs c" "hdr ?m c s False (if ys = [] then 0 else c + 32 + s)" "heap_seg ?m (c + 32 + s) ys 0"
    using R'(1) by (auto simp: bs heap_seg_append)
  have "heap_seg ?m1 ?a xs c" by (subst heap_seg_outside [of _ _ _ ?m]) (use seg0(1) in \<open>auto simp: bs set_block_outside\<close>)
  moreover have "heap_seg ?m1 (c + 32 + s) ys 0"
    by (subst heap_seg_outside [of _ _ _ ?m]) (use seg0(3) in \<open>auto simp: set_block_outside\<close>)
  ultimately have seg1: "heap_seg ?m1 ?a ?bs1 0" using seg0(2) by (auto simp: bs heap_seg_append hdr_def)
  have sp: "span ?bs1 = span bs" by (simp add: bs)
  have "coal_ok ?m1 ?a ?bs1" by (rule kfree_coalesce_correct [OF seg1]) (use R' sp in auto)
  then obtain m' where m': "kfree_coalesce ?m1 ?a = Some m'" "heap_seg m' ?a (coal ?bs1) 0"
    "\<And>x. (\<forall>c s f. (c, s, f) \<in> set (locate ?a ?bs1) \<longrightarrow> x < c \<or> c + 24 \<le> x) \<Longrightarrow> m' x = ?m1 x"
    unfolding coal_ok_def by blast
  let ?h = "h\<lparr> g_mem := m' \<rparr>"
  have payload: "m' (c' + 32 + i) = ?m (c' + 32 + i)" if "(c', t, False) \<in> set (locate ?a bs)" "i < t" for c' t i
  proof -
    have apart: "c' + 32 + i < c'' \<or> c'' + 24 \<le> c' + 32 + i" if "(c'', u, f) \<in> set (locate ?a bs)" for c'' u f
      using locate_disjoint [OF \<open>(c', t, False) \<in> _\<close> that] \<open>i < t\<close> by (cases "c'' = c'") auto
    then have "m' (c' + 32 + i) = ?m1 (c' + 32 + i)" using hdrs1 by (intro m'(3)) blast
    then show ?thesis using apart [OF c(2)] by (simp add: set_block_outside)
  qed
  have "(c + 32 + SIZE_MOD - 32) mod SIZE_MOD = c" "c < ?a + KHEAP_ARENA_SIZE" "?a \<le> c"
    using locate_bounds [OF c(2)] R' by auto
  then have "kfree p h = Some ?h" using m'(1) R'(4,5) c(1) by (simp add: kfree_def)
  moreover have "heap_rel ?h (L(p := None)) (coal ?bs1)"
    unfolding heap_rel_def
  proof (intro conjI allI impI)
    show "\<forall>b \<in> set (coal ?bs1). 16 dvd fst b" by (rule coal_aligned) (use R'(8) in \<open>auto simp: bs\<close>)
    show "kheap_placed ?h" using R by (simp add: heap_rel_def kheap_placed_def)
    show "span (coal ?bs1) = KHEAP_ARENA_SIZE" using sp R'(6) by (simp only: span_coal)
    show "dom (L(p := None)) = {c' + 32 |c' t. (c', t, False) \<in> set (locate (g_arena ?h) (coal ?bs1))}"
    proof -
      have "dom L = {c' + 32 |c' t. (c', t, False) \<in> set (locate ?a bs)}" using R by (simp add: heap_rel_def)
      moreover have "g_arena ?h = ?a" by simp
      ultimately show ?thesis by (simp only: coal_used used1 c(1) dom_fun_upd) auto
    qed
    fix c' t d assume used: "(c', t, False) \<in> set (locate (g_arena ?h) (coal ?bs1))" and d: "(L(p := None)) (c' + 32) = Some d"
    then have old: "(c', t, False) \<in> set (locate ?a bs)" "L (c' + 32) = Some d" using used1 by (auto simp: coal_used split: if_splits)
    then have len: "length d \<le> t" and eq: "\<forall>i<length d. ?m (c' + 32 + i) = d ! i" using R by (auto simp: heap_rel_def)
    show "length d \<le> t" by (rule len)
    fix i assume "i < length d"
    then show "g_mem ?h (c' + 32 + i) = d ! i" using payload [OF old(1), of i] len eq by simp
  qed (use R' m'(2) in simp_all)
  ultimately show ?thesis using that by simp
qed

subsection \<open>Initial heap and client stores\<close>

lemma kheap_init_rel:
  assumes "kheap_placed h"
  shows "heap_rel (kheap_init h) Map.empty [(KHEAP_ARENA_SIZE - 32, True)]" "g_arena (kheap_init h) = g_arena h"
proof -
  let ?m = "g_mem (kheap_init h)"
  have init: "g_arena (kheap_init h) = g_arena h" "g_head (kheap_init h) = g_arena h" "g_initialized (kheap_init h)"
    and m: "?m = set_block_next (g_arena h) 0 (set_block_free (g_arena h) 1 (set_block_size (g_arena h) (KHEAP_ARENA_SIZE - 32) (g_mem h)))"
    by (simp_all add: kheap_init_def Let_def)
  have "hdr ?m (g_arena h) (KHEAP_ARENA_SIZE - 32) True 0" unfolding m hdr_def by simp
  then show "heap_rel (kheap_init h) Map.empty [(KHEAP_ARENA_SIZE - 32, True)]"
    using assms init(3) unfolding heap_rel_def kheap_placed_def init by simp
  show "g_arena (kheap_init h) = g_arena h" by (rule init)
qed

definition heap_store :: "nat \<Rightarrow> u8 \<Rightarrow> kheap \<Rightarrow> kheap" where
  \<comment> \<open>a client writes one byte through a pointer\<close>
  "heap_store x b h = h\<lparr> g_mem := (g_mem h)(x := b) \<rparr>"

lemma heap_rel_data:
  assumes "heap_rel h L bs" "(c, s, False) \<in> set (locate (g_arena h) bs)" "L (c + 32) = Some d"
  shows "length d \<le> s" "\<forall>i<length d. g_mem h (c + 32 + i) = d ! i"
  using assms unfolding heap_rel_def by simp_all

lemma heap_rel_dom:
  "heap_rel h L bs \<Longrightarrow> dom L = {c + 32 |c s. (c, s, False) \<in> set (locate (g_arena h) bs)}"
  unfolding heap_rel_def by simp

lemma heap_rel_live:
  assumes "heap_rel h L bs" "L p = Some d"
  obtains c s where "p = c + 32" "(c, s, False) \<in> set (locate (g_arena h) bs)" "length d \<le> s"
    "\<forall>i<length d. g_mem h (p + i) = d ! i"
proof -
  have "p \<in> dom L" using assms(2) by blast
  then obtain c s where c: "p = c + 32" "(c, s, False) \<in> set (locate (g_arena h) bs)"
    using heap_rel_dom [OF assms(1)] by blast
  show ?thesis
    by (rule that [OF c]) (use heap_rel_data [OF assms(1) c(2), of d] assms(2) c(1) in simp_all)
qed

lemma heap_store_rel:
  assumes R: "heap_rel h L bs" and d: "L p = Some d" "i < length d"
  shows "heap_rel (heap_store (p + i) b h) (L(p \<mapsto> d[i := b])) bs"
proof -
  let ?a = "g_arena h" and ?h = "heap_store (p + i) b h"
  obtain c s where c: "p = c + 32" "(c, s, False) \<in> set (locate ?a bs)" "length d \<le> s" "\<forall>i<length d. g_mem h (p + i) = d ! i"
    by (rule heap_rel_live [OF R d(1)])
  have far: "c + 32 + s \<le> c' \<or> c' + 32 + t \<le> c \<or> c' = c" if "(c', t, f) \<in> set (locate ?a bs)" for c' t f
    using locate_disjoint [OF c(2) that] by auto
  have "g_mem ?h x = g_mem h x" if "(c', t, f) \<in> set (locate ?a bs)" "c' \<le> x" "x < c' + 24" for c' t f x
    using far [OF that(1)] that(2,3) c(1,3) d(2) by (auto simp: heap_store_def)
  then have "heap_seg (g_mem ?h) ?a bs 0 = heap_seg (g_mem h) ?a bs 0" by (rule heap_seg_cong)
  then have seg: "heap_seg (g_mem ?h) ?a bs 0" using R by (simp add: heap_rel_def)
  show ?thesis
    unfolding heap_rel_def
  proof (intro conjI allI impI)
    show "dom (L(p \<mapsto> d[i := b])) = {c' + 32 |c' t. (c', t, False) \<in> set (locate (g_arena ?h) bs)}"
      using heap_rel_dom [OF R] c(1,2) by (auto simp: heap_store_def)
    fix c' t e assume u: "(c', t, False) \<in> set (locate (g_arena ?h) bs)" and e: "(L(p \<mapsto> d[i := b])) (c' + 32) = Some e"
    have u': "(c', t, False) \<in> set (locate ?a bs)" using u by (simp add: heap_store_def)
    have "length e \<le> t \<and> (\<forall>j<length e. g_mem ?h (c' + 32 + j) = e ! j)"
    proof (cases "c' = c")
      case True
      then have "e = d[i := b]" "t = s" using e c(1) locate_unique [OF u'] c(2) by auto
      then show ?thesis using True c(1,3,4) d(2) by (auto simp: heap_store_def nth_list_update)
    next
      case False
      then have "L (c' + 32) = Some e" using e c(1) by simp
      then have "length e \<le> t" "\<forall>j<length e. g_mem h (c' + 32 + j) = e ! j" using heap_rel_data [OF R u'] by auto
      then show ?thesis using far [OF u'] False c(1,3) d(2) by (auto simp: heap_store_def)
    qed
    then show "length e \<le> t" "\<And>j. j < length e \<Longrightarrow> g_mem ?h (c' + 32 + j) = e ! j" by auto
  qed (use R seg in \<open>auto simp: heap_rel_def heap_store_def kheap_placed_def\<close>)
qed

lemma coalesced_all_free:
  "coalesced bs \<Longrightarrow> \<forall>b \<in> set bs. snd b \<Longrightarrow> bs \<noteq> [] \<Longrightarrow> \<exists>s. bs = [(s, True)]"
  by (cases bs rule: coalesced.cases) auto

lemma heap_rel_empty:
  assumes "heap_rel h Map.empty bs"
  shows "bs = [(KHEAP_ARENA_SIZE - 32, True)]"
proof -
  have none: "(c, s, False) \<notin> set (locate (g_arena h) bs)" for c s using heap_rel_dom [OF assms] by auto
  have bs: "coalesced bs" "bs \<noteq> []" "span bs = KHEAP_ARENA_SIZE" using assms by (simp_all add: heap_rel_def)
  have "snd b" if b: "b \<in> set bs" for b
  proof -
    obtain xs ys where bs: "bs = xs @ b # ys" using split_list [OF b] by blast
    then have "(g_arena h + span xs, fst b, snd b) \<in> set (locate (g_arena h) bs)" by (cases b) simp
    then show ?thesis using none by (cases "snd b") auto
  qed
  then obtain s where "bs = [(s, True)]" using coalesced_all_free [OF bs(1)] bs(2) by blast
  then show ?thesis using bs(3) by simp
qed

section \<open>Client histories\<close>

inductive heap_step :: "kheap \<times> live \<Rightarrow> kheap \<times> live \<Rightarrow> bool" where
  malloc: "0 < n \<Longrightarrow> n \<le> 4294967280 \<Longrightarrow> kmalloc n h = Some (p, h') \<Longrightarrow>
    heap_step (h, L) (h', if p = 0 then L else L(p \<mapsto> replicate n 0))"
| free: "p \<in> dom L \<Longrightarrow> kfree p h = Some h' \<Longrightarrow> heap_step (h, L) (h', L(p := None))"
| store: "L p = Some d \<Longrightarrow> i < length d \<Longrightarrow> heap_step (h, L) (heap_store (p + i) b h, L(p \<mapsto> d[i := b]))"

inductive_cases heap_stepE: "heap_step (h, L) (h', L')"

lemma heap_step_sim: "heap_step (h, L) (h', L') \<Longrightarrow> heap_sim h L \<Longrightarrow> heap_sim h' L' \<and> g_arena h' = g_arena h"
proof (erule heap_stepE)
  fix n p
  assume "heap_sim h L" and n: "0 < n" "n \<le> 4294967280" and m: "kmalloc n h = Some (p, h')"
    and L': "L' = (if p = 0 then L else L(p \<mapsto> replicate n 0))"
  then obtain bs where R: "heap_rel h L bs" by (auto simp: heap_sim_def)
  have n': "n + 15 < 4294967296" using n by simp
  show "heap_sim h' L' \<and> g_arena h' = g_arena h"
  proof (cases rule: kmalloc_rel [OF R n(1) n'])
    case 1
    then show ?thesis using m L' R by (auto simp: heap_sim_def)
  next
    case (2 c s h'' bs')
    then show ?thesis using m L' by (auto simp: heap_sim_def)
  qed
next
  fix p assume "heap_sim h L" and p: "p \<in> dom L" "kfree p h = Some h'" "L' = L(p := None)"
  then obtain bs where R: "heap_rel h L bs" unfolding heap_sim_def by blast
  show "heap_sim h' L' \<and> g_arena h' = g_arena h"
    by (rule kfree_rel [OF R p(1)]) (use p(2,3) in \<open>auto simp: heap_sim_def\<close>)
next
  fix p d i b
  assume "heap_sim h L" and p: "L p = Some d" "i < length d" "h' = heap_store (p + i) b h" "L' = L(p \<mapsto> d[i := b])"
  then obtain bs where "heap_rel h L bs" unfolding heap_sim_def by blast
  from heap_store_rel [OF this p(1,2)] show "heap_sim h' L' \<and> g_arena h' = g_arena h"
    unfolding p(3,4) heap_sim_def by (auto simp: heap_store_def)
qed

lemma heap_steps_sim:
  "heap_step\<^sup>*\<^sup>* (h, L) (h', L') \<Longrightarrow> heap_sim h L \<Longrightarrow> heap_sim h' L' \<and> g_arena h' = g_arena h"
  by (induction "(h', L')" arbitrary: h' L' rule: rtranclp_induct) (auto dest: heap_step_sim)

section \<open>Properties\<close>

lemma kmalloc_empty:
  assumes "heap_rel h Map.empty bs" "0 < n" "n \<le> KHEAP_ARENA_SIZE - 32"
  shows "\<exists>h'. kmalloc n h = Some (g_arena h + 32, h')"
proof -
  have n: "n + 15 < 4294967296" using assms(3) by simp
  have fit: "align_up n \<le> KHEAP_ARENA_SIZE - 32" using align_up_small [OF n] assms(3) by presburger
  note bs = heap_rel_empty [OF assms(1)]
  show ?thesis
    by (cases rule: kmalloc_rel [OF assms(1,2) n]) (use bs fit in auto)
qed

lemma kmalloc_mod_4G:
  assumes "0 < j"
  shows "kmalloc (j + 4294967296 * k) h = kmalloc j h"
proof -
  have dv: "(4294967296 :: nat) dvd SIZE_MOD" by simp
  have comm: "j + 4294967296 * k + 16 - 1 = (j + 16 - 1) + 4294967296 * k" using assms by linarith
  have "align_up (j + 4294967296 * k) = align_up j"
    unfolding align_up_def comm mod_mod_cancel [OF dv] mod_mult_self2 ..
  then show ?thesis using assms by (simp add: kmalloc_def)
qed

text \<open>
  C20: The heap implements its contract on every heap a client can reach.  A request of 1 to
  2^32 - 16 bytes returns; the pointer it returns is either null or 16-byte aligned, lies with all
  its bytes in the arena, overlaps no live allocation, and reads as zeros, while the bytes of every
  other live allocation stay what the client last stored.  Freeing a live pointer returns, ends
  exactly that allocation and keeps the contents of all others.
\<close>

theorem kheap_refines:
  assumes "kheap_placed h0" "heap_step\<^sup>*\<^sup>* (kheap_init h0, Map.empty) (h, L)"
  shows "(\<forall>p d i. L p = Some d \<longrightarrow> i < length d \<longrightarrow> g_mem h (p + i) = d ! i) \<and>
    (0 < n \<longrightarrow> n \<le> 4294967280 \<longrightarrow>
      (\<exists>p h'. kmalloc n h = Some (p, h') \<and>
        (if p = 0 then h' = h
         else p mod 16 = 0 \<and> g_arena h0 \<le> p \<and> p + n \<le> g_arena h0 + kheap_total_bytes \<and>
           (\<forall>q d. L q = Some d \<longrightarrow> p + n \<le> q \<or> q + length d \<le> p) \<and>
           (\<forall>q d i. (L(p \<mapsto> replicate n 0)) q = Some d \<longrightarrow> i < length d \<longrightarrow> g_mem h' (q + i) = d ! i)))) \<and>
    (q \<in> dom L \<longrightarrow>
      (\<exists>h'. kfree q h = Some h' \<and>
         (\<forall>p d i. p \<noteq> q \<longrightarrow> L p = Some d \<longrightarrow> i < length d \<longrightarrow> g_mem h' (p + i) = d ! i)))"
proof (intro conjI impI)
  have init: "heap_sim (kheap_init h0) Map.empty" "g_arena (kheap_init h0) = g_arena h0"
    using kheap_init_rel [OF assms(1)] by (auto simp: heap_sim_def)
  obtain bs where R: "heap_rel h L bs" and a: "g_arena h = g_arena h0"
    using heap_steps_sim [OF assms(2) init(1)] init(2) by (auto simp: heap_sim_def)
  show "\<forall>p d i. L p = Some d \<longrightarrow> i < length d \<longrightarrow> g_mem h (p + i) = d ! i"
    using heap_rel_live [OF R] by metis
  {
    assume n: "0 < n" "n \<le> 4294967280"
    have n': "n + 15 < 4294967296" using n(2) by simp
    show "\<exists>p h'. kmalloc n h = Some (p, h') \<and>
        (if p = 0 then h' = h
         else p mod 16 = 0 \<and> g_arena h0 \<le> p \<and> p + n \<le> g_arena h0 + kheap_total_bytes \<and>
           (\<forall>q d. L q = Some d \<longrightarrow> p + n \<le> q \<or> q + length d \<le> p) \<and>
           (\<forall>q d i. (L(p \<mapsto> replicate n 0)) q = Some d \<longrightarrow> i < length d \<longrightarrow> g_mem h' (q + i) = d ! i))"
    proof (cases rule: kmalloc_rel [OF R n(1) n'])
      case 1
      then show ?thesis by simp
    next
      case (2 c s h' bs')
      have k: "n \<le> s" using align_up_small [OF n'] 2(3) by simp
      have al: "c mod 16 = 0"
        by (rule locate_aligned [OF 2(2)]) (use R in \<open>auto simp: heap_rel_def kheap_placed_def\<close>)
      have sp: "span bs = KHEAP_ARENA_SIZE" using R by (simp add: heap_rel_def)
      have "(c + 32) mod 16 = 0" using al by presburger
      moreover have "g_arena h0 \<le> c + 32 \<and> c + 32 + n \<le> g_arena h0 + kheap_total_bytes"
        using locate_bounds [OF 2(2)] k a sp by (simp add: kheap_total_bytes_def)
      moreover have "c + 32 + n \<le> q \<or> q + length d \<le> c + 32" if "L q = Some d" for q d
      proof (rule heap_rel_live [OF R that])
        fix c' t assume q: "q = c' + 32" "(c', t, False) \<in> set (locate (g_arena h) bs)" "length d \<le> t"
        have "c \<noteq> c'" using locate_unique [OF 2(2)] q(2) by blast
        then show ?thesis using locate_disjoint [OF 2(2) q(2)] q(1,3) k by linarith
      qed
      moreover have "g_mem h' (q + i) = d ! i" if "(L(c + 32 \<mapsto> replicate n 0)) q = Some d" "i < length d" for q d i
        by (rule heap_rel_live [OF 2(4) that(1)]) (use that(2) in simp)
      ultimately show ?thesis using 2(1) by auto
    qed
  }
  {
    assume "q \<in> dom L"
    then obtain h' bs' where k: "kfree q h = Some h'" and R': "heap_rel h' (L(q := None)) bs'"
      by (rule kfree_rel [OF R])
    have "g_mem h' (p + i) = d ! i" if "p \<noteq> q" "L p = Some d" "i < length d" for p d i
    proof -
      have "(L(q := None)) p = Some d" using that by simp
      then show ?thesis by (rule heap_rel_live [OF R']) (use that(3) in simp)
    qed
    then show "\<exists>h'. kfree q h = Some h' \<and>
         (\<forall>p d i. p \<noteq> q \<longrightarrow> L p = Some d \<longrightarrow> i < length d \<longrightarrow> g_mem h' (p + i) = d ! i)"
      using k by blast
  }
qed

definition demo_arena :: kheap where
  "demo_arena = \<lparr> g_arena = 4096, g_mem = (\<lambda>_. 0xAA), g_head = 0, g_initialized = False \<rparr>"

lemma demo_arena_placed: "kheap_placed demo_arena"
  by (simp add: demo_arena_def kheap_placed_def)

theorem kheap_refines_witness:
  "\<exists>p h'. kmalloc 100 (kheap_init demo_arena) = Some (p, h') \<and> (p = 0 \<or> (\<forall>i<100. g_mem h' (p + i) = 0))"
proof -
  let ?h = "kheap_init demo_arena"
  obtain p h' where p: "kmalloc 100 ?h = Some (p, h')" and
    z: "p = 0 \<or> (\<forall>q d i. (Map.empty(p \<mapsto> replicate 100 0)) q = Some d \<longrightarrow> i < length d \<longrightarrow> g_mem h' (q + i) = d ! i)"
    using kheap_refines [OF demo_arena_placed, of ?h Map.empty 100 0] by (auto split: if_splits)
  have "p = 0 \<or> (\<forall>i<100. g_mem h' (p + i) = 0)"
  proof (rule disjE [OF z])
    assume all: "\<forall>q d i. (Map.empty(p \<mapsto> replicate 100 0)) q = Some d \<longrightarrow> i < length d \<longrightarrow> g_mem h' (q + i) = d ! i"
    have "g_mem h' (p + i) = 0" if "i < 100" for i
      using all [rule_format, of p "replicate 100 0" i] that by simp
    then show ?thesis by blast
  qed simp
  then show ?thesis using p by blast
qed

text \<open>
  C21: The heap neither leaks nor fragments for good.  Whatever a client did, once it has freed all
  it allocated the free list is again one block with all 2097120 bytes, the free-byte counter says
  so, and every request up to that size succeeds at the start of the arena.
\<close>

theorem kheap_no_leak:
  assumes "kheap_placed h0" "heap_step\<^sup>*\<^sup>* (kheap_init h0, Map.empty) (h, Map.empty)"
  shows "kheap_free_bytes h = Some (kheap_total_bytes - effective_header) \<and>
    (0 < n \<longrightarrow> n \<le> kheap_total_bytes - effective_header \<longrightarrow> (\<exists>h'. kmalloc n h = Some (g_arena h0 + effective_header, h')))"
proof -
  have init: "heap_sim (kheap_init h0) Map.empty" "g_arena (kheap_init h0) = g_arena h0"
    using kheap_init_rel [OF assms(1)] by (auto simp: heap_sim_def)
  obtain bs where R: "heap_rel h Map.empty bs" and a: "g_arena h = g_arena h0"
    using heap_steps_sim [OF assms(2) init(1)] init(2) by (auto simp: heap_sim_def)
  note bs = heap_rel_empty [OF R]
  have f: "heap_seg (g_mem h) (g_arena h) bs 0" "0 < g_arena h" "g_initialized h" "g_head h = g_arena h" "span bs = KHEAP_ARENA_SIZE"
    using R by (simp_all add: heap_rel_def kheap_placed_def)
  have "kheap_free_sum (g_mem h) (g_arena h) 0 = Some (0 + sum_list (map fst (filter snd bs)))"
    by (rule kheap_free_sum_eq [OF f(1) _ f(2)]) (use f(5) bs in simp_all)
  then have "kheap_free_bytes h = Some (kheap_total_bytes - effective_header)"
    using f(3,4) bs by (simp add: kheap_free_bytes_def kheap_total_bytes_def)
  then show ?thesis using kmalloc_empty [OF R, of n] a by (simp add: kheap_total_bytes_def)
qed

theorem kheap_no_leak_witness:
  "kheap_free_bytes (kheap_init demo_arena) = Some 2097120 \<and>
   (\<exists>h'. kmalloc 2097120 (kheap_init demo_arena) = Some (4096 + 32, h'))"
  using kheap_no_leak [OF demo_arena_placed, of "kheap_init demo_arena" 2097120]
  by (simp add: kheap_total_bytes_def) (simp add: demo_arena_def)

text \<open>
  Requests are served modulo 2^32.  The alignment mask of the allocator is a 32-bit constant,
  so a request of j + 2^32 * k bytes is answered exactly like one of j bytes: on a fresh heap it
  succeeds although it exceeds the whole arena many times.
\<close>

theorem kmalloc_truncates:
  assumes "0 < j" "j + 4294967296 * k < 2 ^ 64"
  shows "kmalloc (j + 4294967296 * k) h = kmalloc j h \<and>
    (kheap_placed h0 \<longrightarrow> j \<le> 2097120 \<longrightarrow> (\<exists>h'. kmalloc (j + 4294967296 * k) (kheap_init h0) = Some (g_arena h0 + 32, h')))"
proof -
  have eq: "kmalloc (j + 4294967296 * k) h' = kmalloc j h'" for h'
    by (rule kmalloc_mod_4G [OF assms(1)])
  have "\<exists>h'. kmalloc j (kheap_init h0) = Some (g_arena h0 + 32, h')" if "kheap_placed h0" "j \<le> 2097120"
    using kmalloc_empty [OF kheap_init_rel(1) [OF that(1)] assms(1)] that kheap_init_rel(2) by simp
  then show ?thesis by (simp add: eq)
qed

theorem kmalloc_truncates_witness:
  "\<exists>h'. kmalloc (1 + 4294967296) (kheap_init demo_arena) = Some (4096 + 32, h')"
  using kmalloc_truncates [of 1 1 demo_arena demo_arena] demo_arena_placed by (simp add: demo_arena_def)

end
