(* ===== verification/Event_Bus.thy ===== *)
theory Event_Bus
  imports Ring_Log Cap_Table
begin

text \<open>
  The event bus of \<^verbatim>\<open>kernel/event/event_bus.c\<close>: seven topic rings of sixteen events, a subscription
  bitset per topic, a global sequence number and the table of pending authorisation requests.

  An \<^verbatim>\<open>event_topic_t\<close> is an unsigned 32-bit value at run time.  Operations that index an array return
  an option: \<open>None\<close> is an access outside the array, which the language leaves undefined.  The
  capability table is read only and passed as an argument.
\<close>

section \<open>Types\<close>

type_synonym event_topic_t = u32

abbreviation "EVENT_TOPIC_DISK_IO_REQUEST \<equiv> (1 :: event_topic_t)"
abbreviation EVENT_TOPIC_COUNT :: nat where "EVENT_TOPIC_COUNT \<equiv> 7"
abbreviation EVENT_QUEUE_CAPACITY :: nat where "EVENT_QUEUE_CAPACITY \<equiv> 16"
abbreviation EVENT_PAYLOAD_MAX :: nat where "EVENT_PAYLOAD_MAX \<equiv> 96"
abbreviation PENDING_AUTH_MAX :: nat where "PENDING_AUTH_MAX \<equiv> 4"

datatype event_result_t =
    EVENT_OK
  | EVENT_ERR_SUBJECT_INVALID
  | EVENT_ERR_TOPIC_INVALID
  | EVENT_ERR_PAYLOAD_TOO_LARGE
  | EVENT_ERR_PAYLOAD_INVALID
  | EVENT_ERR_CAP_MISSING

record os_event_t =
  oe_sequence_id :: u64
  oe_topic :: event_topic_t
  oe_actor_subject_id :: cap_subject_id_t
  oe_target_subject_id :: cap_subject_id_t
  oe_correlation_id :: u64
  oe_payload_size :: nat
  oe_payload :: "u8 list"

datatype auth_prompt_type_t = AUTH_PROMPT_DISK_IO | AUTH_PROMPT_UNSIGNED_BINARY | AUTH_PROMPT_NETWORK

datatype auth_response_t = AUTH_RESPONSE_DENY | AUTH_RESPONSE_ALLOW | AUTH_RESPONSE_ALLOW_ALWAYS

record pending_auth_request_t =
  pa_active :: bool
  pa_correlation_id :: u64
  pa_session_id :: u32
  pa_type :: auth_prompt_type_t
  pa_description :: string
  pa_response :: auth_response_t
  pa_responded :: bool

record event_topic_ring_t =
  rg_events :: "os_event_t list"
  rg_next_index :: nat
  rg_event_count :: nat
  rg_dropped_count :: u64

record event_bus =
  event_topics :: "event_topic_ring_t list"
  event_subscriptions :: "u8 list"
  event_next_sequence_id :: u64
  g_pending_auth :: "pending_auth_request_t list"

section \<open>Operations\<close>

definition event_subject_valid :: "cap_subject_id_t \<Rightarrow> bool" where
  "event_subject_valid subject_id \<longleftrightarrow> subject_id < CAP_TABLE_MAX_SUBJECTS"

definition event_topic_valid :: "event_topic_t \<Rightarrow> bool" where
  \<comment> \<open>the lower bound is compared unsigned, the upper bound after a conversion to \<^verbatim>\<open>int\<close>\<close>
  "event_topic_valid topic \<longleftrightarrow> EVENT_TOPIC_DISK_IO_REQUEST \<le> topic \<and> sint topic \<le> int EVENT_TOPIC_COUNT"

definition event_topic_index :: "event_topic_t \<Rightarrow> nat" where
  "event_topic_index topic = unat (topic - 1)"

definition event_copy_bytes :: "u8 list \<Rightarrow> u8 list \<Rightarrow> nat \<Rightarrow> u8 list" where
  "event_copy_bytes dst src sz = take sz src @ drop sz dst"

definition event_bus_reset_for_tests :: "event_bus \<Rightarrow> event_bus" where
  "event_bus_reset_for_tests b = b\<lparr>
     event_topics := map (\<lambda>r. r\<lparr> rg_next_index := 0, rg_event_count := 0, rg_dropped_count := 0 \<rparr>) (event_topics b),
     event_subscriptions := replicate EVENT_TOPIC_COUNT 0,
     event_next_sequence_id := 0 \<rparr>"

definition event_subscribe ::
  "cap_table \<Rightarrow> cap_subject_id_t \<Rightarrow> event_topic_t \<Rightarrow> event_bus \<Rightarrow> (event_result_t \<times> event_bus) option" where
  "event_subscribe caps subject_id topic b =
    (if \<not> event_subject_valid subject_id then Some (EVENT_ERR_SUBJECT_INVALID, b)
     else if \<not> event_topic_valid topic then Some (EVENT_ERR_TOPIC_INVALID, b)
     else if cap_table_check subject_id CAP_EVENT_SUBSCRIBE caps \<noteq> CAP_OK then Some (EVENT_ERR_CAP_MISSING, b)
     else let topic_index = event_topic_index topic in
       if topic_index \<ge> EVENT_TOPIC_COUNT then None
       else Some (EVENT_OK, b\<lparr> event_subscriptions := (event_subscriptions b)[topic_index :=
              event_subscriptions b ! topic_index OR u8_bit (unat subject_id)] \<rparr>))"

definition event_unsubscribe ::
  "cap_table \<Rightarrow> cap_subject_id_t \<Rightarrow> event_topic_t \<Rightarrow> event_bus \<Rightarrow> (event_result_t \<times> event_bus) option" where
  "event_unsubscribe caps subject_id topic b =
    (if \<not> event_subject_valid subject_id then Some (EVENT_ERR_SUBJECT_INVALID, b)
     else if \<not> event_topic_valid topic then Some (EVENT_ERR_TOPIC_INVALID, b)
     else if cap_table_check subject_id CAP_EVENT_SUBSCRIBE caps \<noteq> CAP_OK then Some (EVENT_ERR_CAP_MISSING, b)
     else let topic_index = event_topic_index topic in
       if topic_index \<ge> EVENT_TOPIC_COUNT then None
       else Some (EVENT_OK, b\<lparr> event_subscriptions := (event_subscriptions b)[topic_index :=
              event_subscriptions b ! topic_index AND NOT (u8_bit (unat subject_id))] \<rparr>))"

definition event_is_subscribed_for_tests ::
  "cap_subject_id_t \<Rightarrow> event_topic_t \<Rightarrow> event_bus \<Rightarrow> bool option" where
  "event_is_subscribed_for_tests subject_id topic b =
    (if \<not> event_subject_valid subject_id then Some False
     else if \<not> event_topic_valid topic then Some False
     else let topic_index = event_topic_index topic in
       if topic_index \<ge> EVENT_TOPIC_COUNT then None
       else Some (event_subscriptions b ! topic_index AND u8_bit (unat subject_id) \<noteq> 0))"

definition event_ring_put :: "os_event_t \<Rightarrow> event_topic_ring_t \<Rightarrow> event_topic_ring_t" where
  \<comment> \<open>fill the slot at the write index, then advance; bytes of the slot beyond the payload stay\<close>
  "event_ring_put e r =
    (let slot = rg_events r ! rg_next_index r;
         slot = e\<lparr> oe_payload := event_copy_bytes (oe_payload slot) (oe_payload e) (oe_payload_size e) \<rparr>;
         r' = r\<lparr> rg_events := (rg_events r)[rg_next_index r := slot],
                 rg_next_index := (rg_next_index r + 1) mod EVENT_QUEUE_CAPACITY \<rparr>
     in if rg_event_count r < EVENT_QUEUE_CAPACITY
        then r'\<lparr> rg_event_count := rg_event_count r + 1 \<rparr>
        else r'\<lparr> rg_dropped_count := rg_dropped_count r + 1 \<rparr>)"

definition event_publish ::
  "cap_table \<Rightarrow> cap_subject_id_t \<Rightarrow> event_topic_t \<Rightarrow> cap_subject_id_t \<Rightarrow> u64 \<Rightarrow> u8 list option \<Rightarrow> nat \<Rightarrow>
   event_bus \<Rightarrow> (event_result_t \<times> u64 option \<times> event_bus) option" where
  \<comment> \<open>the middle result is the sequence number stored through the out pointer\<close>
  "event_publish caps actor_subject_id topic target_subject_id correlation_id payload payload_size b =
    (if \<not> event_subject_valid actor_subject_id \<or> \<not> event_subject_valid target_subject_id
     then Some (EVENT_ERR_SUBJECT_INVALID, None, b)
     else if \<not> event_topic_valid topic then Some (EVENT_ERR_TOPIC_INVALID, None, b)
     else if payload_size > EVENT_PAYLOAD_MAX then Some (EVENT_ERR_PAYLOAD_TOO_LARGE, None, b)
     else if payload_size > 0 \<and> payload = None then Some (EVENT_ERR_PAYLOAD_INVALID, None, b)
     else if cap_table_check actor_subject_id CAP_EVENT_PUBLISH caps \<noteq> CAP_OK then Some (EVENT_ERR_CAP_MISSING, None, b)
     else let topic_index = event_topic_index topic in
       if topic_index \<ge> EVENT_TOPIC_COUNT then None
       else let seq = event_next_sequence_id b;
                e = \<lparr> oe_sequence_id = seq, oe_topic = topic, oe_actor_subject_id = actor_subject_id,
                      oe_target_subject_id = target_subject_id, oe_correlation_id = correlation_id,
                      oe_payload_size = payload_size, oe_payload = (case payload of None \<Rightarrow> [] | Some p \<Rightarrow> p) \<rparr>
            in Some (EVENT_OK, Some seq,
                 b\<lparr> event_next_sequence_id := seq + 1,
                    event_topics := (event_topics b)[topic_index := event_ring_put e (event_topics b ! topic_index)] \<rparr>))"

definition event_count_for_topic_for_tests :: "event_topic_t \<Rightarrow> event_bus \<Rightarrow> nat option" where
  "event_count_for_topic_for_tests topic b =
    (if \<not> event_topic_valid topic then Some 0
     else if event_topic_index topic \<ge> EVENT_TOPIC_COUNT then None
     else Some (rg_event_count (event_topics b ! event_topic_index topic)))"

definition event_dropped_for_topic_for_tests :: "event_topic_t \<Rightarrow> event_bus \<Rightarrow> u64 option" where
  "event_dropped_for_topic_for_tests topic b =
    (if \<not> event_topic_valid topic then Some 0
     else if event_topic_index topic \<ge> EVENT_TOPIC_COUNT then None
     else Some (rg_dropped_count (event_topics b ! event_topic_index topic)))"

definition event_get_for_topic_for_tests ::
  "event_topic_t \<Rightarrow> nat \<Rightarrow> bool \<Rightarrow> event_bus \<Rightarrow> (event_result_t \<times> os_event_t option) option" where
  "event_get_for_topic_for_tests topic index out_event b =
    (if \<not> event_topic_valid topic then Some (EVENT_ERR_TOPIC_INVALID, None)
     else if event_topic_index topic \<ge> EVENT_TOPIC_COUNT then None
     else let ring = event_topics b ! event_topic_index topic in
       if \<not> out_event \<or> index \<ge> rg_event_count ring then Some (EVENT_ERR_PAYLOAD_INVALID, None)
       else let start = (if rg_event_count ring = EVENT_QUEUE_CAPACITY then rg_next_index ring else 0);
                slot = (start + index) mod EVENT_QUEUE_CAPACITY
            in Some (EVENT_OK, Some (rg_events ring ! slot)))"

definition event_get_pending_auth_table :: "event_bus \<Rightarrow> pending_auth_request_t list" where
  "event_get_pending_auth_table b = g_pending_auth b"

definition event_respond_auth :: "u64 \<Rightarrow> auth_response_t \<Rightarrow> event_bus \<Rightarrow> event_bus" where
  "event_respond_auth correlation_id response b =
    (case find_idx (\<lambda>p. pa_active p \<and> pa_correlation_id p = correlation_id) (g_pending_auth b) of
       None \<Rightarrow> b
     | Some i \<Rightarrow> b\<lparr> g_pending_auth := (g_pending_auth b)[i :=
         (g_pending_auth b ! i)\<lparr> pa_response := response, pa_responded := True \<rparr>] \<rparr>)"

section \<open>Histories\<close>

datatype event_op =
    E_Subscribe cap_subject_id_t event_topic_t
  | E_Unsubscribe cap_subject_id_t event_topic_t
  | E_Publish cap_subject_id_t event_topic_t cap_subject_id_t u64 "u8 list option" nat

text \<open>A call is an operation together with the capability table it finds.\<close>

type_synonym event_call = "cap_table \<times> event_op"

fun event_step :: "event_call \<Rightarrow> event_bus \<Rightarrow> event_bus option" where
  "event_step (caps, E_Subscribe s t) b = map_option snd (event_subscribe caps s t b)"
| "event_step (caps, E_Unsubscribe s t) b = map_option snd (event_unsubscribe caps s t b)"
| "event_step (caps, E_Publish a t g c p n) b = map_option (snd \<circ> snd) (event_publish caps a t g c p n b)"

primrec event_run :: "event_call list \<Rightarrow> event_bus \<Rightarrow> event_bus option" where
  "event_run [] b = Some b"
| "event_run (x # xs) b = Option.bind (event_step x b) (event_run xs)"

fun call_topic :: "event_call \<Rightarrow> event_topic_t" where
  "call_topic (caps, E_Subscribe s t) = t"
| "call_topic (caps, E_Unsubscribe s t) = t"
| "call_topic (caps, E_Publish a t g c p n) = t"

fun call_ok :: "event_call \<Rightarrow> bool" where
  \<comment> \<open>what the bus expects of its callers: a topic that is non-negative as an \<^verbatim>\<open>int\<close>, and a payload
    pointer with at least the stated number of bytes behind it\<close>
  "call_ok (caps, E_Publish a t g c p n) \<longleftrightarrow> t < 0x80000000 \<and> (case p of None \<Rightarrow> True | Some bytes \<Rightarrow> n \<le> length bytes)"
| "call_ok x \<longleftrightarrow> call_topic x < 0x80000000"

fun accepted :: "event_call \<Rightarrow> bool" where
  "accepted (caps, E_Publish a t g c p n) \<longleftrightarrow>
     a < CAP_TABLE_MAX_SUBJECTS \<and> g < CAP_TABLE_MAX_SUBJECTS \<and> 1 \<le> t \<and> t \<le> 7 \<and> n \<le> EVENT_PAYLOAD_MAX \<and>
     (n = 0 \<or> p \<noteq> None) \<and> cap_table_check a CAP_EVENT_PUBLISH caps = CAP_OK"
| "accepted x \<longleftrightarrow> False"

type_synonym event_data = "u64 \<times> event_topic_t \<times> cap_subject_id_t \<times> cap_subject_id_t \<times> u64 \<times> u8 list"

definition event_data :: "os_event_t \<Rightarrow> event_data" where
  \<comment> \<open>what an event says: all fields and the bytes of its payload\<close>
  "event_data e = (oe_sequence_id e, oe_topic e, oe_actor_subject_id e, oe_target_subject_id e,
     oe_correlation_id e, take (oe_payload_size e) (oe_payload e))"

fun publication :: "nat \<Rightarrow> event_call \<Rightarrow> event_data" where
  "publication k (caps, E_Publish a t g c p n) = (of_nat k, t, a, g, c, take n (case p of None \<Rightarrow> [] | Some bytes \<Rightarrow> bytes))"
| "publication k x = (of_nat k, call_topic x, 0, 0, 0, [])"

definition publications :: "event_call list \<Rightarrow> event_data list" where
  \<comment> \<open>the accepted publications of a history, numbered in order\<close>
  "publications xs = (let acc = filter accepted xs in map (\<lambda>k. publication k (acc ! k)) [0..<length acc])"

definition on_topic :: "event_topic_t \<Rightarrow> event_data list \<Rightarrow> event_data list" where
  "on_topic t ds = filter (\<lambda>d. fst (snd d) = t) ds"

section \<open>Lemmas\<close>

lemma sint_small: "t < 0x80000000 \<Longrightarrow> sint t = int (unat t)" for t :: u32
proof -
  assume "t < 0x80000000"
  then have "uint t < 2 ^ 31" by (simp add: word_less_def)
  moreover have "- (2 ^ 31) \<le> uint t" by (rule order_trans [OF _ uint_ge_0]) simp
  ultimately show ?thesis by (simp add: sint_uint signed_take_bit_int_eq_self)
qed

lemma sint_big: "0x80000000 \<le> t \<Longrightarrow> sint t < 0" for t :: u32
proof -
  assume "0x80000000 \<le> t"
  then have lo: "2 ^ 31 \<le> uint t" by (simp add: word_le_def)
  have "uint t < 2 ^ 32" using uint_lt2p [of t] by simp
  then have "uint t div 2 ^ 31 = 1" using lo by (intro int_div_pos_eq [where r = "uint t - 2 ^ 31"]) auto
  then have "bit (uint t) 31" by (simp add: bit_iff_odd)
  then show ?thesis by (simp add: sint_uint)
qed

lemma event_topic_valid_small: "t < 0x80000000 \<Longrightarrow> event_topic_valid t \<longleftrightarrow> 1 \<le> t \<and> t \<le> 7"
  unfolding event_topic_valid_def by (simp only: sint_small of_nat_le_iff word_le_nat_alt) simp

lemma event_topic_index_small: "1 \<le> t \<Longrightarrow> t \<le> 7 \<Longrightarrow> event_topic_index t = unat t - 1 \<and> unat t - 1 < 7"
  by (simp add: event_topic_index_def word_le_nat_alt unat_sub)

lemma event_topic_index_big: "0x80000000 \<le> t \<Longrightarrow> 7 \<le> event_topic_index t"
  by (simp add: event_topic_index_def word_le_nat_alt unat_sub)

interpretation topic_ring: ring_log 16 rg_events rg_next_index rg_event_count event_ring_put
    "\<lambda>e r. e\<lparr> oe_payload := event_copy_bytes (oe_payload (rg_events r ! rg_next_index r)) (oe_payload e) (oe_payload_size e) \<rparr>"
  by unfold_locales (auto simp: event_ring_put_def Let_def)

lemma rg_dropped_put:
  "rg_dropped_count (event_ring_put e r) = (if rg_event_count r < 16 then rg_dropped_count r else rg_dropped_count r + 1)"
  by (simp add: event_ring_put_def Let_def)

definition topic_inv :: "event_topic_ring_t \<Rightarrow> event_data list \<Rightarrow> bool" where
  \<comment> \<open>a ring after the publications \<open>ds\<close> on its topic\<close>
  "topic_inv r ds \<longleftrightarrow> topic_ring.ok r \<and> map event_data (topic_ring.contents r) = keep_last 16 ds \<and>
     rg_event_count r = min (length ds) 16 \<and> rg_dropped_count r = of_nat (length ds - 16)"

lemma map_keep_last: "map f (keep_last n xs) = keep_last n (map f xs)"
  by (simp add: keep_last_def drop_map)

lemma event_data_fill:
  "oe_payload_size e \<le> length (oe_payload e) \<Longrightarrow>
   event_data (e\<lparr> oe_payload := event_copy_bytes p (oe_payload e) (oe_payload_size e) \<rparr>) = event_data e"
  by (simp add: event_data_def event_copy_bytes_def)

lemma topic_inv_put:
  assumes "topic_inv r ds" "oe_payload_size e \<le> length (oe_payload e)"
  shows "topic_inv (event_ring_put e r) (ds @ [event_data e])"
proof -
  note put = topic_ring.push_ok topic_ring.push_contents topic_ring.cnt_push
  have "map event_data (topic_ring.contents (event_ring_put e r)) = keep_last 16 (ds @ [event_data e])"
    using assms keep_last_snoc [of 16 ds] by (simp add: topic_inv_def put map_keep_last event_data_fill)
  then show ?thesis
    using assms(1) by (auto simp: topic_inv_def put rg_dropped_put Suc_diff_le)
qed

definition bus_inv :: "event_bus \<Rightarrow> event_data list \<Rightarrow> bool" where
  "bus_inv b ds \<longleftrightarrow> length (event_topics b) = 7 \<and> event_next_sequence_id b = of_nat (length ds) \<and>
     (\<forall>i<7. topic_inv (event_topics b ! i) (on_topic (of_nat (i + 1)) ds))"

lemma publications_snoc:
  "publications (xs @ [x]) =
     publications xs @ (if accepted x then [publication (length (publications xs)) x] else [])"
  by (auto simp: publications_def Let_def nth_append)

lemma length_publications: "length (publications xs) = length (filter accepted xs)"
  by (simp add: publications_def Let_def)

lemma event_publish_accepted:
  assumes "call_ok (caps, E_Publish a t g c p n)"
  defines "e \<equiv> \<lambda>seq. \<lparr> oe_sequence_id = seq, oe_topic = t, oe_actor_subject_id = a, oe_target_subject_id = g,
    oe_correlation_id = c, oe_payload_size = n, oe_payload = (case p of None \<Rightarrow> [] | Some q \<Rightarrow> q) \<rparr>"
  shows "accepted (caps, E_Publish a t g c p n) \<Longrightarrow> event_publish caps a t g c p n b =
      Some (EVENT_OK, Some (event_next_sequence_id b), b\<lparr> event_next_sequence_id := event_next_sequence_id b + 1,
        event_topics := (event_topics b)[unat t - 1 := event_ring_put (e (event_next_sequence_id b)) (event_topics b ! (unat t - 1))] \<rparr>)"
    and "\<not> accepted (caps, E_Publish a t g c p n) \<Longrightarrow>
      \<exists>r. r \<noteq> EVENT_OK \<and> event_publish caps a t g c p n b = Some (r, None, b)"
proof -
  have v: "event_topic_valid t \<longleftrightarrow> 1 \<le> t \<and> t \<le> 7" using assms(1) by (simp add: event_topic_valid_small)
  {
    assume acc: "accepted (caps, E_Publish a t g c p n)"
    then have "event_topic_index t = unat t - 1" "\<not> unat t - 1 \<ge> 7" using event_topic_index_small [of t] by auto
    then show "event_publish caps a t g c p n b = Some (EVENT_OK, Some (event_next_sequence_id b), b\<lparr> event_next_sequence_id := event_next_sequence_id b + 1,
        event_topics := (event_topics b)[unat t - 1 := event_ring_put (e (event_next_sequence_id b)) (event_topics b ! (unat t - 1))] \<rparr>)"
      using acc v by (simp add: event_publish_def event_subject_valid_def Let_def e_def)
  }
  {
    assume "\<not> accepted (caps, E_Publish a t g c p n)"
    then show "\<exists>r. r \<noteq> EVENT_OK \<and> event_publish caps a t g c p n b = Some (r, None, b)"
      using v by (auto simp: event_publish_def event_subject_valid_def)
  }
qed

lemma on_topic_snoc [simp]:
  "on_topic t (ds @ ds') = on_topic t ds @ on_topic t ds'" "on_topic t [] = []"
  "on_topic t [d] = (if fst (snd d) = t then [d] else [])"
  by (simp_all add: on_topic_def)

lemma topic_of_nat: "1 \<le> t \<Longrightarrow> t \<le> 7 \<Longrightarrow> i < 7 \<Longrightarrow> (t :: u32) = of_nat (i + 1) \<longleftrightarrow> i = unat t - 1"
proof -
  assume t: "1 \<le> t" "t \<le> 7" and i: "i < 7"
  have "unat (of_nat (i + 1) :: u32) = i + 1" using i by (intro unat_of_nat_small) simp
  then have "t = of_nat (i + 1) \<longleftrightarrow> unat t = i + 1" by (metis word_unat_eq_iff)
  then show ?thesis using t by (auto simp: word_le_nat_alt)
qed

lemma event_step_subs:
  assumes "event_step x b = Some b'" "\<not> accepted x" "call_ok x"
  shows "event_topics b' = event_topics b \<and> event_next_sequence_id b' = event_next_sequence_id b"
  using assms
proof (cases x rule: call_topic.cases)
  case (3 caps a t g c p n)
  then show ?thesis using assms event_publish_accepted(2) [of caps a t g c p n b] by auto
qed (auto simp: event_subscribe_def event_unsubscribe_def Let_def split: if_splits)

lemma event_step_ok:
  assumes "call_ok x"
  obtains b' where "event_step x b = Some b'"
proof -
  have t: "call_topic x < 0x80000000" using assms by (cases x rule: call_ok.cases) auto
  have "\<not> event_topic_valid (call_topic x) \<or> event_topic_index (call_topic x) < 7"
    using event_topic_valid_small [OF t] event_topic_index_small by auto
  then have "\<exists>b'. event_step x b = Some b'"
    by (cases x rule: call_topic.cases)
      (auto simp: event_subscribe_def event_unsubscribe_def event_publish_def Let_def)
  then show ?thesis using that by blast
qed

lemma event_step_inv:
  assumes inv: "bus_inv b (publications xs)" and x: "call_ok x" and step: "event_step x b = Some b'"
  shows "bus_inv b' (publications (xs @ [x]))"
proof (cases "accepted x")
  case False
  then show ?thesis
    using inv event_step_subs [OF step False x] by (simp add: bus_inv_def publications_snoc)
next
  case True
  then obtain caps a t g c p n where xe: "x = (caps, E_Publish a t g c p n)" by (cases x rule: accepted.cases) auto
  let ?ds = "publications xs" and ?seq = "event_next_sequence_id b" and ?i = "unat t - 1"
  define e where "e = \<lparr> oe_sequence_id = ?seq, oe_topic = t, oe_actor_subject_id = a, oe_target_subject_id = g,
    oe_correlation_id = c, oe_payload_size = n, oe_payload = (case p of None \<Rightarrow> [] | Some q \<Rightarrow> q) \<rparr>"
  have b': "b' = b\<lparr> event_next_sequence_id := ?seq + 1,
      event_topics := (event_topics b)[?i := event_ring_put e (event_topics b ! ?i)] \<rparr>"
    using step event_publish_accepted(1) [OF x [unfolded xe] True [unfolded xe], of b] by (simp add: xe e_def)
  have t: "1 \<le> t" "t \<le> 7" using True by (simp_all add: xe)
  have d: "event_data e = publication (length ?ds) x" using inv by (simp add: e_def event_data_def xe bus_inv_def)
  have len: "oe_payload_size e \<le> length (oe_payload e)"
    using x True by (auto simp: xe e_def split: option.splits)
  have "topic_inv (event_topics b' ! i) (on_topic (of_nat (i + 1)) (?ds @ [event_data e]))" if i: "i < 7" for i
  proof -
    have "topic_inv (event_topics b ! i) (on_topic (of_nat (i + 1)) ?ds)" using inv i by (simp add: bus_inv_def)
    moreover have "fst (snd (event_data e)) = t" by (simp add: event_data_def e_def)
    ultimately show ?thesis
      using topic_of_nat [OF t i] inv i topic_inv_put [OF _ len] by (auto simp: b' nth_list_update bus_inv_def)
  qed
  then show ?thesis using inv True by (simp add: bus_inv_def publications_snoc d b')
qed

lemma event_run_snoc: "event_run (xs @ [x]) b = Option.bind (event_run xs b) (event_step x)"
proof (induction xs arbitrary: b)
  case Nil
  show ?case by (cases "event_step x b") simp_all
next
  case (Cons y xs)
  then show ?case by (cases "event_step y b") simp_all
qed

lemma event_run_inv:
  "\<forall>x \<in> set xs. call_ok x \<Longrightarrow> bus_inv b [] \<Longrightarrow> \<exists>b'. event_run xs b = Some b' \<and> bus_inv b' (publications xs)"
proof (induction xs rule: rev_induct)
  case Nil
  then show ?case by (simp add: publications_def)
next
  case (snoc x xs)
  then obtain b1 where b1: "event_run xs b = Some b1" "bus_inv b1 (publications xs)" by auto
  obtain b' where b': "event_step x b1 = Some b'" using event_step_ok [of x b1] snoc.prems(1) by auto
  have "bus_inv b' (publications (xs @ [x]))" by (rule event_step_inv [OF b1(2) _ b']) (use snoc.prems in simp)
  then show ?case using b1(1) b' by (simp add: event_run_snoc)
qed

definition bus_wf :: "event_bus \<Rightarrow> bool" where
  \<comment> \<open>the shape of the static arrays\<close>
  "bus_wf b \<longleftrightarrow> length (event_topics b) = EVENT_TOPIC_COUNT \<and> length (event_subscriptions b) = EVENT_TOPIC_COUNT \<and>
     (\<forall>r \<in> set (event_topics b). length (rg_events r) = EVENT_QUEUE_CAPACITY)"

lemma event_reset_inv: "bus_wf b \<Longrightarrow> bus_inv (event_bus_reset_for_tests b) []"
  by (auto simp: bus_wf_def bus_inv_def event_bus_reset_for_tests_def topic_inv_def topic_ring.ok_def
      topic_ring.contents_def ring_contents_def ring_ok_def)

subsection \<open>Subscriptions and pending authorisations\<close>

definition subscribed :: "event_bus \<Rightarrow> (cap_subject_id_t \<times> event_topic_t) set" where
  "subscribed b = {(s, t). t < 0x80000000 \<and> event_is_subscribed_for_tests s t b = Some True}"

lemma subscribed_iff:
  "(s, t) \<in> subscribed b \<longleftrightarrow> s < 8 \<and> 1 \<le> t \<and> t \<le> 7 \<and> bit (event_subscriptions b ! (unat t - 1)) (unat s)"
proof (cases "t < 0x80000000")
  case True
  have s: "s < 8 \<Longrightarrow> unat s < 8" by (simp add: word_less_nat_alt)
  show ?thesis
  proof (cases "1 \<le> t \<and> t \<le> 7")
    case ok: True
    then show ?thesis
      using event_topic_index_small [of t] s True
      by (auto simp: subscribed_def event_is_subscribed_for_tests_def event_topic_valid_small event_subject_valid_def Let_def)
  next
    case False
    then show ?thesis
      using True by (auto simp: subscribed_def event_is_subscribed_for_tests_def event_topic_valid_small)
  qed
next
  case False
  then have "\<not> t \<le> 7" by (auto simp: word_le_nat_alt word_less_nat_alt)
  then show ?thesis using False by (simp add: subscribed_def)
qed

lemma subscribe_refines:
  assumes b: "bus_wf b" and s: "s < 8" "1 \<le> t" "t \<le> 7" and cap: "cap_table_check s CAP_EVENT_SUBSCRIBE caps = CAP_OK"
  shows "\<exists>b'. event_subscribe caps s t b = Some (EVENT_OK, b') \<and> bus_wf b' \<and> subscribed b' = insert (s, t) (subscribed b)"
    "\<exists>b'. event_unsubscribe caps s t b = Some (EVENT_OK, b') \<and> bus_wf b' \<and> subscribed b' = subscribed b - {(s, t)}"
proof -
  have lt: "t < 0x80000000" using s(3) by (simp add: word_le_nat_alt word_less_nat_alt)
  have ok: "event_subject_valid s" "event_topic_valid t" "event_topic_index t = unat t - 1" "\<not> 7 \<le> unat t - 1"
    using s event_topic_valid_small [OF lt] event_topic_index_small [of t] by (auto simp: event_subject_valid_def)
  have s8: "unat s < 8" using s(1) by (simp add: word_less_nat_alt)
  have len: "length (event_subscriptions b) = 7" using b by (simp add: bus_wf_def)
  have same: "unat t' - 1 = unat t - 1 \<longleftrightarrow> t' = t" if "1 \<le> t'" "t' \<le> 7" for t'
    using that s by (auto simp: word_le_nat_alt word_unat_eq_iff)
  let ?put = "\<lambda>w. b\<lparr> event_subscriptions := (event_subscriptions b)[unat t - 1 := w] \<rparr>"
  have run: "event_subscribe caps s t b = Some (EVENT_OK, ?put (event_subscriptions b ! (unat t - 1) OR u8_bit (unat s)))"
    "event_unsubscribe caps s t b = Some (EVENT_OK, ?put (event_subscriptions b ! (unat t - 1) AND NOT (u8_bit (unat s))))"
    using ok cap by (simp_all add: event_subscribe_def event_unsubscribe_def Let_def)
  have wf: "bus_wf (?put w)" for w using b by (simp add: bus_wf_def)
  have mem: "(s', t') \<in> subscribed (?put w) \<longleftrightarrow>
      s' < 8 \<and> 1 \<le> t' \<and> t' \<le> 7 \<and> bit (if t' = t then w else event_subscriptions b ! (unat t' - 1)) (unat s')" for s' t' w
    using same [of t'] ok(4) len by (auto simp: subscribed_iff nth_list_update)
  have u: "s' < 8 \<Longrightarrow> unat s' = unat s \<longleftrightarrow> s' = s" "s' < 8 \<Longrightarrow> unat s' < 8" for s' :: u32
    by (auto simp: word_less_nat_alt word_unat_eq_iff)
  have "(s', t') \<in> subscribed (?put (event_subscriptions b ! (unat t - 1) OR u8_bit (unat s))) \<longleftrightarrow>
      (s', t') \<in> insert (s, t) (subscribed b)" for s' t'
    unfolding mem insert_iff subscribed_iff [of s' t' b] using s s8 u [of s'] by (auto simp: bit_or_iff)
  then have "subscribed (?put (event_subscriptions b ! (unat t - 1) OR u8_bit (unat s))) = insert (s, t) (subscribed b)" by auto
  then show "\<exists>b'. event_subscribe caps s t b = Some (EVENT_OK, b') \<and> bus_wf b' \<and> subscribed b' = insert (s, t) (subscribed b)"
    using run(1) wf by blast
  have "(s', t') \<in> subscribed (?put (event_subscriptions b ! (unat t - 1) AND NOT (u8_bit (unat s)))) \<longleftrightarrow>
      (s', t') \<in> subscribed b - {(s, t)}" for s' t'
    unfolding mem Diff_iff subscribed_iff [of s' t' b] using s s8 u [of s'] by (auto simp: bit_and_iff bit_not_iff)
  then have "subscribed (?put (event_subscriptions b ! (unat t - 1) AND NOT (u8_bit (unat s)))) = subscribed b - {(s, t)}" by auto
  then show "\<exists>b'. event_unsubscribe caps s t b = Some (EVENT_OK, b') \<and> bus_wf b' \<and> subscribed b' = subscribed b - {(s, t)}"
    using run(2) wf by blast
qed

lemma event_respond_auth_exact:
  "let i = find_idx (\<lambda>p. pa_active p \<and> pa_correlation_id p = c) (event_get_pending_auth_table b) in
   event_get_pending_auth_table (event_respond_auth c r b) =
     (case i of None \<Rightarrow> event_get_pending_auth_table b
      | Some i \<Rightarrow> (event_get_pending_auth_table b)[i := (event_get_pending_auth_table b ! i)\<lparr> pa_response := r, pa_responded := True \<rparr>])"
  by (simp add: event_respond_auth_def event_get_pending_auth_table_def split: option.splits)

section \<open>Properties\<close>

text \<open>
  C22: The bus delivers what was published.  After any sequence of calls on a reset bus, whatever the
  capabilities at each call, reading a topic yields exactly the last 16 accepted publications on that
  topic, oldest first, each with its actor, target, correlation id and payload bytes and numbered by
  its position among all accepted publications; a publication is accepted only from a valid actor
  holding the publish capability.  The dropped counter is the number of older ones.
\<close>

theorem event_bus_delivers:
  assumes "bus_wf b" "\<forall>x \<in> set xs. call_ok x" "1 \<le> t" "t \<le> 7"
  defines "ds \<equiv> on_topic t (publications xs)"
  shows "\<exists>b'. event_run xs (event_bus_reset_for_tests b) = Some b' \<and>
     event_count_for_topic_for_tests t b' = Some (min (length ds) 16) \<and>
     event_dropped_for_topic_for_tests t b' = Some (of_nat (length ds - 16)) \<and>
     (if i < min (length ds) 16
      then \<exists>e. event_get_for_topic_for_tests t i True b' = Some (EVENT_OK, Some e) \<and> event_data e = keep_last 16 ds ! i
      else event_get_for_topic_for_tests t i True b' = Some (EVENT_ERR_PAYLOAD_INVALID, None))"
proof -
  obtain b' where b': "event_run xs (event_bus_reset_for_tests b) = Some b'" "bus_inv b' (publications xs)"
    using event_run_inv [OF assms(2) event_reset_inv [OF assms(1)]] by blast
  have lt: "t < 0x80000000" using assms(4) by (simp add: word_le_nat_alt word_less_nat_alt)
  let ?k = "unat t - 1" and ?r = "event_topics b' ! (unat t - 1)"
  have k: "event_topic_valid t" "event_topic_index t = ?k" "?k < 7"
    using assms(3,4) event_topic_valid_small [OF lt] event_topic_index_small [of t] by auto
  have "of_nat (?k + 1) = t" using topic_of_nat [OF assms(3,4) k(3)] by simp
  then have inv: "topic_inv ?r ds" using b'(2) k(3) by (auto simp: bus_inv_def ds_def)
  have "\<exists>e. event_get_for_topic_for_tests t i True b' = Some (EVENT_OK, Some e) \<and> event_data e = keep_last 16 ds ! i"
    if i: "i < min (length ds) 16"
  proof (intro exI conjI)
    have c: "i < rg_event_count ?r" using inv i by (simp add: topic_inv_def)
    show "event_get_for_topic_for_tests t i True b' = Some (EVENT_OK, Some (topic_ring.contents ?r ! i))"
      using k c topic_ring.nth_contents [OF c] by (simp add: event_get_for_topic_for_tests_def Let_def ring_start_def)
    have "map event_data (topic_ring.contents ?r) = keep_last 16 ds" using inv by (simp add: topic_inv_def)
    moreover have "i < length (topic_ring.contents ?r)" using c by (simp add: topic_ring.contents_def)
    ultimately show "event_data (topic_ring.contents ?r ! i) = keep_last 16 ds ! i" by (metis nth_map)
  qed
  then show ?thesis
    using b'(1) k inv
    by (auto simp: event_count_for_topic_for_tests_def event_dropped_for_topic_for_tests_def topic_inv_def
        event_get_for_topic_for_tests_def Let_def)
qed

definition bus_boot :: event_bus where
  \<comment> \<open>the static data before any call\<close>
  "bus_boot = (let e = \<lparr> oe_sequence_id = 0, oe_topic = 0, oe_actor_subject_id = 0, oe_target_subject_id = 0,
       oe_correlation_id = 0, oe_payload_size = 0, oe_payload = replicate 96 0 \<rparr>;
     r = \<lparr> rg_events = replicate 16 e, rg_next_index = 0, rg_event_count = 0, rg_dropped_count = 0 \<rparr>
   in \<lparr> event_topics = replicate 7 r, event_subscriptions = replicate 7 0, event_next_sequence_id = 0,
        g_pending_auth = replicate 4 \<lparr> pa_active = False, pa_correlation_id = 0, pa_session_id = 0,
          pa_type = AUTH_PROMPT_DISK_IO, pa_description = '''', pa_response = AUTH_RESPONSE_DENY, pa_responded = False \<rparr> \<rparr>)"

lemma bus_boot_wf: "bus_wf bus_boot"
  by (simp add: bus_wf_def bus_boot_def Let_def)

definition demo_publishes :: "event_call list" where
  "demo_publishes = (let caps = snd (cap_table_grant 1 CAP_EVENT_PUBLISH cap_boot) in
     [(caps, E_Publish 1 3 2 77 (Some [1, 2, 3]) 3), (caps, E_Publish 2 3 2 78 (Some [9]) 1), (caps, E_Publish 1 3 4 79 (Some [5]) 1)])"

theorem event_bus_delivers_witness:
  "\<exists>b' e. event_run demo_publishes (event_bus_reset_for_tests bus_boot) = Some b' \<and>
     event_get_for_topic_for_tests 3 1 True b' = Some (EVENT_OK, Some e) \<and> event_data e = (1, 3, 1, 4, 79, [5])"
proof -
  have calls: "\<forall>x \<in> set demo_publishes. call_ok x" by code_simp
  have pubs: "on_topic 3 (publications demo_publishes) = [(0, 3, 1, 2, 77, [1, 2, 3]), (1, 3, 1, 4, 79, [5])]" by code_simp
  show ?thesis using event_bus_delivers [OF bus_boot_wf calls, of 3 1] by (auto simp: pubs)
qed



end
