(* ===== verification/Address_Space.thy ===== *)
theory Address_Space
  imports Prelude
begin

text \<open>
  The flat address-space windows of \<^verbatim>\<open>kernel/proc/address_space.c\<close>: carving an arena into equal windows,
  the bounds predicate that stands in for page tables, and the layout invariant the scheduler checks
  before it restores a context.  Addresses and sizes are 64-bit words; all sums wrap.
\<close>

section \<open>Types\<close>

abbreviation PROC_KSTACK_BYTES :: u64 where "PROC_KSTACK_BYTES \<equiv> 16384"
abbreviation IPC_MSG_PAYLOAD_MAX :: u64 where "IPC_MSG_PAYLOAD_MAX \<equiv> 64"
abbreviation ASPACE_ALIGN :: u64 where "ASPACE_ALIGN \<equiv> 16"
abbreviation UINTPTR_MAX :: u64 where "UINTPTR_MAX \<equiv> 18446744073709551615"

record address_space_t =
  as_base :: u64
  as_size :: u64
  as_stack_top :: u64
  as_ipc_scratch :: u64  \<comment> \<open>0 is the null pointer\<close>
  as_pt_reserved :: u64

datatype aspace_result_t = ASPACE_OK | ASPACE_ERR_INVALID_ARG | ASPACE_ERR_ARENA_TOO_SMALL

section \<open>Operations\<close>

definition aspace_window_align_down :: "u64 \<Rightarrow> u64" where
  "aspace_window_align_down value = value AND NOT (ASPACE_ALIGN - 1)"

definition aspace_window_min_bytes :: u64 where
  "aspace_window_min_bytes =
    (let need = PROC_KSTACK_BYTES + IPC_MSG_PAYLOAD_MAX + ASPACE_ALIGN
     in aspace_window_align_down (need + (ASPACE_ALIGN - 1)))"

definition aspace_partition :: "u64 \<Rightarrow> u64 \<Rightarrow> bool \<Rightarrow> u64 \<Rightarrow> aspace_result_t \<times> address_space_t list" where
  \<comment> \<open>\<open>out\<close> says whether the output array is present; the list is what is written to it\<close>
  "aspace_partition arena_base arena_size out count =
    (if \<not> out \<or> count = 0 then (ASPACE_ERR_INVALID_ARG, [])
     else let per = aspace_window_align_down (arena_size div count) in
       if per < aspace_window_min_bytes then (ASPACE_ERR_ARENA_TOO_SMALL, [])
       else (ASPACE_OK,
         map (\<lambda>i. let base = arena_base + per * of_nat i in
                \<lparr> as_base = base, as_size = per, as_stack_top = base + per, as_ipc_scratch = base, as_pt_reserved = 0 \<rparr>)
           [0..<unat count]))"

definition aspace_contains :: "address_space_t option \<Rightarrow> u64 \<Rightarrow> u64 \<Rightarrow> bool" where
  "aspace_contains as ptr len =
    (case as of
       None \<Rightarrow> False
     | Some a \<Rightarrow>
        if as_size a > UINTPTR_MAX - as_base a then False
        else let limit = as_base a + as_size a in
          if ptr < as_base a \<or> ptr \<ge> limit then False
          else let headroom = limit - ptr in
            if len > headroom then False else True)"

definition aspace_invariant_ok :: "address_space_t option \<Rightarrow> bool" where
  "aspace_invariant_ok as =
    (case as of
       None \<Rightarrow> False
     | Some a \<Rightarrow>
        if as_size a = 0 then False
        else if as_size a > UINTPTR_MAX - as_base a then False
        else let limit = as_base a + as_size a in
          if as_stack_top a \<le> as_base a then False
          else if as_stack_top a > limit then False
          else if as_ipc_scratch a \<noteq> 0 \<and> \<not> aspace_contains as (as_ipc_scratch a) IPC_MSG_PAYLOAD_MAX then False
          else True)"

section \<open>Lemmas\<close>

lemma unat_UINTPTR_minus: "unat (UINTPTR_MAX - b) = 18446744073709551615 - unat b" for b :: u64
proof -
  have "b \<le> UINTPTR_MAX" using unat_word_bound [of b] by (simp add: word_le_nat_alt)
  then show ?thesis by (simp add: unat_sub)
qed

lemma window_overflow: "\<not> unat b + unat s < 2 ^ 64 \<Longrightarrow> UINTPTR_MAX - b < s" for b s :: u64
proof -
  assume "\<not> unat b + unat s < 2 ^ 64"
  then have "18446744073709551616 \<le> unat b + unat s" by simp
  moreover have "unat b \<le> 18446744073709551615" using unat_word_bound [of b] by simp
  ultimately have "18446744073709551615 - unat b < unat s" by linarith
  then show ?thesis by (simp add: word_less_nat_alt unat_UINTPTR_minus)
qed

lemma unat_plus_le: "unat a + unat b \<le> 18446744073709551615 \<Longrightarrow> unat (a + b) = unat a + unat b" for a b :: u64
  by (subst unat_add_lem [THEN iffD1]) auto

lemma align_down_nat: "unat (aspace_window_align_down v) = unat v div 16 * 16"
proof -
  have "aspace_window_align_down v = v AND NOT (mask 4)"
    by (simp add: aspace_window_align_down_def mask_eq_exp_minus_1)
  also have "\<dots> = push_bit 4 (drop_bit 4 v)" by (rule bit_word_eqI) (auto simp: bit_simps)
  finally have "unat (aspace_window_align_down v) = unat (push_bit 4 (drop_bit 4 v))" by simp
  also have "\<dots> = take_bit 64 (push_bit 4 (drop_bit 4 (unat v)))"
  proof -
    have "take_bit 64 (unat v) = unat v" by (rule take_bit_nat_eq_self) (use unat_word_bound [of v] in simp)
    then show ?thesis by (simp add: unsigned_push_bit_eq unsigned_drop_bit_eq)
  qed
  also have "push_bit 4 (drop_bit 4 (unat v)) = unat v div 16 * 16" by (simp add: push_bit_nat_def drop_bit_nat_def push_bit_eq_mult drop_bit_eq_div)
  also have "take_bit 64 (unat v div 16 * 16) = unat v div 16 * 16"
  proof (rule take_bit_nat_eq_self)
    have "unat v div 16 * 16 \<le> unat v" by simp
    then show "unat v div 16 * 16 < 2 ^ 64" using unat_word_bound [of v] by simp
  qed
  finally show ?thesis .
qed

lemma window_min_bytes: "unat aspace_window_min_bytes = 16464"
  by (simp add: aspace_window_min_bytes_def align_down_nat)

lemma aspace_contains_nat:
  "aspace_contains (Some a) p len \<longleftrightarrow>
     unat (as_base a) + unat (as_size a) < 2 ^ 64 \<and> unat (as_base a) \<le> unat p \<and>
     unat p < unat (as_base a) + unat (as_size a) \<and> unat p + unat len \<le> unat (as_base a) + unat (as_size a)"
proof (cases "unat (as_base a) + unat (as_size a) < 2 ^ 64")
  case True
  then have e: "unat (as_base a + as_size a) = unat (as_base a) + unat (as_size a)" by (intro unat_plus_le) simp
  have ok: "\<not> as_size a > UINTPTR_MAX - as_base a" using True by (simp add: word_less_nat_alt unat_UINTPTR_minus)
  show ?thesis
  proof (cases "p < as_base a + as_size a")
    case p: True
    then have "unat (as_base a + as_size a - p) = unat (as_base a) + unat (as_size a) - unat p"
      by (simp add: unat_sub e)
    then show ?thesis using p ok e True by (auto simp: aspace_contains_def Let_def word_less_nat_alt word_le_nat_alt)
  next
    case False
    then show ?thesis using ok e by (auto simp: aspace_contains_def Let_def word_less_nat_alt word_le_nat_alt)
  qed
next
  case False
  then have "as_size a > UINTPTR_MAX - as_base a" by (rule window_overflow)
  then show ?thesis using False by (simp add: aspace_contains_def)
qed

lemma aspace_invariant_nat:
  "aspace_invariant_ok (Some a) \<longleftrightarrow>
     0 < as_size a \<and> unat (as_base a) + unat (as_size a) < 2 ^ 64 \<and> unat (as_base a) < unat (as_stack_top a) \<and>
     unat (as_stack_top a) \<le> unat (as_base a) + unat (as_size a) \<and>
     (as_ipc_scratch a = 0 \<or> aspace_contains (Some a) (as_ipc_scratch a) IPC_MSG_PAYLOAD_MAX)"
proof (cases "unat (as_base a) + unat (as_size a) < 2 ^ 64")
  case True
  then have e: "unat (as_base a + as_size a) = unat (as_base a) + unat (as_size a)" by (intro unat_plus_le) simp
  have ok: "\<not> as_size a > UINTPTR_MAX - as_base a" using True by (simp add: word_less_nat_alt unat_UINTPTR_minus)
  show ?thesis using True e ok
    by (auto simp: aspace_invariant_ok_def Let_def word_less_nat_alt word_le_nat_alt word_neq_0_conv [symmetric])
next
  case False
  then have "as_size a > UINTPTR_MAX - as_base a" by (rule window_overflow)
  then show ?thesis using False by (simp add: aspace_invariant_ok_def)
qed

lemma partition_window:
  assumes "unat base + unat sz < 2 ^ 64" "per = aspace_window_align_down (sz div count)" "i < unat count"
  shows "unat (base + per * of_nat i) = unat base + unat per * i" "unat per * (i + 1) \<le> unat sz"
proof -
  have "unat per \<le> unat sz div unat count" by (simp add: assms(2) align_down_nat unat_div)
  then have "unat per * unat count \<le> unat sz"
    by (meson div_times_less_eq_dividend le_trans mult_le_mono1)
  moreover have "unat per * (i + 1) \<le> unat per * unat count" by (intro mult_le_mono2) (use assms(3) in simp)
  ultimately show le: "unat per * (i + 1) \<le> unat sz" by linarith
  have c: "unat count < 2 ^ 64" using unat_word_bound [of count] by simp
  have i: "unat (of_nat i :: u64) = i" using assms(3) c by (intro unat_of_nat_small) simp
  have lt: "unat per * i < 2 ^ 64" using le unat_word_bound [of sz] by simp
  have m: "unat (per * of_nat i) = unat per * i" using lt i by (simp add: unat_mult_lem [THEN iffD1])
  show "unat (base + per * of_nat i) = unat base + unat per * i"
    using le assms(1) by (subst unat_plus_le) (simp_all add: m)
qed

section \<open>Properties\<close>

text \<open>
  C24: Carving an arena isolates its windows.  A partition succeeds exactly when each window has room
  for stack and scratch; then every window satisfies the layout invariant of the scheduler, lies in
  the arena and is 16-byte aligned with it, and no non-empty byte range whatsoever is accepted by the
  bounds predicate of two different windows.
\<close>

theorem aspace_partition_isolates:
  assumes "unat base + unat sz < 2 ^ 64" "aspace_partition base sz out count = (r, ws)"
  shows "(r = ASPACE_OK \<longleftrightarrow> out \<and> count \<noteq> 0 \<and> 16464 \<le> unat sz div unat count div 16 * 16) \<and>
    (r = ASPACE_OK \<longrightarrow> length ws = unat count) \<and>
    (i < length ws \<longrightarrow> aspace_invariant_ok (Some (ws ! i)) \<and>
       unat base \<le> unat (as_base (ws ! i)) \<and> unat (as_base (ws ! i)) + unat (as_size (ws ! i)) \<le> unat base + unat sz \<and>
       unat (as_base (ws ! i)) mod 16 = unat base mod 16) \<and>
    (i < length ws \<longrightarrow> j < length ws \<longrightarrow> 0 < n \<longrightarrow>
       aspace_contains (Some (ws ! i)) p n \<longrightarrow> aspace_contains (Some (ws ! j)) p n \<longrightarrow> i = j)"
proof -
  define per where "per = aspace_window_align_down (sz div count)"
  have size: "unat per = unat sz div unat count div 16 * 16" by (simp add: per_def align_down_nat unat_div)
  have r: "r = ASPACE_OK \<longleftrightarrow> out \<and> count \<noteq> 0 \<and> 16464 \<le> unat per"
    using assms(2) by (auto simp: aspace_partition_def Let_def per_def [symmetric] word_less_nat_alt window_min_bytes split: if_splits)
  have ws: "ws = (if r = ASPACE_OK then map (\<lambda>i. let base = base + per * of_nat i in
                \<lparr> as_base = base, as_size = per, as_stack_top = base + per, as_ipc_scratch = base, as_pt_reserved = 0 \<rparr>)
           [0..<unat count] else [])"
    using assms(2) by (auto simp: aspace_partition_def Let_def per_def [symmetric] split: if_splits)
  have len: "length ws = (if r = ASPACE_OK then unat count else 0)" by (simp add: ws)
  have win: "unat (as_base (ws ! k)) = unat base + unat per * k" "as_size (ws ! k) = per" "as_ipc_scratch (ws ! k) = as_base (ws ! k)"
    "as_stack_top (ws ! k) = as_base (ws ! k) + per" "unat base + unat per * k + unat per \<le> unat base + unat sz" "16464 \<le> unat per"
    if "k < length ws" for k
    using that len partition_window [OF assms(1) per_def, of k] r by (auto simp: ws Let_def algebra_simps split: if_splits)
  have ok: "aspace_invariant_ok (Some (ws ! k))" "unat (as_base (ws ! k)) mod 16 = unat base mod 16" if k: "k < length ws" for k
  proof -
    note w = win [OF k]
    have "unat (as_stack_top (ws ! k)) = unat base + unat per * k + unat per"
      using w assms(1) unat_plus_le [of "as_base (ws ! k)" per] by simp
    then show "aspace_invariant_ok (Some (ws ! k))"
      using w assms(1) by (auto simp: aspace_invariant_nat aspace_contains_nat word_less_nat_alt)
    have "16 dvd unat per" by (simp add: size)
    then show "unat (as_base (ws ! k)) mod 16 = unat base mod 16" using w(1) by (auto elim!: dvdE simp: mult.assoc)
  qed
  have iso: "i = j" if ij: "i < length ws" "j < length ws" and c: "aspace_contains (Some (ws ! i)) p n" "aspace_contains (Some (ws ! j)) p n"
  proof (rule ccontr)
    have "unat per * (a + 1) \<le> unat per * b" if "a < b" for a b :: nat using that by (intro mult_le_mono2) simp
    moreover assume "i \<noteq> j"
    ultimately have "unat per * i + unat per \<le> unat per * j \<or> unat per * j + unat per \<le> unat per * i"
      by (metis distrib_left linorder_less_linear mult.right_neutral)
    then show False using c win [OF ij(1)] win [OF ij(2)] by (auto simp: aspace_contains_nat)
  qed
  show ?thesis using r size len ok iso win by auto
qed

theorem aspace_partition_isolates_witness:
  "let ws = snd (aspace_partition 0x100000 0x100000 True 16) in
   length ws = 16 \<and> aspace_invariant_ok (Some (ws ! 3)) \<and> \<not> aspace_contains (Some (ws ! 4)) (as_base (ws ! 3)) 80"
proof -
  let ?p = "aspace_partition 0x100000 0x100000 True 16"
  have p: "?p = (fst ?p, snd ?p)" by simp
  have c: "aspace_contains (Some (snd ?p ! 3)) (as_base (snd ?p ! 3)) 80" by code_simp
  note t = aspace_partition_isolates [OF _ p]
  have len: "length (snd ?p) = 16" using t [of 0 0 0 0] by simp
  show ?thesis using t [of 3 4 80 "as_base (snd ?p ! 3)"] c len by (auto simp: Let_def)
qed

end
