(* ===== verification/Slot_Handle.thy ===== *)
theory Slot_Handle
  imports Prelude
begin

text \<open>
  Generation-tagged handles into a fixed table, as the port table of \<^verbatim>\<open>kernel/ipc/ipc_port.c\<close> and the
  process table of \<^verbatim>\<open>kernel/proc/process.c\<close> use them: the low 16 bits of a handle are a table index,
  the high 16 bits the generation of the slot, which skips 0 and is bumped when the slot dies.  The
  theory gives the meaning of a table as a finite map from handles, how slot updates act on that map,
  and, as a locale, the contract under which a dead handle stays dead.
\<close>

section \<open>Handles\<close>

definition handle_pack :: "u16 \<Rightarrow> u16 \<Rightarrow> u32" where
  "handle_pack index generation = push_bit 16 (ucast generation) OR ucast index"

definition handle_index :: "u32 \<Rightarrow> u16" where
  "handle_index h = ucast (h AND 0xFFFF)"

definition handle_gen :: "u32 \<Rightarrow> u16" where
  "handle_gen h = ucast (drop_bit 16 h AND 0xFFFF)"

definition gen_bump :: "u16 \<Rightarrow> u16" where
  "gen_bump g = (let g = g + 1 in if g = 0 then 1 else g)"

lemma FFFF_mask: "(0xFFFF :: u32) = mask 16"
  by (simp add: mask_eq_exp_minus_1)

lemma bit_handle_index: "bit (handle_index h) n \<longleftrightarrow> n < 16 \<and> bit h n"
  unfolding handle_index_def FFFF_mask by (auto simp: bit_simps)

lemma bit_handle_gen: "bit (handle_gen h) n \<longleftrightarrow> n < 16 \<and> bit h (n + 16)"
  unfolding handle_gen_def FFFF_mask by (auto simp: bit_simps add.commute)

lemma bit_handle_pack: "bit (handle_pack i g) n \<longleftrightarrow> (if n < 16 then bit i n else n < 32 \<and> bit g (n - 16))"
  unfolding handle_pack_def by (auto simp: bit_simps dest: bit_imp_le_length)

lemma handle_index_pack [simp]: "handle_index (handle_pack i g) = i"
  by (rule bit_word_eqI) (simp add: bit_handle_index bit_handle_pack)

lemma handle_gen_pack [simp]: "handle_gen (handle_pack i g) = g"
  by (rule bit_word_eqI) (simp add: bit_handle_gen bit_handle_pack)

lemma handle_pack_unpack [simp]: "handle_pack (handle_index h) (handle_gen h) = h"
  by (rule bit_word_eqI) (auto simp: bit_handle_pack bit_handle_index bit_handle_gen)

lemma handle_eq_iff: "h = handle_pack i g \<longleftrightarrow> handle_index h = i \<and> handle_gen h = g"
  by (metis handle_index_pack handle_gen_pack handle_pack_unpack)

lemma handle_gen_0 [simp]: "handle_gen 0 = 0"
  by (simp add: handle_gen_def)

lemma handle_pack_eq_0: "g \<noteq> 0 \<Longrightarrow> handle_pack i g \<noteq> 0"
  by (metis handle_gen_pack handle_gen_0)

lemma gen_bump_nonzero [simp]: "gen_bump g \<noteq> 0"
  by (simp add: gen_bump_def Let_def)

section \<open>A table as a map\<close>

definition handle_map :: "('a \<Rightarrow> bool) \<Rightarrow> ('a \<Rightarrow> u16) \<Rightarrow> ('a \<Rightarrow> 'v) \<Rightarrow> 'a list \<Rightarrow> u32 \<rightharpoonup> 'v" where
  "handle_map live gen view slots h =
    (let i = unat (handle_index h) in
     if i < length slots \<and> live (slots ! i) \<and> gen (slots ! i) = handle_gen h then Some (view (slots ! i)) else None)"

lemma handle_map_set:
  assumes "i < length slots" "i < 65536"
  shows "handle_map live gen view (slots[i := x]) =
    (\<lambda>h. if handle_index h = of_nat i
         then if live x \<and> gen x = handle_gen h then Some (view x) else None
         else handle_map live gen view slots h)"
proof
  fix h
  have "unat (of_nat i :: u16) = i" using assms(2) by (intro unat_of_nat_small) simp
  then have "unat (handle_index h) = i \<longleftrightarrow> handle_index h = of_nat i" by (metis word_unat_eq_iff)
  then show "handle_map live gen view (slots[i := x]) h =
    (if handle_index h = of_nat i then if live x \<and> gen x = handle_gen h then Some (view x) else None
     else handle_map live gen view slots h)"
    using assms(1) by (auto simp: handle_map_def Let_def)
qed

lemma handle_map_at:
  assumes "i < length slots" "i < 65536"
  shows "handle_map live gen view slots (handle_pack (of_nat i) g) =
    (if live (slots ! i) \<and> gen (slots ! i) = g then Some (view (slots ! i)) else None)"
proof -
  have "unat (of_nat i :: u16) = i" using assms(2) by (intro unat_of_nat_small) simp
  then show ?thesis using assms(1) by (auto simp: handle_map_def Let_def)
qed

lemma handle_map_update:
  assumes "i < length slots" "i < 65536" "live x" "live (slots ! i) \<Longrightarrow> gen x = gen (slots ! i)"
  shows "handle_map live gen view (slots[i := x]) =
         (handle_map live gen view slots)(handle_pack (of_nat i) (gen x) \<mapsto> view x)"
proof
  fix h
  have u: "unat (of_nat i :: u16) = i" using assms(2) by (intro unat_of_nat_small) simp
  show "handle_map live gen view (slots[i := x]) h =
      ((handle_map live gen view slots)(handle_pack (of_nat i) (gen x) \<mapsto> view x)) h"
  proof (cases "handle_index h = of_nat i")
    case True
    then show ?thesis using assms u by (auto simp: handle_map_set handle_eq_iff) (auto simp: handle_map_def Let_def)
  next
    case False
    then show ?thesis using assms by (auto simp: handle_map_set handle_eq_iff)
  qed
qed

lemma handle_map_kill:
  assumes "i < length slots" "i < 65536" "live (slots ! i)" "\<not> live x"
  shows "handle_map live gen view (slots[i := x]) =
         (handle_map live gen view slots)(handle_pack (of_nat i) (gen (slots ! i)) := None)"
proof
  fix h
  have u: "unat (of_nat i :: u16) = i" using assms(2) by (intro unat_of_nat_small) simp
  show "handle_map live gen view (slots[i := x]) h =
      ((handle_map live gen view slots)(handle_pack (of_nat i) (gen (slots ! i)) := None)) h"
  proof (cases "handle_index h = of_nat i")
    case True
    then show ?thesis using assms u by (auto simp: handle_map_set handle_eq_iff) (auto simp: handle_map_def Let_def)
  next
    case False
    then show ?thesis using assms by (auto simp: handle_map_set handle_eq_iff)
  qed
qed

lemma handle_map_SomeD:
  assumes "handle_map live gen view slots h = Some v"
  obtains i where "i < length slots" "i = unat (handle_index h)" "h = handle_pack (of_nat i) (gen (slots ! i))"
    "live (slots ! i)" "v = view (slots ! i)" "gen (slots ! i) = handle_gen h"
proof -
  let ?i = "unat (handle_index h)"
  have i: "?i < length slots" "live (slots ! ?i)" "gen (slots ! ?i) = handle_gen h" "v = view (slots ! ?i)"
    using assms by (auto simp: handle_map_def Let_def split: if_splits)
  have "h = handle_pack (of_nat ?i) (gen (slots ! ?i))" using i(3) by (simp add: handle_eq_iff)
  then show ?thesis using that i by blast
qed

lemma card_handle_map:
  assumes "length slots \<le> 65536"
  shows "card (dom (handle_map live gen view slots)) = card {i. i < length slots \<and> live (slots ! i)}"
proof -
  let ?f = "\<lambda>i. handle_pack (of_nat i) (gen (slots ! i))" and ?I = "{i. i < length slots \<and> live (slots ! i)}"
  have u: "unat (of_nat i :: u16) = i" if "i < length slots" for i
    using that assms by (intro unat_of_nat_small) simp
  have inj: "inj_on ?f ?I"
  proof (rule inj_onI)
    fix i j assume ij: "i \<in> ?I" "j \<in> ?I" "?f i = ?f j"
    then have "(of_nat i :: u16) = of_nat j" by (metis handle_index_pack)
    then show "i = j" using ij u by (metis mem_Collect_eq)
  qed
  have "dom (handle_map live gen view slots) = ?f ` ?I"
  proof (intro set_eqI iffI)
    fix h assume "h \<in> dom (handle_map live gen view slots)"
    then obtain v where v: "handle_map live gen view slots h = Some v" by blast
    show "h \<in> ?f ` ?I" by (rule handle_map_SomeD [OF v]) blast
  next
    fix h assume "h \<in> ?f ` ?I"
    then obtain i where i: "i < length slots" "live (slots ! i)" "h = ?f i" by blast
    have "i < 65536" using i(1) assms by simp
    from handle_map_at [OF i(1) this, of live gen view "gen (slots ! i)"] show "h \<in> dom (handle_map live gen view slots)"
      unfolding i(3) using i(2) by (simp add: domIff)
  qed
  then show ?thesis using card_image [OF inj] by simp
qed

section \<open>Generations\<close>

definition gen_pos :: "u16 \<Rightarrow> nat" where
  "gen_pos g = unat g - 1"

lemma gen_pos_bump: "g \<noteq> 0 \<Longrightarrow> gen_pos (gen_bump g) = (gen_pos g + 1) mod 65535"
proof -
  assume g: "g \<noteq> 0"
  have b: "unat g < 65536" using unat_word_bound [of g] by simp
  have p: "0 < unat g" using g by (simp add: unat_gt_0)
  show ?thesis
  proof (cases "unat g = 65535")
    case True
    then have "unat (g + 1) = 0" by (simp add: unat_word_ariths)
    then have "g + 1 = 0" by (simp add: unat_eq_zero)
    then show ?thesis using True by (simp add: gen_bump_def gen_pos_def)
  next
    case False
    then have "unat (g + 1) = unat g + 1" using b by (simp add: unat_word_ariths)
    moreover from this have "g + 1 \<noteq> 0" by (metis Suc_eq_plus1 unat_0 nat.distinct(1))
    ultimately show ?thesis using p b False by (simp add: gen_bump_def gen_pos_def)
  qed
qed

lemma gen_pos_bumps: "g \<noteq> 0 \<Longrightarrow> (gen_bump ^^ k) g \<noteq> 0 \<and> gen_pos ((gen_bump ^^ k) g) = (gen_pos g + k) mod 65535"
proof (induction k)
  case 0
  have "unat g < 65536" using unat_word_bound [of g] by simp
  then show ?case using 0 by (simp add: gen_pos_def unat_gt_0)
next
  case (Suc k)
  then show ?case by (simp add: gen_pos_bump mod_Suc_eq)
qed

lemma gen_bumps_neq: "g \<noteq> 0 \<Longrightarrow> 0 < k \<Longrightarrow> k < 65535 \<Longrightarrow> (gen_bump ^^ k) g \<noteq> g"
proof
  assume g: "g \<noteq> 0" and k: "0 < k" "k < 65535" and eq: "(gen_bump ^^ k) g = g"
  have "unat g < 65536" using unat_word_bound [of g] by simp
  then have "gen_pos g < 65535" using g by (auto simp: gen_pos_def unat_gt_0)
  moreover have "gen_pos g = (gen_pos g + k) mod 65535" using gen_pos_bumps [OF g, of k] eq by simp
  ultimately show False using k by (auto simp: mod_if split: if_splits)
qed

section \<open>Dead handles stay dead\<close>

locale slot_table =
  fixes slots :: "'s \<Rightarrow> 'a list" and live :: "'a \<Rightarrow> bool" and gen :: "'a \<Rightarrow> u16" and view :: "'a \<Rightarrow> 'v"
    and wf :: "'s \<Rightarrow> bool" and step :: "'o \<Rightarrow> 's \<Rightarrow> 's"
  assumes step_wf: "wf s \<Longrightarrow> wf (step op s)"
    and step_length: "wf s \<Longrightarrow> length (slots (step op s)) = length (slots s)"
    and gen_nonzero: "wf s \<Longrightarrow> i < length (slots s) \<Longrightarrow> gen (slots s ! i) \<noteq> 0"
    and step_gen: "wf s \<Longrightarrow> i < length (slots s) \<Longrightarrow>
      gen (slots (step op s) ! i) = gen (slots s ! i) \<or> gen (slots (step op s) ! i) = gen_bump (gen (slots s ! i))"
    and step_death: "wf s \<Longrightarrow> i < length (slots s) \<Longrightarrow> live (slots s ! i) \<Longrightarrow>
      gen (slots (step op s) ! i) = gen (slots s ! i) \<Longrightarrow> live (slots (step op s) ! i)"
begin

abbreviation meaning :: "'s \<Rightarrow> u32 \<rightharpoonup> 'v" where
  "meaning s \<equiv> handle_map live gen view (slots s)"

lemma run_wf: "wf s \<Longrightarrow> wf (fold step ops s) \<and> length (slots (fold step ops s)) = length (slots s)"
  by (induction ops arbitrary: s) (auto simp: step_wf step_length)

lemma run_gen:
  "wf s \<Longrightarrow> i < length (slots s) \<Longrightarrow>
   \<exists>k\<le>length ops. gen (slots (fold step ops s) ! i) = (gen_bump ^^ k) (gen (slots s ! i))"
proof (induction ops rule: rev_induct)
  case Nil
  then show ?case by simp
next
  case (snoc op ops)
  then obtain k where k: "k \<le> length ops" "gen (slots (fold step ops s) ! i) = (gen_bump ^^ k) (gen (slots s ! i))" by blast
  have "wf (fold step ops s)" "i < length (slots (fold step ops s))" using run_wf [OF snoc.prems(1)] snoc.prems(2) by auto
  from step_gen [OF this, of op] show ?case
  proof
    assume "gen (slots (step op (fold step ops s)) ! i) = gen (slots (fold step ops s) ! i)"
    then show ?thesis using k by (intro exI [of _ k]) simp
  next
    assume "gen (slots (step op (fold step ops s)) ! i) = gen_bump (gen (slots (fold step ops s) ! i))"
    then show ?thesis using k by (intro exI [of _ "Suc k"]) simp
  qed
qed

lemma dead_stays_dead:
  assumes wf: "wf s" and alive: "h \<in> dom (meaning s)" and dead: "h \<notin> dom (meaning (step op s))"
    and few: "length ops \<le> 65533"
  shows "h \<notin> dom (meaning (fold step ops (step op s)))"
proof -
  let ?i = "unat (handle_index h)" and ?s = "step op s"
  have i: "?i < length (slots s)" "live (slots s ! ?i)" "gen (slots s ! ?i) = handle_gen h"
    using alive by (auto simp: handle_map_def Let_def split: if_splits)
  have "\<not> (live (slots ?s ! ?i) \<and> gen (slots ?s ! ?i) = handle_gen h)"
    using dead i(1) by (auto simp: handle_map_def Let_def dom_def step_length [OF wf])
  then have b: "gen (slots ?s ! ?i) = gen_bump (handle_gen h)"
    using step_gen [OF wf i(1), of op] step_death [OF wf i(1,2), of op] i(3) by metis
  have "?i < length (slots ?s)" using i(1) step_length [OF wf] by simp
  then obtain k where k: "k \<le> length ops" "gen (slots (fold step ops ?s) ! ?i) = (gen_bump ^^ k) (gen (slots ?s ! ?i))"
    using run_gen [OF step_wf [OF wf]] by blast
  then have "gen (slots (fold step ops ?s) ! ?i) = (gen_bump ^^ Suc k) (handle_gen h)"
    using b by (simp only: funpow_Suc_right o_def)
  moreover have "handle_gen h \<noteq> 0" using gen_nonzero [OF wf i(1)] i(3) by simp
  ultimately have "gen (slots (fold step ops ?s) ! ?i) \<noteq> handle_gen h"
    using gen_bumps_neq [of "handle_gen h" "Suc k"] k(1) few by simp
  then show ?thesis by (auto simp: handle_map_def Let_def dom_def)
qed

end

end
