(* ===== verification/Ipc_Port.thy ===== *)
theory Ipc_Port
  imports Slot_Handle Cap_Table
begin

text \<open>
  The IPC envelope of \<^verbatim>\<open>kernel/ipc/ipc_msg.h\<close> and the port table of \<^verbatim>\<open>kernel/ipc/ipc_port.c\<close>.  A port is a
  one-message mailbox with an owner and the two capabilities that gate it; its handle names a table
  slot and the slot's generation.  The meaning of the table is a map from handles to mailboxes, and
  every operation is shown to act on that map alone.
\<close>

section \<open>Types\<close>

type_synonym ipc_port_t = u32

abbreviation IPC_PORT_TABLE_MAX :: nat where "IPC_PORT_TABLE_MAX \<equiv> 16"
abbreviation "IPC_PORT_INVALID \<equiv> (0 :: ipc_port_t)"

datatype ipc_result_t =
    IPC_OK
  | IPC_ERR_INVALID_PORT
  | IPC_ERR_INVALID_MSG
  | IPC_ERR_CAP_DENIED
  | IPC_ERR_WOULD_BLOCK
  | IPC_ERR_PEER_GONE
  | IPC_ERR_BOUNDS

record ipc_msg_v0 =
  im_abi_version :: u16
  im_flags :: u16
  im_sender_subject :: u32
  im_tag :: u32
  im_payload_len :: u32
  im_payload :: "u8 list"

definition ipc_msg_zero :: ipc_msg_v0 where
  \<comment> \<open>80 zero bytes\<close>
  "ipc_msg_zero = \<lparr> im_abi_version = 0, im_flags = 0, im_sender_subject = 0, im_tag = 0, im_payload_len = 0,
     im_payload = replicate 64 0 \<rparr>"

record ipc_port_slot_t =
  pt_live :: bool
  pt_slot_occupied :: bool
  pt_generation :: u16
  pt_owner :: cap_subject_id_t
  pt_send_cap :: capability_id_t
  pt_recv_cap :: capability_id_t
  pt_staged :: ipc_msg_v0

record ipc_ports =
  g_ports :: "ipc_port_slot_t list"
  g_ports_initialized :: bool

definition ipc_slot_zero :: ipc_port_slot_t where
  "ipc_slot_zero = \<lparr> pt_live = False, pt_slot_occupied = False, pt_generation = 0, pt_owner = 0, pt_send_cap = 0,
     pt_recv_cap = 0, pt_staged = ipc_msg_zero \<rparr>"

definition ipc_ports_boot :: ipc_ports where
  \<comment> \<open>the static data before any call\<close>
  "ipc_ports_boot = \<lparr> g_ports = replicate IPC_PORT_TABLE_MAX ipc_slot_zero, g_ports_initialized = False \<rparr>"

section \<open>Operations\<close>

definition encode_handle :: "u16 \<Rightarrow> u16 \<Rightarrow> ipc_port_t" where
  "encode_handle index generation = push_bit 16 (ucast generation) OR ucast index"

definition decode_handle :: "ipc_port_t \<Rightarrow> (u16 \<times> u16) option" where
  "decode_handle handle =
    (if handle = IPC_PORT_INVALID then None
     else let index = ucast (handle AND 0xFFFF); gen = ucast (drop_bit 16 handle AND 0xFFFF)
          in if index < 16 then Some (index, gen) else None)"

definition port_resolve :: "ipc_port_t \<Rightarrow> ipc_ports \<Rightarrow> nat option" where
  \<comment> \<open>\<^verbatim>\<open>resolve()\<close>: the slot pointer is the slot's index\<close>
  "port_resolve handle p =
    (case decode_handle handle of
       None \<Rightarrow> None
     | Some (index, gen) \<Rightarrow>
        let slot = g_ports p ! unat index in
        if \<not> pt_live slot \<or> pt_generation slot \<noteq> gen then None else Some (unat index))"

definition capability_id_known :: "capability_id_t \<Rightarrow> bool" where
  "capability_id_known cap \<longleftrightarrow> cap \<in> set
     [CAP_CONSOLE_WRITE, CAP_SERIAL_WRITE, CAP_DEBUG_EXIT, CAP_CAPABILITY_ADMIN, CAP_DISK_IO_REQUEST, CAP_FS_READ,
      CAP_FS_WRITE, CAP_EVENT_SUBSCRIBE, CAP_EVENT_PUBLISH, CAP_APP_EXEC, CAP_CODESIGN_BYPASS, CAP_NETWORK,
      CAP_IPC_SEND, CAP_IPC_RECV, CAP_SYSCALL, CAP_CLOCK_SET, CAP_INPUT_MOUSE, CAP_GFX_FRAMEBUFFER, CAP_INPUT_KEYBOARD]"

definition ipc_port_reset_slot :: "ipc_port_slot_t \<Rightarrow> ipc_port_slot_t" where
  "ipc_port_reset_slot s =
    (let g = (if pt_live s \<or> pt_slot_occupied s
              then (let g = pt_generation s + 1 in if g = 0 then 1 else g)
              else if pt_generation s = 0 then 1 else pt_generation s)
     in \<lparr> pt_live = False, pt_slot_occupied = False, pt_generation = g, pt_owner = 0, pt_send_cap = 0, pt_recv_cap = 0,
          pt_staged = ipc_msg_zero \<rparr>)"

definition ipc_port_table_reset :: "ipc_ports \<Rightarrow> ipc_ports" where
  "ipc_port_table_reset p = p\<lparr> g_ports := map ipc_port_reset_slot (g_ports p), g_ports_initialized := True \<rparr>"

definition ipc_port_table_init :: "ipc_ports \<Rightarrow> ipc_ports" where
  "ipc_port_table_init p =
    (if \<not> g_ports_initialized p
     then p\<lparr> g_ports := replicate IPC_PORT_TABLE_MAX (ipc_slot_zero\<lparr> pt_generation := 1 \<rparr>), g_ports_initialized := True \<rparr>
     else ipc_port_table_reset p)"

definition ipc_port_create ::
  "cap_subject_id_t \<Rightarrow> capability_id_t \<Rightarrow> capability_id_t \<Rightarrow> bool \<Rightarrow> ipc_ports \<Rightarrow>
   ipc_result_t \<times> ipc_port_t option \<times> ipc_ports" where
  \<comment> \<open>the middle result is what is stored through \<^verbatim>\<open>out_port\<close>\<close>
  "ipc_port_create owner send_cap recv_cap out_port p =
    (let p = (if \<not> g_ports_initialized p then ipc_port_table_init p else p) in
     if \<not> out_port then (IPC_ERR_INVALID_MSG, None, p)
     else if \<not> capability_id_known send_cap \<or> \<not> capability_id_known recv_cap then (IPC_ERR_INVALID_MSG, None, p)
     else case find_idx (\<lambda>s. \<not> pt_live s) (g_ports p) of
       None \<Rightarrow> (IPC_ERR_INVALID_PORT, Some IPC_PORT_INVALID, p)
     | Some i \<Rightarrow>
        let s = (g_ports p ! i)\<lparr> pt_live := True, pt_slot_occupied := False, pt_owner := owner, pt_send_cap := send_cap,
                  pt_recv_cap := recv_cap, pt_staged := ipc_msg_zero \<rparr>
        in (IPC_OK, Some (encode_handle (of_nat i) (pt_generation s)), p\<lparr> g_ports := (g_ports p)[i := s] \<rparr>))"

definition ipc_port_destroy :: "ipc_port_t \<Rightarrow> ipc_ports \<Rightarrow> ipc_result_t \<times> ipc_ports" where
  "ipc_port_destroy port p =
    (case port_resolve port p of
       None \<Rightarrow> (IPC_ERR_INVALID_PORT, p)
     | Some i \<Rightarrow>
        let s = g_ports p ! i; g = (let g = pt_generation s + 1 in if g = 0 then 1 else g);
            s = s\<lparr> pt_live := False, pt_slot_occupied := False, pt_generation := g, pt_staged := ipc_msg_zero \<rparr>
        in (IPC_OK, p\<lparr> g_ports := (g_ports p)[i := s] \<rparr>))"

definition ipc_port_owner :: "ipc_port_t \<Rightarrow> bool \<Rightarrow> ipc_ports \<Rightarrow> ipc_result_t \<times> cap_subject_id_t option" where
  "ipc_port_owner port out_owner p =
    (if \<not> out_owner then (IPC_ERR_INVALID_MSG, None)
     else case port_resolve port p of None \<Rightarrow> (IPC_ERR_INVALID_PORT, None) | Some i \<Rightarrow> (IPC_OK, Some (pt_owner (g_ports p ! i))))"

definition ipc_port_send_cap :: "ipc_port_t \<Rightarrow> bool \<Rightarrow> ipc_ports \<Rightarrow> ipc_result_t \<times> capability_id_t option" where
  "ipc_port_send_cap port out_cap p =
    (if \<not> out_cap then (IPC_ERR_INVALID_MSG, None)
     else case port_resolve port p of None \<Rightarrow> (IPC_ERR_INVALID_PORT, None) | Some i \<Rightarrow> (IPC_OK, Some (pt_send_cap (g_ports p ! i))))"

definition ipc_port_recv_cap :: "ipc_port_t \<Rightarrow> bool \<Rightarrow> ipc_ports \<Rightarrow> ipc_result_t \<times> capability_id_t option" where
  "ipc_port_recv_cap port out_cap p =
    (if \<not> out_cap then (IPC_ERR_INVALID_MSG, None)
     else case port_resolve port p of None \<Rightarrow> (IPC_ERR_INVALID_PORT, None) | Some i \<Rightarrow> (IPC_OK, Some (pt_recv_cap (g_ports p ! i))))"

definition ipc_port_stage :: "ipc_port_t \<Rightarrow> ipc_msg_v0 option \<Rightarrow> ipc_ports \<Rightarrow> ipc_result_t \<times> ipc_ports" where
  "ipc_port_stage port msg p =
    (case msg of
       None \<Rightarrow> (IPC_ERR_INVALID_MSG, p)
     | Some m \<Rightarrow>
        (case port_resolve port p of
           None \<Rightarrow> (IPC_ERR_INVALID_PORT, p)
         | Some i \<Rightarrow>
            let s = g_ports p ! i in
            if pt_slot_occupied s then (IPC_ERR_PEER_GONE, p)
            else (IPC_OK, p\<lparr> g_ports := (g_ports p)[i := s\<lparr> pt_staged := m, pt_slot_occupied := True \<rparr>] \<rparr>)))"

definition ipc_port_consume :: "ipc_port_t \<Rightarrow> bool \<Rightarrow> ipc_ports \<Rightarrow> ipc_result_t \<times> ipc_msg_v0 option \<times> ipc_ports" where
  "ipc_port_consume port out_msg p =
    (if \<not> out_msg then (IPC_ERR_INVALID_MSG, None, p)
     else case port_resolve port p of
       None \<Rightarrow> (IPC_ERR_INVALID_PORT, None, p)
     | Some i \<Rightarrow>
        let s = g_ports p ! i in
        if \<not> pt_slot_occupied s then (IPC_ERR_PEER_GONE, None, p)
        else (IPC_OK, Some (pt_staged s), p\<lparr> g_ports := (g_ports p)[i := s\<lparr> pt_slot_occupied := False, pt_staged := ipc_msg_zero \<rparr>] \<rparr>))"

definition ipc_port_has_pending_for_tests :: "ipc_port_t \<Rightarrow> ipc_ports \<Rightarrow> bool" where
  "ipc_port_has_pending_for_tests port p =
    (case port_resolve port p of None \<Rightarrow> False | Some i \<Rightarrow> pt_slot_occupied (g_ports p ! i))"

definition ipc_port_wait_token :: "ipc_port_t \<Rightarrow> ipc_ports \<Rightarrow> nat option" where
  "ipc_port_wait_token port p = port_resolve port p"

section \<open>Meaning\<close>

record mailbox =
  mb_owner :: cap_subject_id_t
  mb_send :: capability_id_t
  mb_recv :: capability_id_t
  mb_msg :: "ipc_msg_v0 option"

definition port_view :: "ipc_port_slot_t \<Rightarrow> mailbox" where
  "port_view s = \<lparr> mb_owner = pt_owner s, mb_send = pt_send_cap s, mb_recv = pt_recv_cap s,
     mb_msg = (if pt_slot_occupied s then Some (pt_staged s) else None) \<rparr>"

definition ports_wf :: "ipc_ports \<Rightarrow> bool" where
  "ports_wf p \<longleftrightarrow> g_ports_initialized p \<and> length (g_ports p) = IPC_PORT_TABLE_MAX \<and>
     (\<forall>i<IPC_PORT_TABLE_MAX. pt_generation (g_ports p ! i) \<noteq> 0)"

abbreviation mailboxes :: "ipc_ports \<Rightarrow> ipc_port_t \<rightharpoonup> mailbox" where
  "mailboxes p \<equiv> handle_map pt_live pt_generation port_view (g_ports p)"

datatype port_op =
    P_Create cap_subject_id_t capability_id_t capability_id_t
  | P_Destroy ipc_port_t
  | P_Stage ipc_port_t ipc_msg_v0
  | P_Consume ipc_port_t
  | P_Reset
  | P_Init

fun port_step :: "port_op \<Rightarrow> ipc_ports \<Rightarrow> ipc_ports" where
  "port_step (P_Create ow s r) p = snd (snd (ipc_port_create ow s r True p))"
| "port_step (P_Destroy h) p = snd (ipc_port_destroy h p)"
| "port_step (P_Stage h m) p = snd (ipc_port_stage h (Some m) p)"
| "port_step (P_Consume h) p = snd (snd (ipc_port_consume h True p))"
| "port_step P_Reset p = ipc_port_table_reset p"
| "port_step P_Init p = ipc_port_table_init p"

section \<open>Lemmas\<close>

lemma encode_handle_pack: "encode_handle i g = handle_pack i g"
  by (simp add: encode_handle_def handle_pack_def)

lemma decode_handle_eq:
  "decode_handle h = (if h = 0 then None else if handle_index h < 16 then Some (handle_index h, handle_gen h) else None)"
  by (simp add: decode_handle_def handle_index_def handle_gen_def Let_def)

lemma port_resolve_eq:
  assumes "ports_wf p"
  shows "port_resolve h p = (if h \<in> dom (mailboxes p) then Some (unat (handle_index h)) else None)"
proof -
  have i: "handle_index h < 16 \<longleftrightarrow> unat (handle_index h) < length (g_ports p)"
    using assms by (simp add: ports_wf_def word_less_nat_alt)
  have z: "h = 0 \<Longrightarrow> unat (handle_index h) < length (g_ports p) \<Longrightarrow> pt_generation (g_ports p ! unat (handle_index h)) \<noteq> handle_gen h"
    using assms by (simp add: ports_wf_def)
  show ?thesis
    unfolding port_resolve_def decode_handle_eq i
    using z by (auto simp: handle_map_def Let_def dom_def)
qed

lemma port_resolved:
  assumes "ports_wf p" "mailboxes p h = Some m"
  obtains i where "port_resolve h p = Some i" "i < 16" "pt_live (g_ports p ! i)" "m = port_view (g_ports p ! i)"
    "h = handle_pack (of_nat i) (pt_generation (g_ports p ! i))" "i = unat (handle_index h)"
  using assms(2)
proof (rule handle_map_SomeD)
  fix i assume i: "i < length (g_ports p)" "i = unat (handle_index h)" "h = handle_pack (of_nat i) (pt_generation (g_ports p ! i))"
    "pt_live (g_ports p ! i)" "m = port_view (g_ports p ! i)"
  have "h \<in> dom (mailboxes p)" using assms(2) by blast
  then have "port_resolve h p = Some i" using port_resolve_eq [OF assms(1), of h] i(2) by simp
  moreover have "i < 16" using i(1) assms(1) by (simp add: ports_wf_def)
  ultimately show ?thesis by (rule that [OF _ _ i(4,5,3,2)])
qed

lemma port_unresolved: "ports_wf p \<Longrightarrow> mailboxes p h = None \<Longrightarrow> port_resolve h p = None"
  by (simp add: port_resolve_eq dom_def)

lemma ports_wf_set:
  "ports_wf p \<Longrightarrow> pt_generation s \<noteq> 0 \<Longrightarrow> ports_wf (p\<lparr> g_ports := (g_ports p)[i := s] \<rparr>)"
  by (cases "i < length (g_ports p)") (auto simp: ports_wf_def nth_list_update)

lemma ports_init_wf: "ports_wf (ipc_port_table_init ipc_ports_boot)"
  by (simp add: ports_wf_def ipc_port_table_init_def ipc_ports_boot_def)

subsection \<open>Each operation on the map\<close>

lemma stage_effect:
  assumes p: "ports_wf p"
  shows "ipc_port_stage h (Some m) p =
    (case mailboxes p h of
       None \<Rightarrow> (IPC_ERR_INVALID_PORT, p)
     | Some b \<Rightarrow> if mb_msg b \<noteq> None then (IPC_ERR_PEER_GONE, p) else (IPC_OK, port_step (P_Stage h m) p))"
    and "mailboxes p h = Some b \<Longrightarrow> mb_msg b = None \<Longrightarrow>
      ports_wf (port_step (P_Stage h m) p) \<and> mailboxes (port_step (P_Stage h m) p) = (mailboxes p)(h \<mapsto> b\<lparr> mb_msg := Some m \<rparr>)"
proof -
  show "ipc_port_stage h (Some m) p =
    (case mailboxes p h of
       None \<Rightarrow> (IPC_ERR_INVALID_PORT, p)
     | Some b \<Rightarrow> if mb_msg b \<noteq> None then (IPC_ERR_PEER_GONE, p) else (IPC_OK, port_step (P_Stage h m) p))"
  proof (cases "mailboxes p h")
    case None
    then show ?thesis using port_unresolved [OF p] by (simp add: ipc_port_stage_def)
  next
    case (Some b)
    then obtain i where "port_resolve h p = Some i" "b = port_view (g_ports p ! i)" by (rule port_resolved [OF p])
    then show ?thesis using Some by (simp add: ipc_port_stage_def port_view_def Let_def)
  qed
  assume b: "mailboxes p h = Some b" "mb_msg b = None"
  then obtain i where i: "port_resolve h p = Some i" "i < 16" "pt_live (g_ports p ! i)" "b = port_view (g_ports p ! i)"
    "h = handle_pack (of_nat i) (pt_generation (g_ports p ! i))"
    by (auto elim: port_resolved [OF p])
  let ?s = "(g_ports p ! i)\<lparr> pt_staged := m, pt_slot_occupied := True \<rparr>"
  have len: "length (g_ports p) = 16" using p by (simp add: ports_wf_def)
  have st: "port_step (P_Stage h m) p = p\<lparr> g_ports := (g_ports p)[i := ?s] \<rparr>"
    using i(1,4) b(2) by (simp add: ipc_port_stage_def port_view_def Let_def split: if_splits)
  have "handle_map pt_live pt_generation port_view ((g_ports p)[i := ?s]) =
      (mailboxes p)(handle_pack (of_nat i) (pt_generation ?s) \<mapsto> port_view ?s)"
    by (rule handle_map_update) (use i(2,3) len in auto)
  moreover have "port_view ?s = b\<lparr> mb_msg := Some m \<rparr>" using i(4) by (simp add: port_view_def)
  moreover have "pt_generation ?s \<noteq> 0" using p i(2) by (simp add: ports_wf_def)
  ultimately show "ports_wf (port_step (P_Stage h m) p) \<and> mailboxes (port_step (P_Stage h m) p) = (mailboxes p)(h \<mapsto> b\<lparr> mb_msg := Some m \<rparr>)"
    using ports_wf_set [OF p] i(5) unfolding st by simp
qed

lemma consume_effect:
  assumes p: "ports_wf p"
  shows "ipc_port_consume h True p =
    (case mailboxes p h of
       None \<Rightarrow> (IPC_ERR_INVALID_PORT, None, p)
     | Some b \<Rightarrow> if mb_msg b = None then (IPC_ERR_PEER_GONE, None, p) else (IPC_OK, mb_msg b, port_step (P_Consume h) p))"
    and "mailboxes p h = Some b \<Longrightarrow> mb_msg b \<noteq> None \<Longrightarrow>
      ports_wf (port_step (P_Consume h) p) \<and> mailboxes (port_step (P_Consume h) p) = (mailboxes p)(h \<mapsto> b\<lparr> mb_msg := None \<rparr>)"
proof -
  show "ipc_port_consume h True p =
    (case mailboxes p h of
       None \<Rightarrow> (IPC_ERR_INVALID_PORT, None, p)
     | Some b \<Rightarrow> if mb_msg b = None then (IPC_ERR_PEER_GONE, None, p) else (IPC_OK, mb_msg b, port_step (P_Consume h) p))"
  proof (cases "mailboxes p h")
    case None
    then show ?thesis using port_unresolved [OF p] by (simp add: ipc_port_consume_def)
  next
    case (Some b)
    then obtain i where "port_resolve h p = Some i" "b = port_view (g_ports p ! i)" by (rule port_resolved [OF p])
    then show ?thesis using Some by (simp add: ipc_port_consume_def port_view_def Let_def)
  qed
  assume b: "mailboxes p h = Some b" "mb_msg b \<noteq> None"
  then obtain i where i: "port_resolve h p = Some i" "i < 16" "pt_live (g_ports p ! i)" "b = port_view (g_ports p ! i)"
    "h = handle_pack (of_nat i) (pt_generation (g_ports p ! i))"
    by (auto elim: port_resolved [OF p])
  let ?s = "(g_ports p ! i)\<lparr> pt_slot_occupied := False, pt_staged := ipc_msg_zero \<rparr>"
  have len: "length (g_ports p) = 16" using p by (simp add: ports_wf_def)
  have st: "port_step (P_Consume h) p = p\<lparr> g_ports := (g_ports p)[i := ?s] \<rparr>"
    using i(1,4) b(2) by (simp add: ipc_port_consume_def port_view_def Let_def split: if_splits)
  have "handle_map pt_live pt_generation port_view ((g_ports p)[i := ?s]) =
      (mailboxes p)(handle_pack (of_nat i) (pt_generation ?s) \<mapsto> port_view ?s)"
    by (rule handle_map_update) (use i(2,3) len in auto)
  moreover have "port_view ?s = b\<lparr> mb_msg := None \<rparr>" using i(4) by (simp add: port_view_def)
  moreover have "pt_generation ?s \<noteq> 0" using p i(2) by (simp add: ports_wf_def)
  ultimately show "ports_wf (port_step (P_Consume h) p) \<and> mailboxes (port_step (P_Consume h) p) = (mailboxes p)(h \<mapsto> b\<lparr> mb_msg := None \<rparr>)"
    using ports_wf_set [OF p] i(5) unfolding st by simp
qed

lemma destroy_effect:
  assumes p: "ports_wf p"
  shows "ipc_port_destroy h p = (if h \<in> dom (mailboxes p) then (IPC_OK, port_step (P_Destroy h) p) else (IPC_ERR_INVALID_PORT, p))"
    and "ports_wf (port_step (P_Destroy h) p) \<and> mailboxes (port_step (P_Destroy h) p) = (mailboxes p)(h := None)"
proof -
  show "ipc_port_destroy h p = (if h \<in> dom (mailboxes p) then (IPC_OK, port_step (P_Destroy h) p) else (IPC_ERR_INVALID_PORT, p))"
    using port_resolve_eq [OF p, of h] by (simp add: ipc_port_destroy_def Let_def)
  show "ports_wf (port_step (P_Destroy h) p) \<and> mailboxes (port_step (P_Destroy h) p) = (mailboxes p)(h := None)"
  proof (cases "mailboxes p h")
    case None
    then show ?thesis using p port_unresolved [OF p] by (simp add: ipc_port_destroy_def fun_upd_idem)
  next
    case (Some b)
    then obtain i where i: "port_resolve h p = Some i" "i < 16" "pt_live (g_ports p ! i)"
      "h = handle_pack (of_nat i) (pt_generation (g_ports p ! i))"
      by (auto elim: port_resolved [OF p])
    let ?s = "(g_ports p ! i)\<lparr> pt_live := False, pt_slot_occupied := False,
      pt_generation := gen_bump (pt_generation (g_ports p ! i)), pt_staged := ipc_msg_zero \<rparr>"
    have len: "length (g_ports p) = 16" using p by (simp add: ports_wf_def)
    have st: "port_step (P_Destroy h) p = p\<lparr> g_ports := (g_ports p)[i := ?s] \<rparr>"
      using i(1) by (simp add: ipc_port_destroy_def gen_bump_def Let_def)
    have "handle_map pt_live pt_generation port_view ((g_ports p)[i := ?s]) =
        (mailboxes p)(handle_pack (of_nat i) (pt_generation (g_ports p ! i)) := None)"
      by (rule handle_map_kill) (use i(2,3) len in auto)
    moreover have "pt_generation ?s \<noteq> 0" by simp
    ultimately show ?thesis using ports_wf_set [OF p] i(4) unfolding st by simp
  qed
qed

lemma create_effect:
  assumes p: "ports_wf p" and known: "capability_id_known sc" "capability_id_known rc"
  shows "card (dom (mailboxes p)) = 16 \<Longrightarrow> ipc_port_create ow sc rc True p = (IPC_ERR_INVALID_PORT, Some IPC_PORT_INVALID, p)"
    and "card (dom (mailboxes p)) \<noteq> 16 \<Longrightarrow> \<exists>h p'. ipc_port_create ow sc rc True p = (IPC_OK, Some h, p') \<and> h \<noteq> IPC_PORT_INVALID \<and>
      h \<notin> dom (mailboxes p) \<and> ports_wf p' \<and>
      mailboxes p' = (mailboxes p)(h \<mapsto> \<lparr> mb_owner = ow, mb_send = sc, mb_recv = rc, mb_msg = None \<rparr>)"
proof -
  have len: "length (g_ports p) = 16" and ini: "g_ports_initialized p" using p by (simp_all add: ports_wf_def)
  have "{i. i < 16 \<and> pt_live (g_ports p ! i)} \<subseteq> {..<16}" by auto
  moreover have "card (dom (mailboxes p)) = card {i. i < 16 \<and> pt_live (g_ports p ! i)}"
    using card_handle_map [of "g_ports p" pt_live pt_generation port_view] len by simp
  ultimately have full: "card (dom (mailboxes p)) = 16 \<longleftrightarrow> (\<forall>i<16. pt_live (g_ports p ! i))"
    by (metis (mono_tags, lifting) card_lessThan card_subset_eq finite_lessThan lessThan_iff mem_Collect_eq subsetI subset_antisym)
  {
    assume "card (dom (mailboxes p)) = 16"
    then have "find_idx (\<lambda>s. \<not> pt_live s) (g_ports p) = None" using full by (simp add: find_idx_None_iff len)
    then show "ipc_port_create ow sc rc True p = (IPC_ERR_INVALID_PORT, Some IPC_PORT_INVALID, p)"
      using known ini by (simp add: ipc_port_create_def Let_def)
  }
  assume "card (dom (mailboxes p)) \<noteq> 16"
  then have "find_idx (\<lambda>s. \<not> pt_live s) (g_ports p) \<noteq> None" using full by (simp add: find_idx_None_iff len)
  then obtain i where i: "find_idx (\<lambda>s. \<not> pt_live s) (g_ports p) = Some i" by blast
  then have i': "i < 16" "\<not> pt_live (g_ports p ! i)" using find_idx_SomeD [OF i] len by auto
  let ?s = "(g_ports p ! i)\<lparr> pt_live := True, pt_slot_occupied := False, pt_owner := ow, pt_send_cap := sc,
      pt_recv_cap := rc, pt_staged := ipc_msg_zero \<rparr>"
  let ?h = "handle_pack (of_nat i) (pt_generation (g_ports p ! i))" and ?p = "p\<lparr> g_ports := (g_ports p)[i := ?s] \<rparr>"
  have g: "pt_generation (g_ports p ! i) \<noteq> 0" using p i'(1) by (simp add: ports_wf_def)
  have "ipc_port_create ow sc rc True p = (IPC_OK, Some ?h, ?p)"
    using known ini i by (simp add: ipc_port_create_def Let_def encode_handle_pack)
  moreover have "?h \<notin> dom (mailboxes p)"
    using i' len handle_map_at [of i "g_ports p" pt_live pt_generation port_view "pt_generation (g_ports p ! i)"] by (simp add: domIff)
  moreover have "mailboxes ?p = (mailboxes p)(?h \<mapsto> \<lparr> mb_owner = ow, mb_send = sc, mb_recv = rc, mb_msg = None \<rparr>)"
  proof -
    have "handle_map pt_live pt_generation port_view ((g_ports p)[i := ?s]) =
        (mailboxes p)(handle_pack (of_nat i) (pt_generation ?s) \<mapsto> port_view ?s)"
      by (rule handle_map_update) (use i' len in auto)
    then show ?thesis by (simp add: port_view_def)
  qed
  ultimately show "\<exists>h p'. ipc_port_create ow sc rc True p = (IPC_OK, Some h, p') \<and> h \<noteq> IPC_PORT_INVALID \<and>
      h \<notin> dom (mailboxes p) \<and> ports_wf p' \<and>
      mailboxes p' = (mailboxes p)(h \<mapsto> \<lparr> mb_owner = ow, mb_send = sc, mb_recv = rc, mb_msg = None \<rparr>)"
    using handle_pack_eq_0 [OF g] ports_wf_set [OF p, of ?s i] g by (intro exI [of _ ?h] exI [of _ ?p]) simp
qed

lemma reset_slot_gen:
  "pt_generation (ipc_port_reset_slot s) =
     (if pt_live s \<or> pt_slot_occupied s then gen_bump (pt_generation s) else if pt_generation s = 0 then 1 else pt_generation s)"
  "\<not> pt_live (ipc_port_reset_slot s)"
  by (simp_all add: ipc_port_reset_slot_def gen_bump_def Let_def)

definition port_evolves :: "ipc_ports \<Rightarrow> ipc_ports \<Rightarrow> bool" where
  \<comment> \<open>slots keep or bump their generation, and bump it when they die\<close>
  "port_evolves p p' \<longleftrightarrow> ports_wf p' \<and>
    (\<forall>i<16. (pt_generation (g_ports p' ! i) = pt_generation (g_ports p ! i) \<or>
             pt_generation (g_ports p' ! i) = gen_bump (pt_generation (g_ports p ! i))) \<and>
       (pt_live (g_ports p ! i) \<longrightarrow> pt_generation (g_ports p' ! i) = pt_generation (g_ports p ! i) \<longrightarrow> pt_live (g_ports p' ! i)))"

lemma gen_bump_neq: "g \<noteq> 0 \<Longrightarrow> gen_bump g \<noteq> g"
  using gen_bumps_neq [of g 1] by simp

lemma port_evolves_refl: "ports_wf p \<Longrightarrow> port_evolves p p"
  by (simp add: port_evolves_def)

lemma port_evolves_set:
  assumes p: "ports_wf p" and k: "k < 16"
    and s: "pt_live s \<and> pt_generation s = pt_generation (g_ports p ! k) \<or> pt_generation s = gen_bump (pt_generation (g_ports p ! k))"
  shows "port_evolves p (p\<lparr> g_ports := (g_ports p)[k := s] \<rparr>)"
proof -
  have len: "length (g_ports p) = 16" and g: "pt_generation (g_ports p ! k) \<noteq> 0" using p k by (simp_all add: ports_wf_def)
  have "pt_generation s \<noteq> 0" using s g by auto
  then have "ports_wf (p\<lparr> g_ports := (g_ports p)[k := s] \<rparr>)" by (rule ports_wf_set [OF p])
  then show ?thesis using s gen_bump_neq [OF g] k len by (auto simp: port_evolves_def nth_list_update)
qed

lemma port_evolves_reset: "ports_wf p \<Longrightarrow> port_evolves p (ipc_port_table_reset p)"
  by (auto simp: port_evolves_def ports_wf_def ipc_port_table_reset_def reset_slot_gen gen_bump_neq)

lemma resolve_less: "ports_wf p \<Longrightarrow> port_resolve h p = Some i \<Longrightarrow> i < 16 \<and> pt_live (g_ports p ! i)"
  by (auto simp: port_resolve_eq handle_map_def dom_def Let_def ports_wf_def split: if_splits)

lemma port_step_evolves:
  assumes p: "ports_wf p"
  shows "port_evolves p (port_step op p)"
proof (cases op)
  case (P_Create ow sc rc)
  show ?thesis
  proof (cases "find_idx (\<lambda>s. \<not> pt_live s) (g_ports p)")
    case None
    then show ?thesis using p port_evolves_refl [OF p] P_Create by (simp add: ipc_port_create_def Let_def ports_wf_def)
  next
    case (Some i)
    then have "i < 16" using find_idx_SomeD [OF Some] p by (simp add: ports_wf_def)
    then show ?thesis
      using p port_evolves_refl [OF p] P_Create Some
      by (auto simp: ipc_port_create_def Let_def ports_wf_def [THEN iffD1, THEN conjunct1] intro!: port_evolves_set)
  qed
next
  case (P_Destroy h)
  then show ?thesis
    using p port_evolves_refl [OF p]
    by (auto simp: ipc_port_destroy_def Let_def gen_bump_def intro!: port_evolves_set dest!: resolve_less [OF p] split: option.split)
next
  case (P_Stage h m)
  then show ?thesis
    using p port_evolves_refl [OF p]
    by (auto simp: ipc_port_stage_def Let_def intro!: port_evolves_set dest: resolve_less [OF p] split: option.split)
next
  case (P_Consume h)
  then show ?thesis
    using p port_evolves_refl [OF p]
    by (auto simp: ipc_port_consume_def Let_def intro!: port_evolves_set dest: resolve_less [OF p] split: option.split)
next
  case P_Reset
  then show ?thesis using port_evolves_reset [OF p] by simp
next
  case P_Init
  then show ?thesis using port_evolves_reset [OF p] p by (simp add: ipc_port_table_init_def ports_wf_def)
qed

interpretation ports: slot_table g_ports pt_live pt_generation port_view ports_wf port_step
proof
  fix p op i assume p: "ports_wf p"
  note e = port_step_evolves [OF p, of op]
  show "ports_wf (port_step op p)" using e by (simp add: port_evolves_def)
  then show "length (g_ports (port_step op p)) = length (g_ports p)" using p by (simp add: ports_wf_def)
  assume i: "i < length (g_ports p)"
  then have i': "i < 16" using p by (simp add: ports_wf_def)
  show "pt_generation (g_ports p ! i) \<noteq> 0" using p i' by (simp add: ports_wf_def)
  show "pt_generation (g_ports (port_step op p) ! i) = pt_generation (g_ports p ! i) \<or>
      pt_generation (g_ports (port_step op p) ! i) = gen_bump (pt_generation (g_ports p ! i))"
    using e i' by (simp add: port_evolves_def)
  assume "pt_live (g_ports p ! i)" "pt_generation (g_ports (port_step op p) ! i) = pt_generation (g_ports p ! i)"
  then show "pt_live (g_ports (port_step op p) ! i)" using e i' by (simp add: port_evolves_def)
qed

section \<open>Properties\<close>


definition demo_ports :: ipc_ports where
  "demo_ports = port_step (P_Create 3 CAP_IPC_SEND CAP_IPC_RECV) (ipc_port_table_init ipc_ports_boot)"

lemma demo_ports_wf: "ports_wf demo_ports"
  unfolding demo_ports_def by (rule ports.step_wf [OF ports_init_wf])


text \<open>
  A port handle that was destroyed or reset does not come back to life within the next 65533
  operations on the table, whatever ports these create: the generation of its slot has to run
  through all 65535 non-zero values first.
\<close>

theorem ipc_port_stale_stays_stale:
  assumes "ports_wf p" "h \<in> dom (mailboxes p)" "h \<notin> dom (mailboxes (port_step op p))" "length ops \<le> 65533"
  shows "h \<notin> dom (mailboxes (fold port_step ops (port_step op p)))"
  using assms by (rule ports.dead_stays_dead)

theorem ipc_port_stale_stays_stale_witness:
  "0x10000 \<notin> dom (mailboxes (fold port_step [P_Create 5 CAP_FS_READ CAP_FS_READ] (port_step (P_Destroy 0x10000) demo_ports)))"
proof -
  have "mailboxes demo_ports 0x10000 \<noteq> None" "mailboxes (port_step (P_Destroy 0x10000) demo_ports) 0x10000 = None"
    by code_simp+
  then show ?thesis using ipc_port_stale_stays_stale [OF demo_ports_wf, of "0x10000" "P_Destroy 0x10000" "[P_Create 5 CAP_FS_READ CAP_FS_READ]"]
    by (simp add: domIff)
qed

end
