(* ===== verification/Process_Table.thy ===== *)
theory Process_Table
  imports Slot_Handle Cap_Handle Cap_Deny_Marker Address_Space
begin

text \<open>
  The process table of \<^verbatim>\<open>kernel/proc/process.c\<close>.  A process id names a table slot and its generation, as
  for ports.  Pointers to address spaces, entry functions and port wait tokens are opaque to this
  file; they are addresses, with 0 for the null pointer.  Destroying a process also revokes the
  capability handles of its subject, so that operation acts on the handle table as well.
\<close>

section \<open>Types\<close>

type_synonym process_id_t = u32
type_synonym pointer = nat

abbreviation PROC_TABLE_MAX :: nat where "PROC_TABLE_MAX \<equiv> 16"
abbreviation "PID_INVALID \<equiv> (0 :: process_id_t)"
abbreviation NULL :: pointer where "NULL \<equiv> 0"

datatype proc_result_t = PROC_OK | PROC_ERR_INVALID_PID | PROC_ERR_INVALID_ARG | PROC_ERR_TABLE_FULL

datatype process_state_t =
    PROC_STATE_NEW | PROC_STATE_READY | PROC_STATE_RUNNING | PROC_STATE_BLOCKED | PROC_STATE_EXITED

record process_t =
  pr_pid :: process_id_t
  pr_subject :: cap_subject_id_t
  pr_aspace :: pointer
  pr_state :: process_state_t
  pr_entry :: pointer
  pr_exit_code :: u32
  pr_blocked_on_port :: "nat option"  \<comment> \<open>the wait token of a port, or the null pointer\<close>

record process_slot_t =
  ps_live :: bool
  ps_generation :: u16
  ps_subject :: cap_subject_id_t
  ps_aspace :: pointer
  ps_state :: process_state_t
  ps_entry :: pointer
  ps_exit_code :: u32
  ps_blocked_on_port :: "nat option"

record proc_table =
  g_procs :: "process_slot_t list"
  g_procs_initialized :: bool

definition proc_slot_zero :: process_slot_t where
  "proc_slot_zero = \<lparr> ps_live = False, ps_generation = 0, ps_subject = 0, ps_aspace = NULL, ps_state = PROC_STATE_NEW,
     ps_entry = NULL, ps_exit_code = 0, ps_blocked_on_port = None \<rparr>"

definition proc_table_boot :: proc_table where
  \<comment> \<open>the static data before any call\<close>
  "proc_table_boot = \<lparr> g_procs = replicate PROC_TABLE_MAX proc_slot_zero, g_procs_initialized = False \<rparr>"

section \<open>Operations\<close>

definition proc_table_full_marker :: "cap_subject_id_t \<Rightarrow> string option" where
  \<comment> \<open>the line \<^verbatim>\<open>proc_emit_table_full_deny_marker\<close> writes; the buffer has \<^verbatim>\<open>CAP_DENY_MARKER_MAX\<close> bytes\<close>
  "proc_table_full_marker subject = cap_deny_marker_format subject CAP_APP_EXEC (Some ''proc_table_full'') True CAP_DENY_MARKER_MAX"

definition encode_pid :: "u16 \<Rightarrow> u16 \<Rightarrow> process_id_t" where
  "encode_pid index generation = push_bit 16 (ucast generation) OR ucast index"

definition decode_pid :: "process_id_t \<Rightarrow> (u16 \<times> u16) option" where
  "decode_pid pid =
    (if pid = PID_INVALID then None
     else let index = ucast (pid AND 0xFFFF); gen = ucast (drop_bit 16 pid AND 0xFFFF)
          in if index < 16 then Some (index, gen) else None)"

definition proc_resolve :: "process_id_t \<Rightarrow> proc_table \<Rightarrow> nat option" where
  "proc_resolve pid t =
    (case decode_pid pid of
       None \<Rightarrow> None
     | Some (index, gen) \<Rightarrow>
        let slot = g_procs t ! unat index in
        if \<not> ps_live slot \<or> ps_generation slot \<noteq> gen then None else Some (unat index))"

definition proc_reset_slot :: "bool \<Rightarrow> process_slot_t \<Rightarrow> process_slot_t" where
  "proc_reset_slot initialized s =
    (let g = (if initialized then (let g = ps_generation s + 1 in if g = 0 then 1 else g)
              else if ps_generation s = 0 then 1 else ps_generation s)
     in proc_slot_zero\<lparr> ps_generation := g \<rparr>)"

definition process_table_reset :: "proc_table \<Rightarrow> proc_table" where
  "process_table_reset t = \<lparr> g_procs = map (proc_reset_slot (g_procs_initialized t)) (g_procs t), g_procs_initialized = True \<rparr>"

definition process_table_init :: "proc_table \<Rightarrow> proc_table" where
  "process_table_init t = process_table_reset t"

definition process_create ::
  "cap_subject_id_t \<Rightarrow> pointer \<Rightarrow> bool \<Rightarrow> proc_table \<Rightarrow> proc_result_t \<times> process_id_t option \<times> string option \<times> proc_table" where
  \<comment> \<open>result, what is stored through \<^verbatim>\<open>out_pid\<close>, the line written to the console, the table\<close>
  "process_create subject aspace out_pid t =
    (let t = (if \<not> g_procs_initialized t then process_table_init t else t) in
     if \<not> out_pid then (PROC_ERR_INVALID_ARG, None, None, t)
     else case find_idx (\<lambda>s. \<not> ps_live s) (g_procs t) of
       None \<Rightarrow> (PROC_ERR_TABLE_FULL, Some PID_INVALID, proc_table_full_marker subject, t)
     | Some i \<Rightarrow>
        let s = (g_procs t ! i)\<lparr> ps_live := True, ps_subject := subject, ps_aspace := aspace, ps_state := PROC_STATE_NEW,
                  ps_entry := NULL, ps_exit_code := 0, ps_blocked_on_port := None \<rparr>
        in (PROC_OK, Some (encode_pid (of_nat i) (ps_generation s)), None, t\<lparr> g_procs := (g_procs t)[i := s] \<rparr>))"

definition process_destroy :: "process_id_t \<Rightarrow> proc_table \<Rightarrow> cap_handle_table \<Rightarrow> proc_result_t \<times> proc_table \<times> cap_handle_table" where
  "process_destroy pid t handles =
    (case proc_resolve pid t of
       None \<Rightarrow> (PROC_ERR_INVALID_PID, t, handles)
     | Some i \<Rightarrow>
        let s = g_procs t ! i; exiting_subject = ps_subject s;
            g = (let g = ps_generation s + 1 in if g = 0 then 1 else g);
            s = s\<lparr> ps_live := False, ps_generation := g, ps_subject := 0, ps_aspace := NULL \<rparr>
        in (PROC_OK, t\<lparr> g_procs := (g_procs t)[i := s] \<rparr>, snd (cap_handle_revoke_subject exiting_subject handles)))"

definition process_lookup :: "process_id_t \<Rightarrow> bool \<Rightarrow> proc_table \<Rightarrow> proc_result_t \<times> process_t option" where
  "process_lookup pid out_proc t =
    (if \<not> out_proc then (PROC_ERR_INVALID_ARG, None)
     else case proc_resolve pid t of
       None \<Rightarrow> (PROC_ERR_INVALID_PID, None)
     | Some i \<Rightarrow>
        let s = g_procs t ! i in
        (PROC_OK, Some \<lparr> pr_pid = pid, pr_subject = ps_subject s, pr_aspace = ps_aspace s, pr_state = ps_state s,
           pr_entry = ps_entry s, pr_exit_code = ps_exit_code s, pr_blocked_on_port = ps_blocked_on_port s \<rparr>))"

definition process_is_live_for_tests :: "process_id_t \<Rightarrow> proc_table \<Rightarrow> bool" where
  "process_is_live_for_tests pid t \<longleftrightarrow> proc_resolve pid t \<noteq> None"

definition process_find_aspace_by_subject :: "cap_subject_id_t \<Rightarrow> proc_table \<Rightarrow> pointer" where
  "process_find_aspace_by_subject subject t =
    (if subject = 0 then NULL
     else if \<not> g_procs_initialized t then NULL
     else case find_idx (\<lambda>s. ps_live s \<and> ps_subject s = subject) (g_procs t) of
       None \<Rightarrow> NULL | Some i \<Rightarrow> ps_aspace (g_procs t ! i))"

definition proc_slot_set :: "process_id_t \<Rightarrow> (process_slot_t \<Rightarrow> process_slot_t) \<Rightarrow> proc_table \<Rightarrow> proc_result_t \<times> proc_table" where
  \<comment> \<open>the common shape of the four mutator accessors\<close>
  "proc_slot_set pid f t =
    (case proc_resolve pid t of
       None \<Rightarrow> (PROC_ERR_INVALID_PID, t)
     | Some i \<Rightarrow> (PROC_OK, t\<lparr> g_procs := (g_procs t)[i := f (g_procs t ! i)] \<rparr>))"

definition process_set_state :: "process_id_t \<Rightarrow> process_state_t \<Rightarrow> proc_table \<Rightarrow> proc_result_t \<times> proc_table" where
  "process_set_state pid st t = proc_slot_set pid (\<lambda>s. s\<lparr> ps_state := st \<rparr>) t"

definition process_set_entry :: "process_id_t \<Rightarrow> pointer \<Rightarrow> proc_table \<Rightarrow> proc_result_t \<times> proc_table" where
  "process_set_entry pid entry t = proc_slot_set pid (\<lambda>s. s\<lparr> ps_entry := entry \<rparr>) t"

definition process_set_exit_code :: "process_id_t \<Rightarrow> u32 \<Rightarrow> proc_table \<Rightarrow> proc_result_t \<times> proc_table" where
  "process_set_exit_code pid code t = proc_slot_set pid (\<lambda>s. s\<lparr> ps_exit_code := code \<rparr>) t"

definition process_set_blocked_on :: "process_id_t \<Rightarrow> nat option \<Rightarrow> proc_table \<Rightarrow> proc_result_t \<times> proc_table" where
  "process_set_blocked_on pid port t = proc_slot_set pid (\<lambda>s. s\<lparr> ps_blocked_on_port := port \<rparr>) t"

section \<open>Meaning\<close>

record pcb =
  pcb_subject :: cap_subject_id_t
  pcb_aspace :: pointer
  pcb_state :: process_state_t
  pcb_entry :: pointer
  pcb_exit_code :: u32
  pcb_blocked_on :: "nat option"

definition proc_view :: "process_slot_t \<Rightarrow> pcb" where
  "proc_view s = \<lparr> pcb_subject = ps_subject s, pcb_aspace = ps_aspace s, pcb_state = ps_state s, pcb_entry = ps_entry s,
     pcb_exit_code = ps_exit_code s, pcb_blocked_on = ps_blocked_on_port s \<rparr>"

definition procs_wf :: "proc_table \<Rightarrow> bool" where
  "procs_wf t \<longleftrightarrow> g_procs_initialized t \<and> length (g_procs t) = PROC_TABLE_MAX \<and>
     (\<forall>i<PROC_TABLE_MAX. ps_generation (g_procs t ! i) \<noteq> 0)"

abbreviation pcbs :: "proc_table \<Rightarrow> process_id_t \<rightharpoonup> pcb" where
  "pcbs t \<equiv> handle_map ps_live ps_generation proc_view (g_procs t)"

section \<open>Lemmas\<close>

lemma decode_pid_eq:
  "decode_pid h = (if h = 0 then None else if handle_index h < 16 then Some (handle_index h, handle_gen h) else None)"
  by (simp add: decode_pid_def handle_index_def handle_gen_def Let_def)

lemma encode_pid_pack: "encode_pid i g = handle_pack i g"
  by (simp add: encode_pid_def handle_pack_def)

lemma proc_resolve_eq:
  assumes "procs_wf t"
  shows "proc_resolve h t = (if h \<in> dom (pcbs t) then Some (unat (handle_index h)) else None)"
proof -
  have i: "handle_index h < 16 \<longleftrightarrow> unat (handle_index h) < length (g_procs t)"
    using assms by (simp add: procs_wf_def word_less_nat_alt)
  have z: "h = 0 \<Longrightarrow> unat (handle_index h) < length (g_procs t) \<Longrightarrow> ps_generation (g_procs t ! unat (handle_index h)) \<noteq> handle_gen h"
    using assms by (simp add: procs_wf_def)
  show ?thesis
    unfolding proc_resolve_def decode_pid_eq i
    using z by (auto simp: handle_map_def Let_def dom_def)
qed

lemma proc_resolved:
  assumes "procs_wf t" "pcbs t h = Some b"
  obtains i where "proc_resolve h t = Some i" "i < 16" "ps_live (g_procs t ! i)" "b = proc_view (g_procs t ! i)"
    "h = handle_pack (of_nat i) (ps_generation (g_procs t ! i))" "i = unat (handle_index h)"
  using assms(2)
proof (rule handle_map_SomeD)
  fix i assume i: "i < length (g_procs t)" "i = unat (handle_index h)" "h = handle_pack (of_nat i) (ps_generation (g_procs t ! i))"
    "ps_live (g_procs t ! i)" "b = proc_view (g_procs t ! i)"
  have "h \<in> dom (pcbs t)" using assms(2) by blast
  then have "proc_resolve h t = Some i" using proc_resolve_eq [OF assms(1), of h] i(2) by simp
  moreover have "i < 16" using i(1) assms(1) by (simp add: procs_wf_def)
  ultimately show ?thesis by (rule that [OF _ _ i(4,5,3,2)])
qed

lemma proc_unresolved: "procs_wf t \<Longrightarrow> pcbs t h = None \<Longrightarrow> proc_resolve h t = None"
  by (simp add: proc_resolve_eq dom_def)

lemma procs_wf_set:
  "procs_wf t \<Longrightarrow> ps_generation s \<noteq> 0 \<Longrightarrow> procs_wf (t\<lparr> g_procs := (g_procs t)[i := s] \<rparr>)"
  by (cases "i < length (g_procs t)") (auto simp: procs_wf_def nth_list_update)

lemma proc_slot_set_effect:
  assumes t: "procs_wf t" and f: "\<And>s. ps_live (f s) = ps_live s" "\<And>s. ps_generation (f s) = ps_generation s"
    and v: "\<And>s. proc_view (f s) = g (proc_view s)"
  shows "proc_slot_set h f t = (if h \<in> dom (pcbs t) then PROC_OK else PROC_ERR_INVALID_PID, snd (proc_slot_set h f t))"
    and "procs_wf (snd (proc_slot_set h f t))"
    and "pcbs (snd (proc_slot_set h f t)) = (pcbs t)(h := map_option g (pcbs t h))"
proof -
  show "proc_slot_set h f t = (if h \<in> dom (pcbs t) then PROC_OK else PROC_ERR_INVALID_PID, snd (proc_slot_set h f t))"
    using proc_resolve_eq [OF t, of h] by (simp add: proc_slot_set_def)
  have "procs_wf (snd (proc_slot_set h f t)) \<and> pcbs (snd (proc_slot_set h f t)) = (pcbs t)(h := map_option g (pcbs t h))"
  proof (cases "pcbs t h")
    case None
    then show ?thesis using t proc_unresolved [OF t] by (simp add: proc_slot_set_def fun_upd_idem)
  next
    case (Some b)
    then obtain i where i: "proc_resolve h t = Some i" "i < 16" "ps_live (g_procs t ! i)" "b = proc_view (g_procs t ! i)"
      "h = handle_pack (of_nat i) (ps_generation (g_procs t ! i))"
      by (auto elim: proc_resolved [OF t])
    let ?s = "f (g_procs t ! i)"
    have len: "length (g_procs t) = 16" using t by (simp add: procs_wf_def)
    have st: "snd (proc_slot_set h f t) = t\<lparr> g_procs := (g_procs t)[i := ?s] \<rparr>" using i(1) by (simp add: proc_slot_set_def)
    have "handle_map ps_live ps_generation proc_view ((g_procs t)[i := ?s]) =
        (pcbs t)(handle_pack (of_nat i) (ps_generation ?s) \<mapsto> proc_view ?s)"
      by (rule handle_map_update) (use i(2,3) len f in auto)
    moreover have "ps_generation ?s \<noteq> 0" using t i(2) f(2) by (simp add: procs_wf_def)
    ultimately show ?thesis using procs_wf_set [OF t] i(4,5) Some f(2) v unfolding st by simp
  qed
  then show "procs_wf (snd (proc_slot_set h f t))" "pcbs (snd (proc_slot_set h f t)) = (pcbs t)(h := map_option g (pcbs t h))"
    by auto
qed

lemma create_proc_effect:
  assumes t: "procs_wf t"
  shows "card (dom (pcbs t)) = 16 \<Longrightarrow> process_create s a True t = (PROC_ERR_TABLE_FULL, Some PID_INVALID, proc_table_full_marker s, t)"
    and "card (dom (pcbs t)) \<noteq> 16 \<Longrightarrow> \<exists>pid t'. process_create s a True t = (PROC_OK, Some pid, None, t') \<and> pid \<noteq> PID_INVALID \<and>
      pid \<notin> dom (pcbs t) \<and> procs_wf t' \<and>
      pcbs t' = (pcbs t)(pid \<mapsto> \<lparr> pcb_subject = s, pcb_aspace = a, pcb_state = PROC_STATE_NEW, pcb_entry = NULL, pcb_exit_code = 0, pcb_blocked_on = None \<rparr>)"
proof -
  have len: "length (g_procs t) = 16" and ini: "g_procs_initialized t" using t by (simp_all add: procs_wf_def)
  have "{i. i < 16 \<and> ps_live (g_procs t ! i)} \<subseteq> {..<16}" by auto
  moreover have "card (dom (pcbs t)) = card {i. i < 16 \<and> ps_live (g_procs t ! i)}"
    using card_handle_map [of "g_procs t" ps_live ps_generation proc_view] len by simp
  ultimately have full: "card (dom (pcbs t)) = 16 \<longleftrightarrow> (\<forall>i<16. ps_live (g_procs t ! i))"
    by (metis (mono_tags, lifting) card_lessThan card_subset_eq finite_lessThan lessThan_iff mem_Collect_eq subsetI subset_antisym)
  {
    assume "card (dom (pcbs t)) = 16"
    then have "find_idx (\<lambda>s. \<not> ps_live s) (g_procs t) = None" using full by (simp add: find_idx_None_iff len)
    then show "process_create s a True t = (PROC_ERR_TABLE_FULL, Some PID_INVALID, proc_table_full_marker s, t)"
      using ini by (simp add: process_create_def Let_def)
  }
  assume "card (dom (pcbs t)) \<noteq> 16"
  then have "find_idx (\<lambda>s. \<not> ps_live s) (g_procs t) \<noteq> None" using full by (simp add: find_idx_None_iff len)
  then obtain i where i: "find_idx (\<lambda>s. \<not> ps_live s) (g_procs t) = Some i" by blast
  then have i': "i < 16" "\<not> ps_live (g_procs t ! i)" using find_idx_SomeD [OF i] len by auto
  let ?s = "(g_procs t ! i)\<lparr> ps_live := True, ps_subject := s, ps_aspace := a, ps_state := PROC_STATE_NEW,
      ps_entry := NULL, ps_exit_code := 0, ps_blocked_on_port := None \<rparr>"
  let ?h = "handle_pack (of_nat i) (ps_generation (g_procs t ! i))" and ?t = "t\<lparr> g_procs := (g_procs t)[i := ?s] \<rparr>"
  have g: "ps_generation (g_procs t ! i) \<noteq> 0" using t i'(1) by (simp add: procs_wf_def)
  have "process_create s a True t = (PROC_OK, Some ?h, None, ?t)"
    using ini i by (simp add: process_create_def Let_def encode_pid_pack)
  moreover have "?h \<notin> dom (pcbs t)"
    using i' len handle_map_at [of i "g_procs t" ps_live ps_generation proc_view "ps_generation (g_procs t ! i)"] by (simp add: domIff)
  moreover have "pcbs ?t = (pcbs t)(?h \<mapsto> \<lparr> pcb_subject = s, pcb_aspace = a, pcb_state = PROC_STATE_NEW, pcb_entry = NULL, pcb_exit_code = 0, pcb_blocked_on = None \<rparr>)"
  proof -
    have "handle_map ps_live ps_generation proc_view ((g_procs t)[i := ?s]) =
        (pcbs t)(handle_pack (of_nat i) (ps_generation ?s) \<mapsto> proc_view ?s)"
      by (rule handle_map_update) (use i' len in auto)
    then show ?thesis by (simp add: proc_view_def)
  qed
  ultimately show "\<exists>pid t'. process_create s a True t = (PROC_OK, Some pid, None, t') \<and> pid \<noteq> PID_INVALID \<and>
      pid \<notin> dom (pcbs t) \<and> procs_wf t' \<and>
      pcbs t' = (pcbs t)(pid \<mapsto> \<lparr> pcb_subject = s, pcb_aspace = a, pcb_state = PROC_STATE_NEW, pcb_entry = NULL, pcb_exit_code = 0, pcb_blocked_on = None \<rparr>)"
    using handle_pack_eq_0 [OF g] procs_wf_set [OF t, of ?s i] g by (intro exI [of _ ?h] exI [of _ ?t]) simp
qed

lemma destroy_proc_effect:
  assumes t: "procs_wf t"
  shows "pcbs t pid = None \<Longrightarrow> process_destroy pid t hs = (PROC_ERR_INVALID_PID, t, hs)"
    and "pcbs t pid = Some b \<Longrightarrow> \<exists>t'. (\<forall>hs. process_destroy pid t hs = (PROC_OK, t', snd (cap_handle_revoke_subject (pcb_subject b) hs))) \<and>
      procs_wf t' \<and> pcbs t' = (pcbs t)(pid := None)"
proof -
  show "pcbs t pid = None \<Longrightarrow> process_destroy pid t hs = (PROC_ERR_INVALID_PID, t, hs)"
    using proc_unresolved [OF t] by (simp add: process_destroy_def)
  assume "pcbs t pid = Some b"
  then obtain i where i: "proc_resolve pid t = Some i" "i < 16" "ps_live (g_procs t ! i)" "b = proc_view (g_procs t ! i)"
    "pid = handle_pack (of_nat i) (ps_generation (g_procs t ! i))"
    by (auto elim: proc_resolved [OF t])
  let ?s = "(g_procs t ! i)\<lparr> ps_live := False, ps_generation := gen_bump (ps_generation (g_procs t ! i)), ps_subject := 0, ps_aspace := NULL \<rparr>"
  have len: "length (g_procs t) = 16" using t by (simp add: procs_wf_def)
  have st: "process_destroy pid t hs = (PROC_OK, t\<lparr> g_procs := (g_procs t)[i := ?s] \<rparr>, snd (cap_handle_revoke_subject (pcb_subject b) hs))" for hs
    using i(1,4) by (simp add: process_destroy_def gen_bump_def Let_def proc_view_def)
  have "handle_map ps_live ps_generation proc_view ((g_procs t)[i := ?s]) =
      (pcbs t)(handle_pack (of_nat i) (ps_generation (g_procs t ! i)) := None)"
    by (rule handle_map_kill) (use i(2,3) len in auto)
  then show "\<exists>t'. (\<forall>hs. process_destroy pid t hs = (PROC_OK, t', snd (cap_handle_revoke_subject (pcb_subject b) hs))) \<and>
      procs_wf t' \<and> pcbs t' = (pcbs t)(pid := None)"
    using procs_wf_set [OF t, of ?s i] i(5) unfolding st by simp
qed

subsection \<open>Process ids do not come back\<close>

datatype proc_op =
    PT_Create cap_subject_id_t pointer
  | PT_Destroy process_id_t
  | PT_Set_State process_id_t process_state_t
  | PT_Set_Entry process_id_t pointer
  | PT_Set_Exit_Code process_id_t u32
  | PT_Set_Blocked_On process_id_t "nat option"
  | PT_Reset

fun proc_step :: "proc_op \<Rightarrow> proc_table \<Rightarrow> proc_table" where
  "proc_step (PT_Create s a) t = snd (snd (snd (process_create s a True t)))"
| "proc_step (PT_Destroy h) t = fst (snd (process_destroy h t []))"
| "proc_step (PT_Set_State h st) t = snd (process_set_state h st t)"
| "proc_step (PT_Set_Entry h e) t = snd (process_set_entry h e t)"
| "proc_step (PT_Set_Exit_Code h c) t = snd (process_set_exit_code h c t)"
| "proc_step (PT_Set_Blocked_On h p) t = snd (process_set_blocked_on h p t)"
| "proc_step PT_Reset t = process_table_reset t"

lemmas proc_set_defs = process_set_state_def process_set_entry_def process_set_exit_code_def process_set_blocked_on_def

definition proc_evolves :: "proc_table \<Rightarrow> proc_table \<Rightarrow> bool" where
  "proc_evolves t t' \<longleftrightarrow> procs_wf t' \<and>
    (\<forall>i<16. (ps_generation (g_procs t' ! i) = ps_generation (g_procs t ! i) \<or>
             ps_generation (g_procs t' ! i) = gen_bump (ps_generation (g_procs t ! i))) \<and>
       (ps_live (g_procs t ! i) \<longrightarrow> ps_generation (g_procs t' ! i) = ps_generation (g_procs t ! i) \<longrightarrow> ps_live (g_procs t' ! i)))"

lemma proc_evolves_refl: "procs_wf t \<Longrightarrow> proc_evolves t t"
  by (simp add: proc_evolves_def)

lemma proc_evolves_set:
  assumes t: "procs_wf t" and k: "k < 16"
    and s: "ps_live s \<and> ps_generation s = ps_generation (g_procs t ! k) \<or> ps_generation s = gen_bump (ps_generation (g_procs t ! k))"
  shows "proc_evolves t (t\<lparr> g_procs := (g_procs t)[k := s] \<rparr>)"
proof -
  have len: "length (g_procs t) = 16" and g: "ps_generation (g_procs t ! k) \<noteq> 0" using t k by (simp_all add: procs_wf_def)
  have "gen_bump (ps_generation (g_procs t ! k)) \<noteq> ps_generation (g_procs t ! k)" using gen_bumps_neq [OF g, of 1] by simp
  moreover have "ps_generation s \<noteq> 0" using s g by auto
  then have "procs_wf (t\<lparr> g_procs := (g_procs t)[k := s] \<rparr>)" by (rule procs_wf_set [OF t])
  ultimately show ?thesis using s k len by (auto simp: proc_evolves_def nth_list_update)
qed

lemma proc_resolve_less: "procs_wf t \<Longrightarrow> proc_resolve h t = Some i \<Longrightarrow> i < 16 \<and> ps_live (g_procs t ! i)"
  by (auto simp: proc_resolve_eq handle_map_def dom_def Let_def procs_wf_def split: if_splits)

lemma proc_slot_set_evolves:
  assumes "procs_wf t" "\<And>s. ps_live (f s) = ps_live s" "\<And>s. ps_generation (f s) = ps_generation s"
  shows "proc_evolves t (snd (proc_slot_set h f t))"
  using assms proc_evolves_refl [OF assms(1)] proc_resolve_less [OF assms(1), of h]
  by (auto simp: proc_slot_set_def intro!: proc_evolves_set split: option.split)

lemma proc_reset_evolves: "procs_wf t \<Longrightarrow> proc_evolves t (process_table_reset t)"
proof -
  assume t: "procs_wf t"
  have "ps_generation (proc_reset_slot True s) = gen_bump (ps_generation s)" for s
    by (simp add: proc_reset_slot_def gen_bump_def Let_def)
  moreover have "gen_bump g \<noteq> g" if "g \<noteq> 0" for g using gen_bumps_neq [OF that, of 1] by simp
  ultimately show ?thesis using t by (auto simp: proc_evolves_def procs_wf_def process_table_reset_def)
qed

lemma proc_step_evolves: "procs_wf t \<Longrightarrow> proc_evolves t (proc_step op t)"
proof (cases op)
  case (PT_Create s a)
  assume t: "procs_wf t"
  show ?thesis
  proof (cases "find_idx (\<lambda>s. \<not> ps_live s) (g_procs t)")
    case None
    then show ?thesis using t proc_evolves_refl [OF t] PT_Create by (simp add: process_create_def Let_def procs_wf_def)
  next
    case (Some i)
    then have "i < 16" using find_idx_SomeD [OF Some] t by (simp add: procs_wf_def)
    then show ?thesis
      using t PT_Create Some proc_evolves_set [OF t, of i]
      by (simp add: process_create_def Let_def procs_wf_def [THEN iffD1, THEN conjunct1])
  qed
next
  case (PT_Destroy h)
  assume t: "procs_wf t"
  then show ?thesis
    using PT_Destroy proc_evolves_refl [OF t] proc_resolve_less [OF t, of h]
    by (auto simp: process_destroy_def Let_def gen_bump_def intro!: proc_evolves_set split: option.split)
qed (auto simp: proc_set_defs intro!: proc_slot_set_evolves proc_reset_evolves)

interpretation procs: slot_table g_procs ps_live ps_generation proc_view procs_wf proc_step
proof
  fix t op i assume t: "procs_wf t"
  note e = proc_step_evolves [OF t, of op]
  show "procs_wf (proc_step op t)" using e by (simp add: proc_evolves_def)
  then show "length (g_procs (proc_step op t)) = length (g_procs t)" using t by (simp add: procs_wf_def)
  assume i: "i < length (g_procs t)"
  then have i': "i < 16" using t by (simp add: procs_wf_def)
  show "ps_generation (g_procs t ! i) \<noteq> 0" using t i' by (simp add: procs_wf_def)
  show "ps_generation (g_procs (proc_step op t) ! i) = ps_generation (g_procs t ! i) \<or>
      ps_generation (g_procs (proc_step op t) ! i) = gen_bump (ps_generation (g_procs t ! i))"
    using e i' by (simp add: proc_evolves_def)
  assume "ps_live (g_procs t ! i)" "ps_generation (g_procs (proc_step op t) ! i) = ps_generation (g_procs t ! i)"
  then show "ps_live (g_procs (proc_step op t) ! i)" using e i' by (simp add: proc_evolves_def)
qed

lemma procs_init_wf: "procs_wf (process_table_init proc_table_boot)"
  by (simp add: procs_wf_def process_table_init_def process_table_reset_def proc_table_boot_def proc_reset_slot_def
      proc_slot_zero_def)

section \<open>Properties\<close>

text \<open>
  C26: Life and death of a process.  Creating a process fails only with 16 live processes, with a
  deny line on the console, and otherwise binds the given subject and address space to a fresh
  non-zero id and changes nothing else.  Destroying it removes exactly this id, which is then refused
  for the next 65533 table operations, and revokes exactly the capability handles that its subject
  owned; a stale id destroys nothing and revokes nothing.
\<close>

theorem process_lifecycle:
  assumes t: "procs_wf t" and hs: "cap_handle_wf hs"
  shows "(\<exists>r pid out t'. process_create s a True t = (r, pid, out, t') \<and>
      (if card (dom (pcbs t)) = 16 then r = PROC_ERR_TABLE_FULL \<and> out = proc_table_full_marker s \<and> t' = t
       else r = PROC_OK \<and> out = None \<and> (\<exists>new. pid = Some new \<and> new \<noteq> PID_INVALID \<and> new \<notin> dom (pcbs t) \<and>
         procs_wf t' \<and> pcbs t' = (pcbs t)(new \<mapsto> \<lparr> pcb_subject = s, pcb_aspace = a, pcb_state = PROC_STATE_NEW,
           pcb_entry = NULL, pcb_exit_code = 0, pcb_blocked_on = None \<rparr>)))) \<and>
    (\<exists>r t' hs'. process_destroy p t hs = (r, t', hs') \<and> procs_wf t' \<and>
      (case pcbs t p of
         None \<Rightarrow> r = PROC_ERR_INVALID_PID \<and> t' = t \<and> hs' = hs
       | Some b \<Rightarrow> r = PROC_OK \<and> pcbs t' = (pcbs t)(p := None) \<and>
          (\<forall>h. handle_row h hs' = (case handle_row h hs of None \<Rightarrow> None
             | Some i \<Rightarrow> if row_owner_subject (hs ! i) = pcb_subject b then None else Some i)) \<and>
          (\<forall>ops. length ops \<le> 65533 \<longrightarrow> p \<notin> dom (pcbs (fold proc_step ops t')))))"
proof (intro conjI)
  show "\<exists>r pid out t'. process_create s a True t = (r, pid, out, t') \<and>
      (if card (dom (pcbs t)) = 16 then r = PROC_ERR_TABLE_FULL \<and> out = proc_table_full_marker s \<and> t' = t
       else r = PROC_OK \<and> out = None \<and> (\<exists>new. pid = Some new \<and> new \<noteq> PID_INVALID \<and> new \<notin> dom (pcbs t) \<and>
         procs_wf t' \<and> pcbs t' = (pcbs t)(new \<mapsto> \<lparr> pcb_subject = s, pcb_aspace = a, pcb_state = PROC_STATE_NEW,
           pcb_entry = NULL, pcb_exit_code = 0, pcb_blocked_on = None \<rparr>)))"
    using create_proc_effect [OF t, of s a] by (cases "card (dom (pcbs t)) = 16") auto
  show "\<exists>r t' hs'. process_destroy p t hs = (r, t', hs') \<and> procs_wf t' \<and>
      (case pcbs t p of
         None \<Rightarrow> r = PROC_ERR_INVALID_PID \<and> t' = t \<and> hs' = hs
       | Some b \<Rightarrow> r = PROC_OK \<and> pcbs t' = (pcbs t)(p := None) \<and>
          (\<forall>h. handle_row h hs' = (case handle_row h hs of None \<Rightarrow> None
             | Some i \<Rightarrow> if row_owner_subject (hs ! i) = pcb_subject b then None else Some i)) \<and>
          (\<forall>ops. length ops \<le> 65533 \<longrightarrow> p \<notin> dom (pcbs (fold proc_step ops t'))))"
  proof (cases "pcbs t p")
    case None
    then show ?thesis using destroy_proc_effect(1) [OF t None] t by simp
  next
    case (Some b)
    let ?hs = "snd (cap_handle_revoke_subject (pcb_subject b) hs)"
    obtain t' where t': "\<forall>x. process_destroy p t x = (PROC_OK, t', snd (cap_handle_revoke_subject (pcb_subject b) x))"
      "procs_wf t'" "pcbs t' = (pcbs t)(p := None)"
      using destroy_proc_effect(2) [OF t Some] by blast
    have step: "proc_step (PT_Destroy p) t = t'" using t'(1) by simp
    have "handle_row h ?hs = (case handle_row h hs of None \<Rightarrow> None
        | Some i \<Rightarrow> if row_owner_subject (hs ! i) = pcb_subject b then None else Some i)" for h
    proof (cases "cap_handle_subject_valid (pcb_subject b)")
      case True
      then show ?thesis using revoke_subject_effect [OF hs True prod.collapse [symmetric], of h] by simp
    next
      case False
      then have "row_owner_subject (hs ! i) \<noteq> pcb_subject b" if "handle_row h hs = Some i" for i
        using that hs by (auto simp: handle_row_def cap_handle_wf_def split: if_splits)
      then show ?thesis using False by (simp add: cap_handle_revoke_subject_def split: option.split)
    qed
    moreover have "p \<notin> dom (pcbs (fold proc_step ops t'))" if "length ops \<le> 65533" for ops
      using procs.dead_stays_dead [OF t, of p "PT_Destroy p" ops] Some t'(3) that unfolding step by auto
    ultimately show ?thesis using t' Some by simp
  qed
qed

definition demo_procs :: proc_table where
  "demo_procs = proc_step (PT_Create 3 4096) (process_table_init proc_table_boot)"

lemma demo_procs_wf: "procs_wf demo_procs"
  unfolding demo_procs_def by (rule procs.step_wf [OF procs_init_wf])

theorem process_lifecycle_witness:
  "fst (process_destroy 0x10000 demo_procs (cap_handle_table_reset [])) = PROC_OK"
proof -
  have "pcbs demo_procs 0x10000 \<noteq> None" by code_simp
  then obtain b where b: "pcbs demo_procs 0x10000 = Some b" by blast
  note t = process_lifecycle [OF demo_procs_wf reset_wf [of "[]"], where p = "0x10000", THEN conjunct2]
  show ?thesis using t unfolding b by auto
qed

end
