(* ===== verification/Kernel_State.thy ===== *)
theory Kernel_State
  imports Cap_Gate Cap_Handle Ipc_Port Process_Table
begin

text \<open>
  The state that the cooperative scheduler of \<^verbatim>\<open>kernel/proc/proc_sched.c\<close> and the IPC operations of
  \<^verbatim>\<open>kernel/ipc/ipc_ops.c\<close> share, and the code a process runs.

  The code behind an entry function is not part of the kernel; it is the field \<open>k_code\<close>, an arbitrary
  program per entry pointer.  A program is a tree of kernel calls: what it does next may depend on the
  answers it got, and every path ends.  A coroutine context (\<^verbatim>\<open>ucontext_t\<close>) is a program that goes on, or
  a call suspended inside the kernel with the program that waits for its answer.  The answers of
  \<^verbatim>\<open>malloc\<close> and \<^verbatim>\<open>getcontext\<close> are fields of the environment.
\<close>

section \<open>Programs and contexts\<close>

text \<open>A message argument is its address with the bytes found there; a receive buffer is an address.\<close>

type_synonym msg_arg = "(u64 \<times> ipc_msg_v0) option"

datatype kcall =
    C_Send cap_subject_id_t ipc_port_t msg_arg
  | C_Recv cap_subject_id_t ipc_port_t "u64 option"
  | C_Call cap_subject_id_t ipc_port_t msg_arg ipc_port_t "u64 option"
  | C_Send_H cap_handle_t ipc_port_t msg_arg
  | C_Recv_H cap_handle_t ipc_port_t "u64 option"
  | C_Port_Create cap_subject_id_t capability_id_t capability_id_t
  | C_Port_Destroy ipc_port_t
  | C_Yield
  | C_Exit u32

datatype answer =
    R_Ipc ipc_result_t "ipc_msg_v0 option"  \<comment> \<open>result and what the receive buffer then holds, if written\<close>
  | R_Port ipc_result_t "ipc_port_t option"
  | R_Ok  \<comment> \<open>a scheduler call that came back\<close>
  | R_Not_Running

datatype prog = Return | Call kcall "answer \<Rightarrow> prog"

datatype susp =
    S_Stage ipc_port_t ipc_msg_v0  \<comment> \<open>in \<^verbatim>\<open>ipc_stage_blocking\<close>, from a send\<close>
  | S_Consume ipc_port_t  \<comment> \<open>in \<^verbatim>\<open>ipc_consume_blocking\<close>\<close>
  | S_Call_Stage ipc_port_t ipc_msg_v0 cap_subject_id_t ipc_port_t "u64 option"
      \<comment> \<open>in \<^verbatim>\<open>ipc_stage_blocking\<close>, from the send of an \<^verbatim>\<open>ipc_call\<close> that has its receive before it\<close>

datatype ctx = Run prog | Susp susp "answer \<Rightarrow> prog"

section \<open>State\<close>

record sched_entry_t =
  en_in_use :: bool
  en_pid :: process_id_t
  en_ctx :: ctx
  en_stack :: bool
  en_started :: bool

record sched =
  g_entries :: "sched_entry_t list"
  g_ready_ring :: "nat list"
  g_ready_head :: nat
  g_ready_count :: nat
  g_current_index :: "nat option"
  g_dispatching :: bool
  g_aspace_panic_hook :: bool

record kern =
  k_cap :: cap_state
  k_handles :: cap_handle_table
  k_ports :: ipc_ports
  k_procs :: proc_table
  k_aspaces :: "pointer \<Rightarrow> address_space_t"  \<comment> \<open>the structs that address-space pointers point to\<close>
  k_sched :: sched
  k_out :: "string list"  \<comment> \<open>lines written to the console\<close>
  k_hook_calls :: "(process_id_t \<times> string) list"  \<comment> \<open>calls of an installed panic hook\<close>
  k_code :: "pointer \<Rightarrow> prog"
  k_malloc_ok :: bool
  k_getcontext_ok :: bool

definition k_aspace :: "pointer \<Rightarrow> kern \<Rightarrow> address_space_t option" where
  \<comment> \<open>what an address-space pointer points to\<close>
  "k_aspace p k = (if p = NULL then None else Some (k_aspaces k p))"

definition k_print :: "string option \<Rightarrow> kern \<Rightarrow> kern" where
  "k_print line k = (case line of None \<Rightarrow> k | Some l \<Rightarrow> k\<lparr> k_out := k_out k @ [l] \<rparr>)"

definition sched_boot :: sched where
  \<comment> \<open>the static data of \<^verbatim>\<open>proc_sched.c\<close>\<close>
  "sched_boot = \<lparr>
     g_entries = replicate PROC_TABLE_MAX \<lparr> en_in_use = False, en_pid = PID_INVALID, en_ctx = Run Return, en_stack = False, en_started = False \<rparr>,
     g_ready_ring = replicate PROC_TABLE_MAX 0, g_ready_head = 0, g_ready_count = 0, g_current_index = None,
     g_dispatching = False, g_aspace_panic_hook = False \<rparr>"

definition kern_boot :: "(pointer \<Rightarrow> address_space_t) \<Rightarrow> (pointer \<Rightarrow> prog) \<Rightarrow> kern" where
  \<comment> \<open>the kernel with its tables initialised and nothing in them\<close>
  "kern_boot aspaces code = \<lparr>
     k_cap = cap_state_boot, k_handles = cap_handle_table_reset [], k_ports = ipc_port_table_init ipc_ports_boot,
     k_procs = process_table_init proc_table_boot, k_aspaces = aspaces, k_sched = sched_boot,
     k_out = [], k_hook_calls = [], k_code = code, k_malloc_ok = True, k_getcontext_ok = True \<rparr>"

end
