(* ===== verification/Proc_Sched.thy ===== *)
theory Proc_Sched
  imports Kernel_State
begin

text \<open>
  The scheduler calls of \<^verbatim>\<open>kernel/proc/proc_sched.c\<close> except its run loop, which needs the IPC operations
  and is in the theory of the run loop.  A call that switches to the scheduler ends with no current
  process; the caller's context is saved by whoever runs it.
\<close>

datatype proc_sched_result_t =
    PROC_SCHED_OK
  | PROC_SCHED_ERR_INVALID_PID
  | PROC_SCHED_ERR_INVALID_ARG
  | PROC_SCHED_ERR_NO_RUNNABLE
  | PROC_SCHED_ERR_DEADLOCK
  | PROC_SCHED_ERR_NOT_RUNNING
  | PROC_SCHED_ERR_NOT_BLOCKED

section \<open>Entries and the ready ring\<close>

definition k_entry :: "nat \<Rightarrow> kern \<Rightarrow> sched_entry_t" where
  "k_entry i k = g_entries (k_sched k) ! i"

definition set_sched :: "(sched \<Rightarrow> sched) \<Rightarrow> kern \<Rightarrow> kern" where
  "set_sched f k = k\<lparr> k_sched := f (k_sched k) \<rparr>"

definition set_entry :: "nat \<Rightarrow> (sched_entry_t \<Rightarrow> sched_entry_t) \<Rightarrow> kern \<Rightarrow> kern" where
  "set_entry i f = set_sched (\<lambda>s. s\<lparr> g_entries := (g_entries s)[i := f (g_entries s ! i)] \<rparr>)"

definition find_entry :: "process_id_t \<Rightarrow> kern \<Rightarrow> nat option" where
  "find_entry pid k = find_idx (\<lambda>e. en_in_use e \<and> en_pid e = pid) (g_entries (k_sched k))"

definition alloc_entry :: "process_id_t \<Rightarrow> kern \<Rightarrow> nat option \<times> kern" where
  "alloc_entry pid k =
    (case find_idx (\<lambda>e. \<not> en_in_use e) (g_entries (k_sched k)) of
       None \<Rightarrow> (None, k)
     | Some i \<Rightarrow>
        let k = set_entry i (\<lambda>e. e\<lparr> en_in_use := True, en_pid := pid, en_started := False, en_stack := k_malloc_ok k \<rparr>) k in
        if \<not> k_malloc_ok k then (None, set_entry i (\<lambda>e. e\<lparr> en_in_use := False \<rparr>) k) else (Some i, k))"

definition ready_push :: "nat \<Rightarrow> kern \<Rightarrow> kern" where
  "ready_push entry_index = set_sched (\<lambda>s.
     let tail = (g_ready_head s + g_ready_count s) mod PROC_TABLE_MAX
     in s\<lparr> g_ready_ring := (g_ready_ring s)[tail := entry_index], g_ready_count := g_ready_count s + 1 \<rparr>)"

definition ready_pop :: "kern \<Rightarrow> nat option \<times> kern" where
  "ready_pop k =
    (let s = k_sched k in
     if g_ready_count s = 0 then (None, k)
     else (Some (g_ready_ring s ! g_ready_head s),
           set_sched (\<lambda>s. s\<lparr> g_ready_head := (g_ready_head s + 1) mod PROC_TABLE_MAX, g_ready_count := g_ready_count s - 1 \<rparr>) k))"

definition ready_list :: "sched \<Rightarrow> nat list" where
  "ready_list s = map (\<lambda>i. g_ready_ring s ! ((g_ready_head s + i) mod PROC_TABLE_MAX)) [0..<g_ready_count s]"

definition ready_drop :: "nat \<Rightarrow> kern \<Rightarrow> kern" where
  "ready_drop entry_index = set_sched (\<lambda>s.
     let tmp = filter (\<lambda>v. v \<noteq> entry_index) (ready_list s); kept = length tmp
     in s\<lparr> g_ready_ring := tmp @ drop kept (g_ready_ring s), g_ready_head := 0, g_ready_count := kept \<rparr>)"

section \<open>Address-space panics\<close>

definition aspace_invariant_reason :: "address_space_t option \<Rightarrow> string" where
  "aspace_invariant_reason as =
    (case as of
       None \<Rightarrow> ''null_aspace''
     | Some a \<Rightarrow>
        if as_size a = 0 then ''zero_size''
        else if as_size a > UINTPTR_MAX - as_base a then ''window_overflow''
        else let limit = as_base a + as_size a in
          if as_stack_top a \<le> as_base a then ''stack_top_at_or_below_base''
          else if as_stack_top a > limit then ''stack_top_escapes_window''
          else ''ipc_scratch_escapes_window'')"

definition aspace_invariant_panic :: "process_id_t \<Rightarrow> address_space_t option \<Rightarrow> kern \<Rightarrow> bool \<times> kern" where
  \<comment> \<open>the flag says that the kernel aborts\<close>
  "aspace_invariant_panic pid as k =
    (let reason = aspace_invariant_reason as in
     if g_aspace_panic_hook (k_sched k) then (False, k\<lparr> k_hook_calls := k_hook_calls k @ [(pid, reason)] \<rparr>)
     else (True, k_print (Some (''PANIC:proc_sched:aspace_invariant:'' @ dec_string (unat pid) @ '':'' @ reason)) k))"

definition proc_sched_set_panic_hook_for_tests :: "bool \<Rightarrow> kern \<Rightarrow> bool \<times> kern" where
  "proc_sched_set_panic_hook_for_tests hook k =
    (g_aspace_panic_hook (k_sched k), set_sched (\<lambda>s. s\<lparr> g_aspace_panic_hook := hook \<rparr>) k)"

section \<open>Calls\<close>

definition proc_sched_reset :: "kern \<Rightarrow> kern" where
  "proc_sched_reset = set_sched (\<lambda>s. s\<lparr>
     g_entries := map (\<lambda>e. \<lparr> en_in_use = False, en_pid = PID_INVALID, en_ctx = Run Return, en_stack = False, en_started = False \<rparr>) (g_entries s),
     g_ready_head := 0, g_ready_count := 0, g_current_index := None, g_dispatching := False \<rparr>)"

definition k_set_state :: "process_id_t \<Rightarrow> process_state_t \<Rightarrow> kern \<Rightarrow> kern" where
  "k_set_state pid st k = k\<lparr> k_procs := snd (process_set_state pid st (k_procs k)) \<rparr>"

definition k_set_exit_code :: "process_id_t \<Rightarrow> u32 \<Rightarrow> kern \<Rightarrow> kern" where
  "k_set_exit_code pid code k = k\<lparr> k_procs := snd (process_set_exit_code pid code (k_procs k)) \<rparr>"

definition k_set_blocked_on :: "process_id_t \<Rightarrow> nat option \<Rightarrow> kern \<Rightarrow> kern" where
  "k_set_blocked_on pid port k = k\<lparr> k_procs := snd (process_set_blocked_on pid port (k_procs k)) \<rparr>"

definition proc_sched_register :: "process_id_t \<Rightarrow> pointer \<Rightarrow> kern \<Rightarrow> proc_sched_result_t \<times> kern" where
  "proc_sched_register pid entry k =
    (if entry = NULL then (PROC_SCHED_ERR_INVALID_ARG, k)
     else if \<not> process_is_live_for_tests pid (k_procs k) then (PROC_SCHED_ERR_INVALID_PID, k)
     else if find_entry pid k \<noteq> None then (PROC_SCHED_ERR_INVALID_PID, k)
     else case alloc_entry pid k of
       (None, k) \<Rightarrow> (PROC_SCHED_ERR_INVALID_ARG, k)
     | (Some idx, k) \<Rightarrow>
        (case process_set_entry pid entry (k_procs k) of
           (PROC_OK, t) \<Rightarrow>
             (PROC_SCHED_OK, ready_push idx (k_set_state pid PROC_STATE_READY (k\<lparr> k_procs := t \<rparr>)))
         | (_, t) \<Rightarrow>
             (PROC_SCHED_ERR_INVALID_PID,
              set_entry idx (\<lambda>e. e\<lparr> en_in_use := False, en_stack := False \<rparr>) (k\<lparr> k_procs := t \<rparr>))))"

definition switch_to_scheduler :: "kern \<Rightarrow> kern" where
  "switch_to_scheduler = set_sched (\<lambda>s. s\<lparr> g_current_index := None \<rparr>)"

definition proc_yield :: "kern \<Rightarrow> proc_sched_result_t \<times> kern" where
  "proc_yield k =
    (case g_current_index (k_sched k) of
       None \<Rightarrow> (PROC_SCHED_ERR_NOT_RUNNING, k)
     | Some i \<Rightarrow> (PROC_SCHED_OK, switch_to_scheduler (ready_push i (k_set_state (en_pid (k_entry i k)) PROC_STATE_READY k))))"

definition proc_exit :: "u32 \<Rightarrow> kern \<Rightarrow> proc_sched_result_t \<times> kern" where
  "proc_exit code k =
    (case g_current_index (k_sched k) of
       None \<Rightarrow> (PROC_SCHED_ERR_NOT_RUNNING, k)
     | Some i \<Rightarrow>
        let pid = en_pid (k_entry i k);
            k = k_set_exit_code pid code k;
            k = k_set_state pid PROC_STATE_EXITED k;
            k = ready_drop i k
        in (PROC_SCHED_OK, switch_to_scheduler k))"

definition proc_sched_block_current_on_port :: "nat option \<Rightarrow> kern \<Rightarrow> proc_sched_result_t \<times> kern" where
  "proc_sched_block_current_on_port port k =
    (if port = None then (PROC_SCHED_ERR_INVALID_ARG, k)
     else case g_current_index (k_sched k) of
       None \<Rightarrow> (PROC_SCHED_ERR_NOT_RUNNING, k)
     | Some i \<Rightarrow>
        let pid = en_pid (k_entry i k);
            k = k_set_blocked_on pid port k;
            k = k_set_state pid PROC_STATE_BLOCKED k
        in (PROC_SCHED_OK, switch_to_scheduler k))"

definition proc_snap :: "process_id_t \<Rightarrow> kern \<Rightarrow> process_t option" where
  \<comment> \<open>\<^verbatim>\<open>process_lookup(pid, &snap)\<close>; \<open>None\<close> when it does not return \<^verbatim>\<open>PROC_OK\<close>\<close>
  "proc_snap pid k = snd (process_lookup pid True (k_procs k))"

definition blocked_on :: "nat \<Rightarrow> kern \<Rightarrow> sched_entry_t \<Rightarrow> bool" where
  "blocked_on port k e \<longleftrightarrow> en_in_use e \<and>
     (case proc_snap (en_pid e) k of None \<Rightarrow> False
      | Some snap \<Rightarrow> pr_state snap = PROC_STATE_BLOCKED \<and> pr_blocked_on_port snap = Some port)"

definition proc_sched_wake_one_on_port :: "nat option \<Rightarrow> kern \<Rightarrow> proc_sched_result_t \<times> kern" where
  "proc_sched_wake_one_on_port port k =
    (case port of
       None \<Rightarrow> (PROC_SCHED_ERR_INVALID_ARG, k)
     | Some p \<Rightarrow>
        (case find_idx (blocked_on p k) (g_entries (k_sched k)) of
           None \<Rightarrow> (PROC_SCHED_ERR_NOT_BLOCKED, k)
         | Some i \<Rightarrow>
            let pid = en_pid (k_entry i k);
                k = k_set_blocked_on pid None k;
                k = k_set_state pid PROC_STATE_READY k
            in (PROC_SCHED_OK, ready_push i k)))"

definition count_entries :: "(process_t \<Rightarrow> bool) \<Rightarrow> kern \<Rightarrow> nat" where
  \<comment> \<open>the loop that \<^verbatim>\<open>count_blocked\<close> and \<^verbatim>\<open>count_live\<close> share\<close>
  "count_entries P k = length (filter (\<lambda>e. en_in_use e \<and>
     (case proc_snap (en_pid e) k of None \<Rightarrow> False | Some snap \<Rightarrow> P snap)) (g_entries (k_sched k)))"

definition count_blocked :: "kern \<Rightarrow> nat" where
  "count_blocked k = count_entries (\<lambda>snap. pr_state snap = PROC_STATE_BLOCKED) k"

definition count_live :: "kern \<Rightarrow> nat" where
  "count_live k = count_entries (\<lambda>snap. pr_state snap \<noteq> PROC_STATE_EXITED) k"

definition proc_sched_current_for_tests :: "kern \<Rightarrow> process_id_t" where
  "proc_sched_current_for_tests k =
    (case g_current_index (k_sched k) of None \<Rightarrow> PID_INVALID | Some i \<Rightarrow> en_pid (k_entry i k))"

definition proc_sched_ready_count_for_tests :: "kern \<Rightarrow> nat" where
  "proc_sched_ready_count_for_tests k = g_ready_count (k_sched k)"

definition proc_sched_blocked_count_for_tests :: "kern \<Rightarrow> nat" where
  "proc_sched_blocked_count_for_tests k = count_blocked k"

definition proc_sched_is_active :: "kern \<Rightarrow> bool" where
  "proc_sched_is_active k \<longleftrightarrow> g_dispatching (k_sched k) \<and> g_current_index (k_sched k) \<noteq> None"

section \<open>Abstract scheduler\<close>

text \<open>
  What a client sees of the scheduler: the queue of ready entries, the running entry, and the control
  block of each registered entry whose process is still live.  The rules say what the calls and the
  dispatch loop may do to it.
\<close>

type_synonym sched_view = "nat list \<times> nat option \<times> (nat \<rightharpoonup> pcb)"

inductive sched_step :: "sched_view \<Rightarrow> sched_view \<Rightarrow> bool" where
  Skip: "(\<forall>b. m i = Some b \<longrightarrow> pcb_state b = PROC_STATE_EXITED) \<Longrightarrow> sched_step (i # q, None, m) (q, None, m)"
| Kill: "m i = Some b \<Longrightarrow>
    sched_step (i # q, None, m) (filter (\<lambda>j. j \<noteq> i) q, None, m(i \<mapsto> b\<lparr> pcb_exit_code := code, pcb_state := PROC_STATE_EXITED \<rparr>))"
| Dispatch: "m i = Some b \<Longrightarrow> pcb_state b \<noteq> PROC_STATE_EXITED \<Longrightarrow>
    sched_step (i # q, None, m) (q, Some i, m(i \<mapsto> b\<lparr> pcb_state := PROC_STATE_RUNNING \<rparr>))"
| Fail: "m i = Some b \<Longrightarrow> sched_step (q, Some i, m) (q, None, m(i \<mapsto> b\<lparr> pcb_state := PROC_STATE_EXITED \<rparr>))"
| Yield: "m i = Some b \<Longrightarrow> sched_step (q, Some i, m) (q @ [i], None, m(i \<mapsto> b\<lparr> pcb_state := PROC_STATE_READY \<rparr>))"
| Exit: "m i = Some b \<Longrightarrow> sched_step (q, Some i, m)
    (filter (\<lambda>j. j \<noteq> i) q, None, m(i \<mapsto> b\<lparr> pcb_exit_code := code, pcb_state := PROC_STATE_EXITED \<rparr>))"
| Block: "m i = Some b \<Longrightarrow>
    sched_step (q, Some i, m) (q, None, m(i \<mapsto> b\<lparr> pcb_blocked_on := Some port, pcb_state := PROC_STATE_BLOCKED \<rparr>))"
| Wake: "m j = Some b \<Longrightarrow> pcb_state b = PROC_STATE_BLOCKED \<Longrightarrow> pcb_blocked_on b = Some port \<Longrightarrow>
    (\<forall>i<j. \<forall>b. m i = Some b \<longrightarrow> \<not> (pcb_state b = PROC_STATE_BLOCKED \<and> pcb_blocked_on b = Some port)) \<Longrightarrow>
    sched_step (q, c, m) (q @ [j], c, m(j \<mapsto> b\<lparr> pcb_blocked_on := None, pcb_state := PROC_STATE_READY \<rparr>))"
| Register: "m i = Some b \<Longrightarrow> pcb_state b = PROC_STATE_READY \<Longrightarrow> i \<notin> set q \<Longrightarrow> c \<noteq> Some i \<Longrightarrow> i < PROC_TABLE_MAX \<Longrightarrow>
    sched_step (q, c, m(i := None)) (q @ [i], c, m)"

inductive_cases sched_stepE: "sched_step (q, c, m) (q', c', m')"

abbreviation sched_steps :: "sched_view \<Rightarrow> sched_view \<Rightarrow> bool" where "sched_steps \<equiv> sched_step\<^sup>*\<^sup>*"

text \<open>
  The invariant: the queue holds no entry twice, only live entries that are READY, and all of them;
  the running entry is the one in state RUNNING; a BLOCKED process waits for a port.
\<close>

definition fits :: "nat list \<Rightarrow> nat option \<Rightarrow> nat \<Rightarrow> pcb \<Rightarrow> bool" where
  "fits q c i b =
    (case pcb_state b of
       PROC_STATE_NEW \<Rightarrow> False
     | PROC_STATE_READY \<Rightarrow> i \<in> set q
     | PROC_STATE_RUNNING \<Rightarrow> c = Some i
     | PROC_STATE_BLOCKED \<Rightarrow> pcb_blocked_on b \<noteq> None
     | PROC_STATE_EXITED \<Rightarrow> True)"

definition view_ok :: "sched_view \<Rightarrow> bool" where
  "view_ok v = (case v of (q, c, m) \<Rightarrow>
     distinct q \<and>
     (\<forall>i\<in>set q. i < PROC_TABLE_MAX \<and> (\<forall>b. m i = Some b \<longrightarrow> pcb_state b = PROC_STATE_READY)) \<and>
     (\<forall>i b. m i = Some b \<longrightarrow> i < PROC_TABLE_MAX \<and> fits q c i b) \<and>
     (\<forall>i. c = Some i \<longrightarrow> (\<exists>b. m i = Some b \<and> pcb_state b = PROC_STATE_RUNNING)))"

lemma fits_weaken:
  assumes "fits q c i b" "pcb_state b = PROC_STATE_READY \<Longrightarrow> i \<in> set q \<Longrightarrow> i \<in> set q'"
    "pcb_state b = PROC_STATE_RUNNING \<Longrightarrow> c = Some i \<Longrightarrow> c' = Some i"
  shows "fits q' c' i b"
  using assms by (simp add: fits_def split: process_state_t.splits)

lemma view_ok_update:
  assumes "view_ok (q, c, m)"
    and "distinct q'" "\<And>j. j \<in> set q' \<Longrightarrow> j \<noteq> i \<Longrightarrow> j \<in> set q" "\<And>j. j \<in> set q \<Longrightarrow> j \<noteq> i \<Longrightarrow> j \<in> set q'"
    and "i < PROC_TABLE_MAX" "i \<in> set q' \<Longrightarrow> pcb_state b = PROC_STATE_READY" "fits q' c' i b"
    and "\<And>j. c = Some j \<Longrightarrow> j \<noteq> i \<Longrightarrow> c' = Some j" "\<And>j. c' = Some j \<Longrightarrow> j \<noteq> i \<Longrightarrow> c = Some j"
    and "c' = Some i \<Longrightarrow> pcb_state b = PROC_STATE_RUNNING"
  shows "view_ok (q', c', m(i \<mapsto> b))"
proof -
  have f: "fits q' c' j bj" if "m j = Some bj" "j \<noteq> i" for j bj
  proof (rule fits_weaken)
    show "fits q c j bj" using assms(1) that(1) by (simp add: view_ok_def)
  qed (use assms(4,8) that(2) in blast)+
  show ?thesis
    unfolding view_ok_def prod.case
  proof (intro conjI ballI allI impI)
    fix j assume j: "j \<in> set q'"
    show "j < PROC_TABLE_MAX" using assms(1,3,5) j by (cases "j = i") (auto simp: view_ok_def)
    fix bj assume "(m(i \<mapsto> b)) j = Some bj"
    then show "pcb_state bj = PROC_STATE_READY"
      using assms(1,3,6) j by (cases "j = i") (auto simp: view_ok_def)
  next
    fix j bj assume j: "(m(i \<mapsto> b)) j = Some bj"
    show "j < PROC_TABLE_MAX" using assms(1,5) j by (cases "j = i") (auto simp: view_ok_def)
    show "fits q' c' j bj" using assms(7) f j by (cases "j = i") auto
  next
    fix j assume "c' = Some j"
    then show "\<exists>bj. (m(i \<mapsto> b)) j = Some bj \<and> pcb_state bj = PROC_STATE_RUNNING"
      using assms(1,9,10) by (cases "j = i") (auto simp: view_ok_def)
  qed (fact assms)
qed

lemma view_ok_facts:
  assumes "view_ok (q, c, m)"
  shows "distinct q" "i \<in> set q \<Longrightarrow> m i = Some b \<Longrightarrow> pcb_state b = PROC_STATE_READY" "i \<in> set q \<Longrightarrow> i < PROC_TABLE_MAX"
    "m i = Some b \<Longrightarrow> i < PROC_TABLE_MAX" "m i = Some b \<Longrightarrow> fits q c i b"
    "c = Some i \<Longrightarrow> m i = Some b \<Longrightarrow> pcb_state b = PROC_STATE_RUNNING"
  using assms by (auto simp: view_ok_def)

lemma sched_step_ok:
  assumes "sched_step v v'" "view_ok v"
  shows "view_ok v'"
  using assms
proof (induction rule: sched_step.induct)
  case (Skip m i q)
  note f = view_ok_facts [OF Skip.prems]
  have "fits q None j b" if "m j = Some b" for j b
  proof (rule fits_weaken [OF f(5) [OF that]])
    assume "pcb_state b = PROC_STATE_READY" "j \<in> set (i # q)"
    then show "j \<in> set q" using Skip.hyps that by auto
  qed
  then show ?case using Skip.prems by (auto simp: view_ok_def)
next
  case (Register m i b q c)
  have "view_ok (q @ [i], c, (m(i := None))(i \<mapsto> b))"
    using Register.hyps view_ok_facts(1) [OF Register.prems]
    by (intro view_ok_update [OF Register.prems]) (auto simp: fits_def)
  moreover have "(m(i := None))(i \<mapsto> b) = m" using Register.hyps(1) by auto
  ultimately show ?case by simp
next
  case (Wake m j b port q c)
  have "j \<notin> set q" "c \<noteq> Some j" using view_ok_facts(2,6) [OF Wake.prems] Wake.hyps by fastforce+
  then show ?case using view_ok_facts(1,4) [OF Wake.prems] Wake.hyps
    by (intro view_ok_update [OF Wake.prems]) (auto simp: fits_def)
next
  case (Yield m i b q)
  have "i \<notin> set q" using view_ok_facts(2,6) [OF Yield.prems] Yield.hyps by fastforce
  then show ?case using view_ok_facts(1,4) [OF Yield.prems] Yield.hyps
    by (intro view_ok_update [OF Yield.prems]) (auto simp: fits_def)
next
  case (Fail m i b q)
  have "i \<notin> set q" using view_ok_facts(2,6) [OF Fail.prems] Fail.hyps by fastforce
  then show ?case using view_ok_facts(1,4) [OF Fail.prems] Fail.hyps
    by (intro view_ok_update [OF Fail.prems]) (auto simp: fits_def)
next
  case (Block m i b q port)
  have "i \<notin> set q" using view_ok_facts(2,6) [OF Block.prems] Block.hyps by fastforce
  then show ?case using view_ok_facts(1,4) [OF Block.prems] Block.hyps
    by (intro view_ok_update [OF Block.prems]) (auto simp: fits_def)
next
  case (Exit m i b q code)
  then show ?case using view_ok_facts(1,4) [OF Exit.prems]
    by (intro view_ok_update [OF Exit.prems]) (auto simp: fits_def)
next
  case (Kill m i b q code)
  then show ?case using view_ok_facts(1,4) [OF Kill.prems]
    by (intro view_ok_update [OF Kill.prems]) (auto simp: fits_def)
next
  case (Dispatch m i b q)
  then show ?case using view_ok_facts(1,4) [OF Dispatch.prems]
    by (intro view_ok_update [OF Dispatch.prems]) (auto simp: fits_def)
qed

lemma sched_steps_ok: "sched_steps v v' \<Longrightarrow> view_ok v \<Longrightarrow> view_ok v'"
  by (induction rule: rtranclp_induct) (auto intro: sched_step_ok)

section \<open>Refinement\<close>

subsection \<open>The ready ring is a queue\<close>

definition ring_shape :: "sched \<Rightarrow> bool" where
  "ring_shape s \<longleftrightarrow> length (g_ready_ring s) = PROC_TABLE_MAX \<and> g_ready_head s < PROC_TABLE_MAX"

lemma length_ready_list [simp]: "length (ready_list s) = g_ready_count s"
  by (simp add: ready_list_def)

lemma mod16_neq:
  assumes "i < c" "c < 16"
  shows "(h + i) mod 16 \<noteq> (h + c) mod (16::nat)"
proof
  assume "(h + i) mod 16 = (h + c) mod 16"
  then have "16 dvd (h + c) - (h + i)" using assms(1) mod_eq_dvd_iff_nat [of "h + i" "h + c" 16] by simp
  then have "16 dvd c - i" by simp
  then show False using assms nat_dvd_not_less [of "c - i" 16] by simp
qed

lemma ready_list_push:
  assumes "ring_shape s" "g_ready_count s < PROC_TABLE_MAX"
  shows "ready_list (s\<lparr> g_ready_ring := (g_ready_ring s)[(g_ready_head s + g_ready_count s) mod PROC_TABLE_MAX := i],
      g_ready_count := g_ready_count s + 1 \<rparr>) = ready_list s @ [i]"
proof -
  have "(g_ready_head s + g_ready_count s) mod 16 \<noteq> (g_ready_head s + x) mod 16" if "x < g_ready_count s" for x
    using mod16_neq [OF that assms(2)] by (rule not_sym)
  then show ?thesis using assms(1)
    by (auto simp: ready_list_def ring_shape_def nth_list_update intro!: nth_equalityI)
qed

lemma ready_list_pop:
  assumes "g_ready_count s > 0" "g_ready_head s < PROC_TABLE_MAX"
  shows "ready_list s = g_ready_ring s ! g_ready_head s #
    ready_list (s\<lparr> g_ready_head := (g_ready_head s + 1) mod PROC_TABLE_MAX, g_ready_count := g_ready_count s - 1 \<rparr>)"
proof -
  have "[0..<g_ready_count s] = 0 # map Suc [0..<g_ready_count s - 1]"
    using assms(1) by (simp add: upt_conv_Cons map_Suc_upt)
  then show ?thesis using assms(2) by (simp add: ready_list_def comp_def mod_simps)
qed

lemma ready_list_drop:
  assumes "length xs \<le> PROC_TABLE_MAX" "length (g_ready_ring s) = PROC_TABLE_MAX"
  shows "ready_list (s\<lparr> g_ready_ring := xs @ drop (length xs) (g_ready_ring s), g_ready_head := 0, g_ready_count := length xs \<rparr>) = xs"
  using assms by (auto simp: ready_list_def nth_append intro!: nth_equalityI)

subsection \<open>Views of the kernel state\<close>

definition pcb_of :: "kern \<Rightarrow> nat \<rightharpoonup> pcb" where
  "pcb_of k i = (if i < PROC_TABLE_MAX \<and> en_in_use (k_entry i k) then pcbs (k_procs k) (en_pid (k_entry i k)) else None)"

definition view :: "kern \<Rightarrow> sched_view" where
  "view k = (ready_list (k_sched k), g_current_index (k_sched k), pcb_of k)"

definition sched_shape :: "kern \<Rightarrow> bool" where
  "sched_shape k \<longleftrightarrow> procs_wf (k_procs k) \<and> ring_shape (k_sched k) \<and> length (g_entries (k_sched k)) = PROC_TABLE_MAX \<and>
     (\<forall>i<PROC_TABLE_MAX. \<forall>j<PROC_TABLE_MAX. en_in_use (k_entry i k) \<longrightarrow> en_in_use (k_entry j k) \<longrightarrow>
        en_pid (k_entry i k) = en_pid (k_entry j k) \<longrightarrow> i = j)"

lemma pcb_of_SomeD:
  "pcb_of k i = Some b \<Longrightarrow> i < PROC_TABLE_MAX \<and> en_in_use (k_entry i k) \<and> pcbs (k_procs k) (en_pid (k_entry i k)) = Some b"
  by (simp add: pcb_of_def split: if_splits)

lemma pcb_of_update:
  assumes k: "sched_shape k" and b: "pcb_of k i = Some b"
    and t: "pcbs t = (pcbs (k_procs k))(en_pid (k_entry i k) := map_option g (pcbs (k_procs k) (en_pid (k_entry i k))))"
  shows "pcb_of (k\<lparr> k_procs := t \<rparr>) = (pcb_of k)(i \<mapsto> g b)"
proof
  fix j
  show "pcb_of (k\<lparr> k_procs := t \<rparr>) j = ((pcb_of k)(i \<mapsto> g b)) j"
    using pcb_of_SomeD [OF b] k t by (cases "j = i") (auto simp: pcb_of_def k_entry_def sched_shape_def)
qed

lemma k_set_effect:
  assumes k: "sched_shape k" and b: "pcb_of k i = Some b"
  defines "pid \<equiv> en_pid (k_entry i k)"
  shows "sched_shape (k_set_state pid st k) \<and> pcb_of (k_set_state pid st k) = (pcb_of k)(i \<mapsto> b\<lparr> pcb_state := st \<rparr>)"
    and "sched_shape (k_set_exit_code pid code k) \<and> pcb_of (k_set_exit_code pid code k) = (pcb_of k)(i \<mapsto> b\<lparr> pcb_exit_code := code \<rparr>)"
    and "sched_shape (k_set_blocked_on pid port k) \<and> pcb_of (k_set_blocked_on pid port k) = (pcb_of k)(i \<mapsto> b\<lparr> pcb_blocked_on := port \<rparr>)"
proof -
  have p: "procs_wf (k_procs k)" using k by (simp add: sched_shape_def)
  have sh: "sched_shape (k\<lparr> k_procs := t \<rparr>)" if "procs_wf t" for t
    using k that by (simp add: sched_shape_def k_entry_def)
  note e = proc_slot_set_effect(2,3) [OF p]
  show "sched_shape (k_set_state pid st k) \<and> pcb_of (k_set_state pid st k) = (pcb_of k)(i \<mapsto> b\<lparr> pcb_state := st \<rparr>)"
    unfolding k_set_state_def process_set_state_def pid_def
    by (intro conjI sh pcb_of_update [OF k b] e [where g = "\<lambda>b. b\<lparr> pcb_state := st \<rparr>"]) (simp_all add: proc_view_def)
  show "sched_shape (k_set_exit_code pid code k) \<and> pcb_of (k_set_exit_code pid code k) = (pcb_of k)(i \<mapsto> b\<lparr> pcb_exit_code := code \<rparr>)"
    unfolding k_set_exit_code_def process_set_exit_code_def pid_def
    by (intro conjI sh pcb_of_update [OF k b] e [where g = "\<lambda>b. b\<lparr> pcb_exit_code := code \<rparr>"]) (simp_all add: proc_view_def)
  show "sched_shape (k_set_blocked_on pid port k) \<and> pcb_of (k_set_blocked_on pid port k) = (pcb_of k)(i \<mapsto> b\<lparr> pcb_blocked_on := port \<rparr>)"
    unfolding k_set_blocked_on_def process_set_blocked_on_def pid_def
    by (intro conjI sh pcb_of_update [OF k b] e [where g = "\<lambda>b. b\<lparr> pcb_blocked_on := port \<rparr>"]) (simp_all add: proc_view_def)
qed

lemma k_frames [simp]:
  "k_sched (set_sched f k) = f (k_sched k)" "k_procs (set_sched f k) = k_procs k" "k_ports (set_sched f k) = k_ports k"
  "k_sched (k_set_state pid st k) = k_sched k" "k_sched (k_set_exit_code pid code k) = k_sched k"
  "k_sched (k_set_blocked_on pid port k) = k_sched k"
  "k_entry i (k_set_state pid st k) = k_entry i k" "k_entry i (k_set_exit_code pid code k) = k_entry i k"
  "k_entry i (k_set_blocked_on pid port k) = k_entry i k"
  by (simp_all add: set_sched_def k_set_state_def k_set_exit_code_def k_set_blocked_on_def k_entry_def)

lemma set_sched_effect:
  assumes "sched_shape k" "ring_shape (f (k_sched k))" "g_entries (f (k_sched k)) = g_entries (k_sched k)"
  shows "sched_shape (set_sched f k)"
    and "view (set_sched f k) = (ready_list (f (k_sched k)), g_current_index (f (k_sched k)), pcb_of k)"
  using assms by (auto simp: sched_shape_def view_def k_entry_def pcb_of_def fun_eq_iff)

lemma ready_push_effect:
  assumes k: "sched_shape k" and q: "g_ready_count (k_sched k) < PROC_TABLE_MAX"
  shows "sched_shape (ready_push i k) \<and> view (ready_push i k) = (ready_list (k_sched k) @ [i], g_current_index (k_sched k), pcb_of k) \<and>
    g_entries (k_sched (ready_push i k)) = g_entries (k_sched k)"
proof -
  have r: "ring_shape (k_sched k)" using k by (simp add: sched_shape_def)
  let ?f = "\<lambda>s. s\<lparr> g_ready_ring := (g_ready_ring s)[(g_ready_head s + g_ready_count s) mod PROC_TABLE_MAX := i],
      g_ready_count := g_ready_count s + 1 \<rparr>"
  have p: "ready_push i k = set_sched ?f k" by (simp add: ready_push_def Let_def)
  have "ring_shape (?f (k_sched k))" using r by (simp add: ring_shape_def)
  then show ?thesis using set_sched_effect [of k ?f] k ready_list_push [OF r q, of i] unfolding p by simp
qed

lemma ready_drop_effect:
  assumes k: "sched_shape k" and q: "g_ready_count (k_sched k) \<le> PROC_TABLE_MAX"
  shows "sched_shape (ready_drop i k) \<and>
    view (ready_drop i k) = (filter (\<lambda>v. v \<noteq> i) (ready_list (k_sched k)), g_current_index (k_sched k), pcb_of k) \<and>
    g_entries (k_sched (ready_drop i k)) = g_entries (k_sched k)"
proof -
  let ?xs = "filter (\<lambda>v. v \<noteq> i) (ready_list (k_sched k))"
  have r: "ring_shape (k_sched k)" using k by (simp add: sched_shape_def)
  let ?f = "\<lambda>s. let tmp = filter (\<lambda>v. v \<noteq> i) (ready_list s); kept = length tmp
     in s\<lparr> g_ready_ring := tmp @ drop kept (g_ready_ring s), g_ready_head := 0, g_ready_count := kept \<rparr>"
  have xs: "length ?xs \<le> PROC_TABLE_MAX" using q by (metis length_filter_le length_ready_list le_trans)
  moreover have "ring_shape (?f (k_sched k))" using r xs by (simp add: ring_shape_def Let_def)
  ultimately show ?thesis
    using set_sched_effect [of k ?f] k ready_list_drop [of ?xs "k_sched k"] r
    unfolding ready_drop_def by (simp add: ring_shape_def Let_def)
qed

lemma set_current_effect:
  assumes "sched_shape k" "view k = (q, c, m)"
  shows "sched_shape (set_sched (\<lambda>s. s\<lparr> g_current_index := c' \<rparr>) k) \<and>
    view (set_sched (\<lambda>s. s\<lparr> g_current_index := c' \<rparr>) k) = (q, c', m) \<and>
    g_entries (k_sched (set_sched (\<lambda>s. s\<lparr> g_current_index := c' \<rparr>) k)) = g_entries (k_sched k)"
proof -
  let ?f = "\<lambda>s. s\<lparr> g_current_index := c' \<rparr>"
  have "ring_shape (?f (k_sched k))" using assms(1) by (simp add: sched_shape_def ring_shape_def)
  moreover have "ready_list (?f (k_sched k)) = q" "pcb_of k = m" using assms(2) by (simp_all add: view_def ready_list_def)
  ultimately show ?thesis using set_sched_effect [of k ?f] assms(1) by simp
qed

lemma queue_room:
  assumes "view_ok (q, c, m)"
  shows "length q \<le> PROC_TABLE_MAX" and "i \<notin> set q \<Longrightarrow> i < PROC_TABLE_MAX \<Longrightarrow> length q < PROC_TABLE_MAX"
proof -
  have d: "length q = card (set q)" using view_ok_facts(1) [OF assms] by (simp add: distinct_card)
  have s: "set q \<subseteq> {..<PROC_TABLE_MAX}" using view_ok_facts(3) [OF assms] by auto
  show "length q \<le> PROC_TABLE_MAX" using d card_mono [OF finite_lessThan s] by simp
  assume "i \<notin> set q" "i < PROC_TABLE_MAX"
  then have "set q \<subset> {..<PROC_TABLE_MAX}" using s by auto
  then show "length q < PROC_TABLE_MAX" using d psubset_card_mono [OF finite_lessThan] by (metis card_lessThan)
qed

subsection \<open>The calls are steps of the abstract scheduler\<close>

definition sched_ok :: "kern \<Rightarrow> bool" where
  "sched_ok k \<longleftrightarrow> sched_shape k \<and> view_ok (view k) \<and> (\<forall>i\<in>set (ready_list (k_sched k)). en_in_use (k_entry i k))"

lemma sched_step_queue: "sched_step (q, c, m) (q', c', m') \<Longrightarrow> set q' \<subseteq> set q \<union> dom m'"
  by (erule sched_stepE) auto

definition sched_moves :: "kern \<Rightarrow> kern \<Rightarrow> bool" where
  \<comment> \<open>the entry table stays, the rest makes steps of the abstract scheduler\<close>
  "sched_moves k k' \<longleftrightarrow> sched_ok k' \<and> sched_steps (view k) (view k') \<and> g_entries (k_sched k') = g_entries (k_sched k)"

lemma sched_moves_refl: "sched_ok k \<Longrightarrow> sched_moves k k"
  by (simp add: sched_moves_def)

lemma sched_moves_trans: "sched_moves k k' \<Longrightarrow> sched_moves k' k'' \<Longrightarrow> sched_moves k k''"
  by (auto simp: sched_moves_def)

lemma sched_moves_step:
  assumes "sched_ok k" "sched_shape k'" "g_entries (k_sched k') = g_entries (k_sched k)" "sched_step (view k) (view k')"
  shows "sched_moves k k'"
proof -
  have v: "sched_step (ready_list (k_sched k), g_current_index (k_sched k), pcb_of k)
      (ready_list (k_sched k'), g_current_index (k_sched k'), pcb_of k')"
    using assms(4) by (simp add: view_def)
  have "en_in_use (k_entry i k')" if i: "i \<in> set (ready_list (k_sched k'))" for i
  proof (cases "pcb_of k' i")
    case None
    then have "i \<in> set (ready_list (k_sched k))" using sched_step_queue [OF v] i by (auto simp: domIff)
    then show ?thesis using assms(1,3) by (simp add: sched_ok_def k_entry_def)
  next
    case (Some b)
    then show ?thesis by (simp add: pcb_of_def split: if_splits)
  qed
  then show ?thesis using assms sched_step_ok by (auto simp: sched_moves_def sched_ok_def)
qed

lemma current_pcb:
  assumes "sched_ok k" "g_current_index (k_sched k) = Some i"
  obtains b where "pcb_of k i = Some b" "pcb_state b = PROC_STATE_RUNNING" "i < PROC_TABLE_MAX" "i \<notin> set (ready_list (k_sched k))"
    "g_ready_count (k_sched k) < PROC_TABLE_MAX"
proof -
  have v: "view_ok (ready_list (k_sched k), Some i, pcb_of k)" using assms by (simp add: sched_ok_def view_def)
  then obtain b where b: "pcb_of k i = Some b" "pcb_state b = PROC_STATE_RUNNING" by (auto simp: view_ok_def)
  have i: "i < PROC_TABLE_MAX" "i \<notin> set (ready_list (k_sched k))"
    using view_ok_facts(2,4) [OF v] b by fastforce+
  show ?thesis using that [OF b i] queue_room(2) [OF v i(2,1)] by simp
qed

lemma view_running: "g_current_index (k_sched k) = Some i \<Longrightarrow> view k = (ready_list (k_sched k), Some i, pcb_of k)"
  by (simp add: view_def)

lemma proc_yield_moves:
  assumes k: "sched_ok k" and i: "g_current_index (k_sched k) = Some i"
  shows "\<exists>k'. proc_yield k = (PROC_SCHED_OK, k') \<and> sched_moves k k' \<and> g_current_index (k_sched k') = None"
proof -
  obtain b where b: "pcb_of k i = Some b" "g_ready_count (k_sched k) < PROC_TABLE_MAX" by (rule current_pcb [OF k i])
  let ?k1 = "k_set_state (en_pid (k_entry i k)) PROC_STATE_READY k"
  have s: "sched_shape k" using k by (simp add: sched_ok_def)
  note e1 = k_set_effect(1) [OF s b(1), of PROC_STATE_READY]
  have e2: "sched_shape (ready_push i ?k1) \<and>
      view (ready_push i ?k1) = (ready_list (k_sched k) @ [i], Some i, (pcb_of k)(i \<mapsto> b\<lparr> pcb_state := PROC_STATE_READY \<rparr>)) \<and>
      g_entries (k_sched (ready_push i ?k1)) = g_entries (k_sched k)"
    using ready_push_effect [of ?k1 i] e1 b(2) i by simp
  let ?k = "switch_to_scheduler (ready_push i ?k1)"
  have e3: "sched_shape ?k" "view ?k = (ready_list (k_sched k) @ [i], None, (pcb_of k)(i \<mapsto> b\<lparr> pcb_state := PROC_STATE_READY \<rparr>))"
    unfolding switch_to_scheduler_def using e2 set_current_effect by blast+
  have "sched_step (view k) (view ?k)" unfolding e3(2) view_running [OF i] by (rule sched_step.Yield [of "pcb_of k", OF b(1)])
  then have "sched_moves k ?k" by (intro sched_moves_step k e3(1)) (use e2 in \<open>simp_all add: switch_to_scheduler_def\<close>)
  then show ?thesis using i by (simp add: proc_yield_def switch_to_scheduler_def)
qed

lemma proc_exit_moves:
  assumes k: "sched_ok k" and i: "g_current_index (k_sched k) = Some i"
  shows "\<exists>k'. proc_exit code k = (PROC_SCHED_OK, k') \<and> sched_moves k k' \<and> g_current_index (k_sched k') = None \<and>
    g_ready_count (k_sched k') \<le> g_ready_count (k_sched k)"
proof -
  obtain b where b: "pcb_of k i = Some b" "g_ready_count (k_sched k) < PROC_TABLE_MAX" by (rule current_pcb [OF k i])
  let ?p = "en_pid (k_entry i k)" and ?b = "b\<lparr> pcb_exit_code := code, pcb_state := PROC_STATE_EXITED \<rparr>"
    and ?q = "filter (\<lambda>v. v \<noteq> i) (ready_list (k_sched k))"
  let ?k1 = "k_set_exit_code ?p code k"
  let ?k2 = "k_set_state ?p PROC_STATE_EXITED ?k1"
  let ?k = "switch_to_scheduler (ready_drop i ?k2)"
  have s: "sched_shape k" using k by (simp add: sched_ok_def)
  note e1 = k_set_effect(2) [OF s b(1), of code]
  then have "pcb_of ?k1 i = Some (b\<lparr> pcb_exit_code := code \<rparr>)" by simp
  then have e2: "sched_shape ?k2" "pcb_of ?k2 = (pcb_of k)(i \<mapsto> ?b)"
    using k_set_effect(1) [of ?k1 i "b\<lparr> pcb_exit_code := code \<rparr>" PROC_STATE_EXITED] e1 by simp_all
  have e3: "sched_shape (ready_drop i ?k2) \<and> view (ready_drop i ?k2) = (?q, Some i, (pcb_of k)(i \<mapsto> ?b)) \<and>
      g_entries (k_sched (ready_drop i ?k2)) = g_entries (k_sched k)"
    using ready_drop_effect [OF e2(1), of i] e2(2) b(2) i by simp
  then have e4: "sched_shape ?k" "view ?k = (?q, None, (pcb_of k)(i \<mapsto> ?b))" "g_entries (k_sched ?k) = g_entries (k_sched k)"
    unfolding switch_to_scheduler_def using set_current_effect by metis+
  have "sched_step (view k) (view ?k)" unfolding e4(2) view_running [OF i] by (rule sched_step.Exit [of "pcb_of k", OF b(1)])
  then have "sched_moves k ?k" by (intro sched_moves_step k e4)
  moreover have "length ?q \<le> g_ready_count (k_sched k)" using length_filter_le [of _ "ready_list (k_sched k)"] by simp
  then have "g_ready_count (k_sched ?k) \<le> g_ready_count (k_sched k)"
    using e4(2) unfolding view_def by (metis length_ready_list prod.inject)
  ultimately show ?thesis using i by (simp add: proc_exit_def switch_to_scheduler_def Let_def)
qed

lemma block_moves:
  assumes k: "sched_ok k" and i: "g_current_index (k_sched k) = Some i"
  shows "\<exists>k'. proc_sched_block_current_on_port (Some port) k = (PROC_SCHED_OK, k') \<and> sched_moves k k' \<and>
    g_current_index (k_sched k') = None \<and> g_ready_count (k_sched k') = g_ready_count (k_sched k)"
proof -
  obtain b where b: "pcb_of k i = Some b" by (rule current_pcb [OF k i])
  let ?p = "en_pid (k_entry i k)" and ?b = "b\<lparr> pcb_blocked_on := Some port, pcb_state := PROC_STATE_BLOCKED \<rparr>"
  let ?k1 = "k_set_blocked_on ?p (Some port) k"
  let ?k2 = "k_set_state ?p PROC_STATE_BLOCKED ?k1"
  let ?k = "switch_to_scheduler ?k2"
  have s: "sched_shape k" using k by (simp add: sched_ok_def)
  note e1 = k_set_effect(3) [OF s b, of "Some port"]
  then have "pcb_of ?k1 i = Some (b\<lparr> pcb_blocked_on := Some port \<rparr>)" by simp
  then have e2: "sched_shape ?k2" "pcb_of ?k2 = (pcb_of k)(i \<mapsto> ?b)"
    using k_set_effect(1) [of ?k1 i "b\<lparr> pcb_blocked_on := Some port \<rparr>" PROC_STATE_BLOCKED] e1 by simp_all
  then have "view ?k2 = (ready_list (k_sched k), Some i, (pcb_of k)(i \<mapsto> ?b))" using i by (simp add: view_def)
  from set_current_effect [OF e2(1) this, of None]
  have e4: "sched_shape ?k" "view ?k = (ready_list (k_sched k), None, (pcb_of k)(i \<mapsto> ?b))" "g_entries (k_sched ?k) = g_entries (k_sched k)"
    unfolding switch_to_scheduler_def by simp_all
  have "sched_step (view k) (view ?k)" unfolding e4(2) view_running [OF i] by (rule sched_step.Block [of "pcb_of k", OF b])
  then have "sched_moves k ?k" by (intro sched_moves_step k e4)
  then show ?thesis using i by (simp add: proc_sched_block_current_on_port_def switch_to_scheduler_def Let_def)
qed

lemma proc_snap_eq:
  assumes "procs_wf (k_procs k)"
  shows "proc_snap pid k = map_option (\<lambda>b. \<lparr> pr_pid = pid, pr_subject = pcb_subject b, pr_aspace = pcb_aspace b, pr_state = pcb_state b,
     pr_entry = pcb_entry b, pr_exit_code = pcb_exit_code b, pr_blocked_on_port = pcb_blocked_on b \<rparr>) (pcbs (k_procs k) pid)"
proof (cases "pcbs (k_procs k) pid")
  case None
  then show ?thesis using proc_unresolved [OF assms None] by (simp add: proc_snap_def process_lookup_def)
next
  case (Some b)
  then obtain i where "proc_resolve pid (k_procs k) = Some i" "b = proc_view (g_procs (k_procs k) ! i)"
    by (rule proc_resolved [OF assms])
  then show ?thesis using Some by (simp add: proc_snap_def process_lookup_def proc_view_def Let_def)
qed

lemma blocked_on_eq:
  assumes "sched_shape k" "i < PROC_TABLE_MAX"
  shows "blocked_on port k (g_entries (k_sched k) ! i) \<longleftrightarrow>
    (\<exists>b. pcb_of k i = Some b \<and> pcb_state b = PROC_STATE_BLOCKED \<and> pcb_blocked_on b = Some port)"
  using assms by (auto simp: blocked_on_def proc_snap_eq sched_shape_def pcb_of_def k_entry_def split: option.splits)

lemma wake_moves:
  assumes k: "sched_ok k"
  shows "sched_moves k (snd (proc_sched_wake_one_on_port (Some port) k)) \<and>
    g_current_index (k_sched (snd (proc_sched_wake_one_on_port (Some port) k))) = g_current_index (k_sched k)"
proof (cases "find_idx (blocked_on port k) (g_entries (k_sched k))")
  case None
  then show ?thesis using sched_moves_refl [OF k] by (simp add: proc_sched_wake_one_on_port_def)
next
  case (Some j)
  have s: "sched_shape k" and v: "view_ok (view k)" using k by (simp_all add: sched_ok_def)
  then have len: "length (g_entries (k_sched k)) = PROC_TABLE_MAX" by (simp add: sched_shape_def)
  note f = find_idx_SomeD [OF Some]
  have j: "j < PROC_TABLE_MAX" using f(1) len by simp
  obtain b where b: "pcb_of k j = Some b" "pcb_state b = PROC_STATE_BLOCKED" "pcb_blocked_on b = Some port"
    using f(2) blocked_on_eq [OF s j] by blast
  have first: "\<forall>i<j. \<forall>b. pcb_of k i = Some b \<longrightarrow> \<not> (pcb_state b = PROC_STATE_BLOCKED \<and> pcb_blocked_on b = Some port)"
    using f(3) blocked_on_eq [OF s] j by (meson less_trans)
  have v': "view_ok (ready_list (k_sched k), g_current_index (k_sched k), pcb_of k)" using v by (simp add: view_def)
  have "j \<notin> set (ready_list (k_sched k))" using view_ok_facts(2) [OF v'] b by fastforce
  then have room: "g_ready_count (k_sched k) < PROC_TABLE_MAX" using queue_room(2) [OF v' _ j] by simp
  let ?p = "en_pid (k_entry j k)" and ?b = "b\<lparr> pcb_blocked_on := None, pcb_state := PROC_STATE_READY \<rparr>"
  let ?k1 = "k_set_blocked_on ?p None k"
  let ?k2 = "k_set_state ?p PROC_STATE_READY ?k1"
  note e1 = k_set_effect(3) [OF s b(1), of None]
  then have "pcb_of ?k1 j = Some (b\<lparr> pcb_blocked_on := None \<rparr>)" by simp
  then have e2: "sched_shape ?k2" "pcb_of ?k2 = (pcb_of k)(j \<mapsto> ?b)"
    using k_set_effect(1) [of ?k1 j "b\<lparr> pcb_blocked_on := None \<rparr>" PROC_STATE_READY] e1 by simp_all
  have e3: "sched_shape (ready_push j ?k2) \<and>
      view (ready_push j ?k2) = (ready_list (k_sched k) @ [j], g_current_index (k_sched k), (pcb_of k)(j \<mapsto> ?b)) \<and>
      g_entries (k_sched (ready_push j ?k2)) = g_entries (k_sched k)"
    using ready_push_effect [OF e2(1), of j] e2(2) room by simp
  have "sched_step (view k) (view (ready_push j ?k2))"
    unfolding conjunct1 [OF conjunct2 [OF e3]] view_def [of k] by (rule sched_step.Wake [of "pcb_of k", OF b first])
  then have "sched_moves k (ready_push j ?k2)" by (intro sched_moves_step k) (use e3 in auto)
  moreover have "snd (proc_sched_wake_one_on_port (Some port) k) = ready_push j ?k2"
    using Some by (simp add: proc_sched_wake_one_on_port_def Let_def)
  moreover have "g_current_index (k_sched (ready_push j ?k2)) = g_current_index (k_sched k)" using e3 by (simp add: view_def)
  ultimately show ?thesis by simp
qed

subsection \<open>Registering\<close>

lemma sched_boot_ok: "procs_wf (k_procs k) \<Longrightarrow> k_sched k = sched_boot \<Longrightarrow> sched_ok k"
  by (auto simp: sched_ok_def sched_shape_def sched_boot_def ring_shape_def k_entry_def view_def ready_list_def pcb_of_def
      view_ok_def)

lemma alloc_entry_effect:
  assumes k: "sched_shape k" and e: "alloc_entry pid k = (Some idx, k')" and free: "find_entry pid k = None"
  shows "idx < PROC_TABLE_MAX" "\<not> en_in_use (k_entry idx k)" "sched_shape k'" "ready_list (k_sched k') = ready_list (k_sched k)"
    "g_current_index (k_sched k') = g_current_index (k_sched k)" "k_procs k' = k_procs k" "en_pid (k_entry idx k') = pid"
    "pcb_of k' = (pcb_of k)(idx := pcbs (k_procs k) pid)" "en_in_use (k_entry j k') \<longleftrightarrow> j = idx \<or> en_in_use (k_entry j k)"
proof -
  have len: "length (g_entries (k_sched k)) = PROC_TABLE_MAX" using k by (simp add: sched_shape_def)
  have f: "find_idx (\<lambda>e. \<not> en_in_use e) (g_entries (k_sched k)) = Some idx" and m: "k_malloc_ok k"
    and k': "k' = set_entry idx (\<lambda>e. e\<lparr> en_in_use := True, en_pid := pid, en_started := False, en_stack := True \<rparr>) k"
    using e by (auto simp: alloc_entry_def Let_def set_entry_def set_sched_def split: option.splits if_splits)
  show i: "idx < PROC_TABLE_MAX" and u: "\<not> en_in_use (k_entry idx k)"
    using find_idx_SomeD [OF f] len by (simp_all add: k_entry_def)
  have ent: "k_entry j k' = (if j = idx then (k_entry idx k)\<lparr> en_in_use := True, en_pid := pid, en_started := False, en_stack := True \<rparr>
      else k_entry j k)" for j
    using i len by (simp add: k' k_entry_def set_entry_def)
  have other: "en_in_use (k_entry j k) \<longrightarrow> en_pid (k_entry j k) \<noteq> pid" if "j < PROC_TABLE_MAX" for j
    using free that len by (auto simp: find_entry_def find_idx_None_iff k_entry_def)
  show p: "k_procs k' = k_procs k" and "ready_list (k_sched k') = ready_list (k_sched k)"
    "g_current_index (k_sched k') = g_current_index (k_sched k)"
    by (simp_all add: k' set_entry_def ready_list_def)
  show "en_pid (k_entry idx k') = pid" "en_in_use (k_entry j k') \<longleftrightarrow> j = idx \<or> en_in_use (k_entry j k)" by (simp_all add: ent)
  have "ring_shape (k_sched k')" "length (g_entries (k_sched k')) = PROC_TABLE_MAX"
    using k by (simp_all add: k' set_entry_def sched_shape_def ring_shape_def)
  then show "sched_shape k'" using k p other by (auto simp: sched_shape_def ent)
  show "pcb_of k' = (pcb_of k)(idx := pcbs (k_procs k) pid)" using i p by (auto simp: pcb_of_def ent)
qed

lemma register_ok:
  assumes k: "sched_ok k" and r: "proc_sched_register pid entry k = (PROC_SCHED_OK, k')"
  shows "sched_ok k'"
proof -
  have s: "sched_shape k" and v: "view_ok (ready_list (k_sched k), g_current_index (k_sched k), pcb_of k)"
    using k by (simp_all add: sched_ok_def view_def)
  have g: "entry \<noteq> NULL" "process_is_live_for_tests pid (k_procs k)" "find_entry pid k = None"
    using r by (auto simp: proc_sched_register_def split: if_splits)
  obtain idx k1 where a: "alloc_entry pid k = (Some idx, k1)"
    using r g by (auto simp: proc_sched_register_def split: prod.splits option.splits)
  note e = alloc_entry_effect [OF s a g(3)]
  have p: "procs_wf (k_procs k)" using s by (simp add: sched_shape_def)
  obtain b where b: "pcbs (k_procs k) pid = Some b"
    using g(2) proc_unresolved [OF p] by (cases "pcbs (k_procs k) pid") (auto simp: process_is_live_for_tests_def)
  then have b1: "pcb_of k1 idx = Some b" using e(8) by simp
  define t where "t = snd (process_set_entry pid entry (k_procs k1))"
  have t: "process_set_entry pid entry (k_procs k1) = (PROC_OK, t)" and tw: "procs_wf t"
    and tm: "pcbs t = (pcbs (k_procs k1))(pid := map_option (pcb_entry_update (\<lambda>_. entry)) (pcbs (k_procs k1) pid))"
    using proc_slot_set_effect [OF p, of "\<lambda>s. s\<lparr> ps_entry := entry \<rparr>" "pcb_entry_update (\<lambda>_. entry)" pid] b e(6)
    by (auto simp: t_def process_set_entry_def proc_view_def dom_def)
  let ?k2 = "k1\<lparr> k_procs := t \<rparr>"
  have s2: "sched_shape ?k2" using e(3) tw by (simp add: sched_shape_def k_entry_def)
  have b2: "pcb_of ?k2 = (pcb_of k1)(idx \<mapsto> b\<lparr> pcb_entry := entry \<rparr>)"
    using tm e(7) by (intro pcb_of_update [OF e(3) b1]) simp
  have pid: "en_pid (k_entry idx ?k2) = pid" using e(7) by (simp add: k_entry_def)
  let ?b = "b\<lparr> pcb_entry := entry, pcb_state := PROC_STATE_READY \<rparr>"
  let ?k3 = "k_set_state pid PROC_STATE_READY ?k2"
  have e3: "sched_shape ?k3" "pcb_of ?k3 = (pcb_of k)(idx \<mapsto> ?b)"
    using k_set_effect(1) [OF s2, of idx "b\<lparr> pcb_entry := entry \<rparr>" PROC_STATE_READY] b2 e(8) unfolding pid by simp_all
  have none: "pcb_of k idx = None" using e(2) by (simp add: pcb_of_def)
  have new: "idx \<notin> set (ready_list (k_sched k))" "g_current_index (k_sched k) \<noteq> Some idx"
    using k e(2) none by (auto simp: sched_ok_def view_def view_ok_def)
  have room: "g_ready_count (k_sched k) < PROC_TABLE_MAX" using queue_room(2) [OF v new(1) e(1)] by simp
  have u: "((pcb_of k)(idx \<mapsto> ?b))(idx := None) = pcb_of k" using none by auto
  have "sched_step (ready_list (k_sched k), g_current_index (k_sched k), ((pcb_of k)(idx \<mapsto> ?b))(idx := None))
     (ready_list (k_sched k) @ [idx], g_current_index (k_sched k), (pcb_of k)(idx \<mapsto> ?b))"
    by (rule sched_step.Register [of _ idx ?b]) (use new e(1) in simp_all)
  from sched_step_ok [OF this [unfolded u] v]
  have "view_ok (ready_list (k_sched k) @ [idx], g_current_index (k_sched k), (pcb_of k)(idx \<mapsto> ?b))" .
  moreover have "g_ready_count (k_sched ?k3) < PROC_TABLE_MAX" using room arg_cong [OF e(4), of length] by simp
  moreover have "\<forall>i\<in>set (ready_list (k_sched k) @ [idx]). en_in_use (k_entry i ?k3)"
    using k e(9) by (auto simp: sched_ok_def k_entry_def)
  ultimately have "sched_ok (ready_push idx ?k3)"
    using ready_push_effect [OF e3(1), of idx] e3(2) e(4,5) by (simp add: sched_ok_def view_def k_entry_def)
  moreover have "k' = ready_push idx ?k3" using r g a t by (simp add: proc_sched_register_def)
  ultimately show ?thesis by simp
qed

end
