(* ===== verification/Ipc_Ops.thy ===== *)
theory Ipc_Ops
  imports Proc_Sched
begin

text \<open>
  The synchronous IPC operations of \<^verbatim>\<open>kernel/ipc/ipc_ops.c\<close>.  Inside the scheduler a send on a full port and
  a receive on an empty one suspend the process in the middle of the operation; the result of an
  operation is therefore either its answer or the place where it is suspended, and resuming it is one
  more pass of the blocking loop.
\<close>

abbreviation OS_ABI_VERSION :: u16 where "OS_ABI_VERSION \<equiv> 0"
abbreviation ipc_msg_bytes :: u64 where "ipc_msg_bytes \<equiv> 80"  \<comment> \<open>\<^verbatim>\<open>sizeof(ipc_msg_v0)\<close>\<close>

section \<open>Definitions\<close>

datatype outcome =
    Done ipc_result_t "ipc_msg_v0 option" kern  \<comment> \<open>result, what was stored through \<^verbatim>\<open>out_msg\<close>, state\<close>
  | Wait susp kern  \<comment> \<open>switched to the scheduler\<close>

definition wake_on_token :: "nat option \<Rightarrow> kern \<Rightarrow> kern" where
  "wake_on_token tok k = (if tok = None then k else snd (proc_sched_wake_one_on_port tok k))"

definition ipc_stage_blocking :: "ipc_port_t \<Rightarrow> ipc_msg_v0 \<Rightarrow> kern \<Rightarrow> outcome" where
  \<comment> \<open>one pass of the loop\<close>
  "ipc_stage_blocking target outbound k =
    (let (sr, ports) = ipc_port_stage target (Some outbound) (k_ports k);
         k = k\<lparr> k_ports := ports \<rparr>;
         tok = ipc_port_wait_token target (k_ports k)
     in if sr \<noteq> IPC_ERR_PEER_GONE \<or> \<not> proc_sched_is_active k
        then Done sr None (if sr = IPC_OK then wake_on_token tok k else k)
        else if tok = None then Done IPC_ERR_INVALID_PORT None k
        else case proc_sched_block_current_on_port tok k of
          (PROC_SCHED_OK, k) \<Rightarrow> Wait (S_Stage target outbound) k
        | (_, k) \<Rightarrow> Done IPC_ERR_PEER_GONE None k)"

definition ipc_consume_blocking :: "ipc_port_t \<Rightarrow> kern \<Rightarrow> outcome" where
  \<comment> \<open>one pass of the loop\<close>
  "ipc_consume_blocking self_port k =
    (let (cr, out, ports) = ipc_port_consume self_port True (k_ports k);
         k = k\<lparr> k_ports := ports \<rparr>;
         tok = ipc_port_wait_token self_port (k_ports k)
     in if cr \<noteq> IPC_ERR_PEER_GONE \<or> \<not> proc_sched_is_active k
        then Done cr out (if cr = IPC_OK then wake_on_token tok k else k)
        else if tok = None then Done IPC_ERR_INVALID_PORT None k
        else case proc_sched_block_current_on_port tok k of
          (PROC_SCHED_OK, k) \<Rightarrow> Wait (S_Consume self_port) k
        | (_, k) \<Rightarrow> Done IPC_ERR_PEER_GONE None k)"

definition ipc_emit_deny_marker_resource :: "cap_subject_id_t \<Rightarrow> capability_id_t \<Rightarrow> string \<Rightarrow> kern \<Rightarrow> kern" where
  "ipc_emit_deny_marker_resource subject cap resource =
     k_print (cap_deny_marker_format subject cap (Some resource) True CAP_DENY_MARKER_MAX)"

definition ipc_emit_deny_marker :: "cap_subject_id_t \<Rightarrow> capability_id_t \<Rightarrow> kern \<Rightarrow> kern" where
  "ipc_emit_deny_marker subject cap =
     k_print (cap_deny_marker_format subject cap (Some ''-'') True CAP_DENY_MARKER_MAX)"

definition ipc_aspace_bounds_check :: "cap_subject_id_t \<Rightarrow> capability_id_t \<Rightarrow> u64 \<Rightarrow> kern \<Rightarrow> ipc_result_t \<times> kern" where
  "ipc_aspace_bounds_check subject cap msg k =
    (let as = process_find_aspace_by_subject subject (k_procs k) in
     if as = NULL then (IPC_OK, k)
     else if \<not> aspace_contains (k_aspace as k) msg ipc_msg_bytes
     then (IPC_ERR_BOUNDS, ipc_emit_deny_marker_resource subject cap ''bounds'' k)
     else (IPC_OK, k))"

definition k_cap_check :: "cap_subject_id_t \<Rightarrow> capability_id_t \<Rightarrow> kern \<Rightarrow> cap_result_t \<times> kern" where
  "k_cap_check subject cap k = (let (r, st) = cap_check subject cap (k_cap k) in (r, k\<lparr> k_cap := st \<rparr>))"

definition cap_ipc_send_gate :: "cap_subject_id_t \<Rightarrow> capability_id_t \<Rightarrow> kern \<Rightarrow> ipc_result_t \<times> kern" where
  "cap_ipc_send_gate subject required k =
    (let (r, k) = k_cap_check subject required k
     in if r \<noteq> CAP_OK then (IPC_ERR_CAP_DENIED, ipc_emit_deny_marker subject required k) else (IPC_OK, k))"

definition cap_ipc_recv_gate :: "cap_subject_id_t \<Rightarrow> capability_id_t \<Rightarrow> kern \<Rightarrow> ipc_result_t \<times> kern" where
  "cap_ipc_recv_gate subject required k =
    (let (r, k) = k_cap_check subject required k
     in if r \<noteq> CAP_OK then (IPC_ERR_CAP_DENIED, ipc_emit_deny_marker subject required k) else (IPC_OK, k))"

definition validate_outbound_envelope :: "msg_arg \<Rightarrow> ipc_result_t" where
  "validate_outbound_envelope msg =
    (case msg of
       None \<Rightarrow> IPC_ERR_INVALID_MSG
     | Some (_, m) \<Rightarrow>
        if im_abi_version m \<noteq> OS_ABI_VERSION then IPC_ERR_INVALID_MSG
        else if im_flags m \<noteq> 0 then IPC_ERR_INVALID_MSG
        else if im_payload_len m > 64 then IPC_ERR_INVALID_MSG
        else IPC_OK)"

definition ipc_send :: "cap_subject_id_t \<Rightarrow> ipc_port_t \<Rightarrow> msg_arg \<Rightarrow> kern \<Rightarrow> outcome" where
  "ipc_send sender target msg k =
    (case msg of
       None \<Rightarrow> Done (validate_outbound_envelope msg) None k
     | Some (addr, m) \<Rightarrow>
        if validate_outbound_envelope msg \<noteq> IPC_OK then Done (validate_outbound_envelope msg) None k
        else case ipc_port_send_cap target True (k_ports k) of
          (pr, None) \<Rightarrow> Done pr None k
        | (_, Some required_send) \<Rightarrow>
           let (gate, k) = cap_ipc_send_gate sender required_send k in
           if gate \<noteq> IPC_OK then Done gate None k
           else let (bc, k) = ipc_aspace_bounds_check sender required_send addr k in
           if bc \<noteq> IPC_OK then Done bc None k
           else if sender = 0 then Done IPC_ERR_INVALID_MSG None k
           else ipc_stage_blocking target (m\<lparr> im_sender_subject := sender \<rparr>) k)"

definition check_delivered :: "ipc_msg_v0 \<Rightarrow> ipc_result_t" where
  \<comment> \<open>the checks at the end of both receive operations\<close>
  "check_delivered m =
    (if im_sender_subject m = 0 then IPC_ERR_INVALID_MSG
     else if im_abi_version m \<noteq> OS_ABI_VERSION then IPC_ERR_INVALID_MSG
     else if im_flags m \<noteq> 0 then IPC_ERR_INVALID_MSG
     else if im_payload_len m > 64 then IPC_ERR_INVALID_MSG
     else IPC_OK)"

fun finish_recv :: "outcome \<Rightarrow> outcome" where
  "finish_recv (Done IPC_OK (Some m) k) = Done (check_delivered m) (Some m) k"
| "finish_recv oc = oc"

definition ipc_recv :: "cap_subject_id_t \<Rightarrow> ipc_port_t \<Rightarrow> u64 option \<Rightarrow> kern \<Rightarrow> outcome" where
  "ipc_recv receiver self_port out_msg k =
    (case out_msg of
       None \<Rightarrow> Done IPC_ERR_INVALID_MSG None k
     | Some addr \<Rightarrow>
        (case ipc_port_owner self_port True (k_ports k) of
           (pr, None) \<Rightarrow> Done pr None k
         | (_, Some owner) \<Rightarrow>
            if owner \<noteq> receiver then Done IPC_ERR_CAP_DENIED None (ipc_emit_deny_marker receiver CAP_IPC_RECV k)
            else case ipc_port_recv_cap self_port True (k_ports k) of
              (pr, None) \<Rightarrow> Done pr None k
            | (_, Some required_recv) \<Rightarrow>
               let (gate, k) = cap_ipc_recv_gate receiver required_recv k in
               if gate \<noteq> IPC_OK then Done gate None k
               else let (bc, k) = ipc_aspace_bounds_check receiver required_recv addr k in
               if bc \<noteq> IPC_OK then Done bc None k
               else finish_recv (ipc_consume_blocking self_port k)))"

fun call_after_send :: "cap_subject_id_t \<Rightarrow> ipc_port_t \<Rightarrow> u64 option \<Rightarrow> outcome \<Rightarrow> outcome" where
  \<comment> \<open>the rest of \<^verbatim>\<open>ipc_call\<close> after its send\<close>
  "call_after_send caller reply_port out_reply (Done sr out k) =
     (if sr \<noteq> IPC_OK then Done sr None k else ipc_recv caller reply_port out_reply k)"
| "call_after_send caller reply_port out_reply (Wait (S_Stage target m) k) = Wait (S_Call_Stage target m caller reply_port out_reply) k"
| "call_after_send caller reply_port out_reply (Wait s k) = Wait s k"

definition ipc_call :: "cap_subject_id_t \<Rightarrow> ipc_port_t \<Rightarrow> msg_arg \<Rightarrow> ipc_port_t \<Rightarrow> u64 option \<Rightarrow> kern \<Rightarrow> outcome" where
  "ipc_call caller target req reply_port out_reply k =
    (if req = None \<or> out_reply = None then Done IPC_ERR_INVALID_MSG None k
     else case ipc_port_owner reply_port True (k_ports k) of
       (pr, None) \<Rightarrow> Done pr None k
     | (_, Some reply_owner) \<Rightarrow>
        if reply_owner \<noteq> caller then Done IPC_ERR_CAP_DENIED None (ipc_emit_deny_marker caller CAP_IPC_RECV k)
        else call_after_send caller reply_port out_reply (ipc_send caller target req k))"

definition ipc_send_h :: "cap_handle_t \<Rightarrow> ipc_port_t \<Rightarrow> msg_arg \<Rightarrow> kern \<Rightarrow> outcome" where
  "ipc_send_h send_handle target msg k =
    (case msg of
       None \<Rightarrow> Done (validate_outbound_envelope msg) None k
     | Some (addr, m) \<Rightarrow>
        if validate_outbound_envelope msg \<noteq> IPC_OK then Done (validate_outbound_envelope msg) None k
        else case ipc_port_send_cap target True (k_ports k) of
          (pr, None) \<Rightarrow> Done pr None k
        | (_, Some required_send) \<Rightarrow>
           let sender = cap_handle_owner send_handle (k_handles k) in
           if cap_gate_check_handle_result send_handle required_send (k_handles k) \<noteq> CAP_OK
           then Done IPC_ERR_CAP_DENIED None (ipc_emit_deny_marker sender required_send (snd (k_cap_check sender required_send k)))
           else let k = snd (k_cap_check sender required_send k) in
           if sender = 0 then Done IPC_ERR_INVALID_MSG None k
           else let (bc, k) = ipc_aspace_bounds_check sender required_send addr k in
           if bc \<noteq> IPC_OK then Done bc None k
           else ipc_stage_blocking target (m\<lparr> im_sender_subject := sender \<rparr>) k)"

definition ipc_recv_h :: "cap_handle_t \<Rightarrow> ipc_port_t \<Rightarrow> u64 option \<Rightarrow> kern \<Rightarrow> outcome" where
  "ipc_recv_h recv_handle self_port out_msg k =
    (case out_msg of
       None \<Rightarrow> Done IPC_ERR_INVALID_MSG None k
     | Some addr \<Rightarrow>
        (case ipc_port_owner self_port True (k_ports k) of
           (pr, None) \<Rightarrow> Done pr None k
         | (_, Some owner) \<Rightarrow>
            let receiver = cap_handle_owner recv_handle (k_handles k) in
            if owner \<noteq> receiver then Done IPC_ERR_CAP_DENIED None (ipc_emit_deny_marker receiver CAP_IPC_RECV k)
            else case ipc_port_recv_cap self_port True (k_ports k) of
              (pr, None) \<Rightarrow> Done pr None k
            | (_, Some required_recv) \<Rightarrow>
               if cap_gate_check_handle_result recv_handle required_recv (k_handles k) \<noteq> CAP_OK
               then Done IPC_ERR_CAP_DENIED None
                 (ipc_emit_deny_marker receiver required_recv (snd (k_cap_check receiver required_recv k)))
               else let k = snd (k_cap_check receiver required_recv k);
                        (bc, k) = ipc_aspace_bounds_check receiver required_recv addr k in
               if bc \<noteq> IPC_OK then Done bc None k
               else finish_recv (ipc_consume_blocking self_port k)))"

fun ipc_resume :: "susp \<Rightarrow> kern \<Rightarrow> outcome" where
  \<comment> \<open>an operation goes on with one more pass of its blocking loop\<close>
  "ipc_resume (S_Stage target m) k = ipc_stage_blocking target m k"
| "ipc_resume (S_Consume self_port) k = finish_recv (ipc_consume_blocking self_port k)"
| "ipc_resume (S_Call_Stage target m caller reply_port out_reply) k =
     call_after_send caller reply_port out_reply (ipc_stage_blocking target m k)"

section \<open>Meaning\<close>

definition envelope_ok :: "ipc_msg_v0 \<Rightarrow> bool" where
  "envelope_ok m \<longleftrightarrow> im_abi_version m = OS_ABI_VERSION \<and> im_flags m = 0 \<and> im_payload_len m \<le> 64"

definition buffer_ok :: "cap_subject_id_t \<Rightarrow> u64 \<Rightarrow> kern \<Rightarrow> bool" where
  \<comment> \<open>the envelope lies in the window of the subject's process, when it has one\<close>
  "buffer_ok subject addr k \<longleftrightarrow>
    (let as = process_find_aspace_by_subject subject (k_procs k)
     in as = NULL \<or> aspace_contains (k_aspace as k) addr ipc_msg_bytes)"

definition send_verdict :: "cap_subject_id_t \<Rightarrow> ipc_port_t \<Rightarrow> msg_arg \<Rightarrow> kern \<Rightarrow> ipc_result_t" where
  "send_verdict s h msg k =
    (case msg of
       None \<Rightarrow> IPC_ERR_INVALID_MSG
     | Some (addr, m) \<Rightarrow>
        if \<not> envelope_ok m then IPC_ERR_INVALID_MSG
        else case mailboxes (k_ports k) h of
          None \<Rightarrow> IPC_ERR_INVALID_PORT
        | Some b \<Rightarrow>
           if \<not> cap_holds (k_cap k) s (mb_send b) then IPC_ERR_CAP_DENIED
           else if \<not> buffer_ok s addr k then IPC_ERR_BOUNDS
           else if s = 0 then IPC_ERR_INVALID_MSG
           else IPC_OK)"

definition recv_verdict :: "cap_subject_id_t \<Rightarrow> ipc_port_t \<Rightarrow> u64 option \<Rightarrow> kern \<Rightarrow> ipc_result_t" where
  "recv_verdict s h buf k =
    (case buf of
       None \<Rightarrow> IPC_ERR_INVALID_MSG
     | Some addr \<Rightarrow>
        (case mailboxes (k_ports k) h of
           None \<Rightarrow> IPC_ERR_INVALID_PORT
         | Some b \<Rightarrow>
            if mb_owner b \<noteq> s then IPC_ERR_CAP_DENIED
            else if \<not> cap_holds (k_cap k) s (mb_recv b) then IPC_ERR_CAP_DENIED
            else if \<not> buffer_ok s addr k then IPC_ERR_BOUNDS
            else IPC_OK))"

definition same_but_audit :: "kern \<Rightarrow> kern \<Rightarrow> bool" where
  \<comment> \<open>only the audit log and the console differ\<close>
  "same_but_audit k k' \<longleftrightarrow> cap_tab (k_cap k') = cap_tab (k_cap k) \<and>
     k' = k\<lparr> k_cap := k_cap k', k_out := k_out k' \<rparr>"

section \<open>Lemmas\<close>

declare port_step.simps [simp del]

subsection \<open>Ports by their mailboxes\<close>

lemma port_reads:
  assumes p: "ports_wf p"
  shows "ipc_port_send_cap h True p = (case mailboxes p h of None \<Rightarrow> (IPC_ERR_INVALID_PORT, None) | Some b \<Rightarrow> (IPC_OK, Some (mb_send b)))"
    and "ipc_port_recv_cap h True p = (case mailboxes p h of None \<Rightarrow> (IPC_ERR_INVALID_PORT, None) | Some b \<Rightarrow> (IPC_OK, Some (mb_recv b)))"
    and "ipc_port_owner h True p = (case mailboxes p h of None \<Rightarrow> (IPC_ERR_INVALID_PORT, None) | Some b \<Rightarrow> (IPC_OK, Some (mb_owner b)))"
    and "ipc_port_wait_token h p = (if h \<in> dom (mailboxes p) then Some (unat (handle_index h)) else None)"
proof -
  show "ipc_port_wait_token h p = (if h \<in> dom (mailboxes p) then Some (unat (handle_index h)) else None)"
    by (simp add: ipc_port_wait_token_def port_resolve_eq [OF p])
  have "ipc_port_send_cap h True p = (case mailboxes p h of None \<Rightarrow> (IPC_ERR_INVALID_PORT, None) | Some b \<Rightarrow> (IPC_OK, Some (mb_send b))) \<and>
    ipc_port_recv_cap h True p = (case mailboxes p h of None \<Rightarrow> (IPC_ERR_INVALID_PORT, None) | Some b \<Rightarrow> (IPC_OK, Some (mb_recv b))) \<and>
    ipc_port_owner h True p = (case mailboxes p h of None \<Rightarrow> (IPC_ERR_INVALID_PORT, None) | Some b \<Rightarrow> (IPC_OK, Some (mb_owner b)))"
  proof (cases "mailboxes p h")
    case None
    then show ?thesis using port_unresolved [OF p None] by (simp add: ipc_port_send_cap_def ipc_port_recv_cap_def ipc_port_owner_def)
  next
    case (Some b)
    then obtain i where "port_resolve h p = Some i" "b = port_view (g_ports p ! i)" by (rule port_resolved [OF p])
    then show ?thesis using Some
      by (simp add: ipc_port_send_cap_def ipc_port_recv_cap_def ipc_port_owner_def port_view_def)
  qed
  then show "ipc_port_send_cap h True p = (case mailboxes p h of None \<Rightarrow> (IPC_ERR_INVALID_PORT, None) | Some b \<Rightarrow> (IPC_OK, Some (mb_send b)))"
    "ipc_port_recv_cap h True p = (case mailboxes p h of None \<Rightarrow> (IPC_ERR_INVALID_PORT, None) | Some b \<Rightarrow> (IPC_OK, Some (mb_recv b)))"
    "ipc_port_owner h True p = (case mailboxes p h of None \<Rightarrow> (IPC_ERR_INVALID_PORT, None) | Some b \<Rightarrow> (IPC_OK, Some (mb_owner b)))"
    by blast+
qed

lemma wake_frame [simp]:
  "k_ports (snd (proc_sched_wake_one_on_port tok k)) = k_ports k"
  "k_cap (snd (proc_sched_wake_one_on_port tok k)) = k_cap k"
  "k_out (snd (proc_sched_wake_one_on_port tok k)) = k_out k"
  by (simp_all add: proc_sched_wake_one_on_port_def ready_push_def set_sched_def k_set_blocked_on_def k_set_state_def Let_def
      split: option.split)

lemma block_frame [simp]:
  "k_ports (snd (proc_sched_block_current_on_port tok k)) = k_ports k"
  "k_cap (snd (proc_sched_block_current_on_port tok k)) = k_cap k"
  "k_out (snd (proc_sched_block_current_on_port tok k)) = k_out k"
  by (simp_all add: proc_sched_block_current_on_port_def switch_to_scheduler_def set_sched_def k_set_blocked_on_def
      k_set_state_def Let_def split: option.split)

lemma wake_on_token_frame [simp]:
  "k_ports (wake_on_token tok k) = k_ports k" "k_cap (wake_on_token tok k) = k_cap k" "k_out (wake_on_token tok k) = k_out k"
  by (simp_all add: wake_on_token_def)

lemma active_ports [simp]: "proc_sched_is_active (k\<lparr> k_ports := p \<rparr>) = proc_sched_is_active k"
  by (simp add: proc_sched_is_active_def)

lemma block_active:
  "proc_sched_is_active k \<Longrightarrow> fst (proc_sched_block_current_on_port (Some t) k) = PROC_SCHED_OK"
  by (auto simp: proc_sched_is_active_def proc_sched_block_current_on_port_def Let_def)

lemma stage_blocking_eq:
  assumes p: "ports_wf (k_ports k)"
  shows "ipc_stage_blocking h m k =
    (case mailboxes (k_ports k) h of
       None \<Rightarrow> Done IPC_ERR_INVALID_PORT None k
     | Some b \<Rightarrow>
        if mb_msg b = None
        then Done IPC_OK None (wake_on_token (Some (unat (handle_index h))) (k\<lparr> k_ports := port_step (P_Stage h m) (k_ports k) \<rparr>))
        else if \<not> proc_sched_is_active k then Done IPC_ERR_PEER_GONE None k
        else Wait (S_Stage h m) (snd (proc_sched_block_current_on_port (Some (unat (handle_index h))) k)))"
proof (cases "mailboxes (k_ports k) h")
  case None
  then show ?thesis by (simp add: ipc_stage_blocking_def stage_effect(1) [OF p])
next
  case (Some b)
  show ?thesis
  proof (cases "mb_msg b")
    case None
    note e = stage_effect(2) [OF p Some None, of m]
    have "h \<in> dom (mailboxes (port_step (P_Stage h m) (k_ports k)))" using e by simp
    then show ?thesis using Some None e by (simp add: ipc_stage_blocking_def stage_effect(1) [OF p] port_reads(4) Let_def)
  next
    case (Some m')
    then show ?thesis using \<open>mailboxes (k_ports k) h = Some b\<close> block_active [of k "unat (handle_index h)"]
      by (cases "proc_sched_block_current_on_port (Some (unat (handle_index h))) k")
        (auto simp: ipc_stage_blocking_def stage_effect(1) [OF p] port_reads(4) [OF p] Let_def split: proc_sched_result_t.split)
  qed
qed

lemma consume_blocking_eq:
  assumes p: "ports_wf (k_ports k)"
  shows "ipc_consume_blocking h k =
    (case mailboxes (k_ports k) h of
       None \<Rightarrow> Done IPC_ERR_INVALID_PORT None k
     | Some b \<Rightarrow>
        if mb_msg b \<noteq> None
        then Done IPC_OK (mb_msg b) (wake_on_token (Some (unat (handle_index h))) (k\<lparr> k_ports := port_step (P_Consume h) (k_ports k) \<rparr>))
        else if \<not> proc_sched_is_active k then Done IPC_ERR_PEER_GONE None k
        else Wait (S_Consume h) (snd (proc_sched_block_current_on_port (Some (unat (handle_index h))) k)))"
proof (cases "mailboxes (k_ports k) h")
  case None
  then show ?thesis by (simp add: ipc_consume_blocking_def consume_effect(1) [OF p])
next
  case (Some b)
  show ?thesis
  proof (cases "mb_msg b = None")
    case False
    note e = consume_effect(2) [OF p Some False]
    have "h \<in> dom (mailboxes (port_step (P_Consume h) (k_ports k)))" using e by simp
    then show ?thesis using Some False e by (auto simp: ipc_consume_blocking_def consume_effect(1) [OF p] port_reads(4) Let_def)
  next
    case True
    then show ?thesis using \<open>mailboxes (k_ports k) h = Some b\<close> block_active [of k "unat (handle_index h)"]
      by (cases "proc_sched_block_current_on_port (Some (unat (handle_index h))) k")
        (auto simp: ipc_consume_blocking_def consume_effect(1) [OF p] port_reads(4) [OF p] Let_def split: proc_sched_result_t.split)
  qed
qed

subsection \<open>Guards\<close>

definition deny_lines :: "cap_subject_id_t \<Rightarrow> capability_id_t \<Rightarrow> string \<Rightarrow> string list" where
  \<comment> \<open>the line the deny-marker formatter gives, when it gives one\<close>
  "deny_lines s c res = (case cap_deny_marker_format s c (Some res) True CAP_DENY_MARKER_MAX of None \<Rightarrow> [] | Some l \<Rightarrow> [l])"

lemma emit_eq:
  "ipc_emit_deny_marker s c k = k\<lparr> k_out := k_out k @ deny_lines s c ''-'' \<rparr>"
  "ipc_emit_deny_marker_resource s c res k = k\<lparr> k_out := k_out k @ deny_lines s c res \<rparr>"
  by (simp_all add: ipc_emit_deny_marker_def ipc_emit_deny_marker_resource_def k_print_def deny_lines_def split: option.split)

lemma k_cap_check_eq: "k_cap_check s c k = (cap_table_check s c (cap_tab (k_cap k)), k\<lparr> k_cap := snd (cap_check s c (k_cap k)) \<rparr>)"
  by (simp add: k_cap_check_def cap_check_def Let_def)

lemma cap_tab_check [simp]: "cap_tab (snd (cap_check s c st)) = cap_tab st"
  by (simp add: cap_check_def Let_def)

lemma gate_eq:
  "cap_ipc_send_gate s c k =
    (if cap_holds (k_cap k) s c then (IPC_OK, snd (k_cap_check s c k))
     else (IPC_ERR_CAP_DENIED, (snd (k_cap_check s c k))\<lparr> k_out := k_out k @ deny_lines s c ''-'' \<rparr>))"
  "cap_ipc_recv_gate s c k = cap_ipc_send_gate s c k"
  by (simp_all add: cap_ipc_send_gate_def cap_ipc_recv_gate_def k_cap_check_eq emit_eq Let_def)

lemma bounds_check_eq:
  "ipc_aspace_bounds_check s c a k =
    (if buffer_ok s a k then (IPC_OK, k) else (IPC_ERR_BOUNDS, k\<lparr> k_out := k_out k @ deny_lines s c ''bounds'' \<rparr>))"
  by (auto simp: ipc_aspace_bounds_check_def buffer_ok_def emit_eq Let_def)

lemma buffer_ok_cap [simp]: "buffer_ok s a (k\<lparr> k_cap := c \<rparr>) = buffer_ok s a k"
  by (simp add: buffer_ok_def k_aspace_def)

lemma validate_eq:
  "validate_outbound_envelope (Some (a, m)) = (if envelope_ok m then IPC_OK else IPC_ERR_INVALID_MSG)"
  "validate_outbound_envelope None = IPC_ERR_INVALID_MSG"
  by (auto simp: validate_outbound_envelope_def envelope_ok_def)

lemmas guard_simps = gate_eq bounds_check_eq validate_eq k_cap_check_eq emit_eq

lemma ipc_send_eq:
  assumes "ports_wf (k_ports k)"
  shows "ipc_send s h msg k =
    (case (msg, mailboxes (k_ports k) h) of
       (Some (a, m), Some b) \<Rightarrow>
         if send_verdict s h msg k = IPC_OK
         then ipc_stage_blocking h (m\<lparr> im_sender_subject := s \<rparr>) (snd (k_cap_check s (mb_send b) k))
         else if \<not> envelope_ok m then Done IPC_ERR_INVALID_MSG None k
         else Done (send_verdict s h msg k) None ((snd (k_cap_check s (mb_send b) k))\<lparr> k_out := k_out k @
           (case send_verdict s h msg k of
              IPC_ERR_CAP_DENIED \<Rightarrow> deny_lines s (mb_send b) ''-''
            | IPC_ERR_BOUNDS \<Rightarrow> deny_lines s (mb_send b) ''bounds''
            | _ \<Rightarrow> []) \<rparr>)
     | _ \<Rightarrow> Done (send_verdict s h msg k) None k)"
  by (auto simp: ipc_send_def send_verdict_def guard_simps port_reads [OF assms] Let_def split: option.split prod.split)

lemma ipc_recv_eq:
  assumes "ports_wf (k_ports k)"
  shows "ipc_recv s h buf k =
    (case (buf, mailboxes (k_ports k) h) of
       (Some a, Some b) \<Rightarrow>
         if mb_owner b \<noteq> s then Done IPC_ERR_CAP_DENIED None (k\<lparr> k_out := k_out k @ deny_lines s CAP_IPC_RECV ''-'' \<rparr>)
         else if recv_verdict s h buf k = IPC_OK
         then finish_recv (ipc_consume_blocking h (snd (k_cap_check s (mb_recv b) k)))
         else Done (recv_verdict s h buf k) None ((snd (k_cap_check s (mb_recv b) k))\<lparr> k_out := k_out k @
           deny_lines s (mb_recv b) (if recv_verdict s h buf k = IPC_ERR_BOUNDS then ''bounds'' else ''-'') \<rparr>)
     | _ \<Rightarrow> Done (recv_verdict s h buf k) None k)"
  by (auto simp: ipc_recv_def recv_verdict_def guard_simps port_reads [OF assms] Let_def split: option.split prod.split)

lemma same_but_audit_intros:
  "same_but_audit k k"
  "same_but_audit k (k\<lparr> k_out := out \<rparr>)"
  "same_but_audit k (snd (k_cap_check s c k))"
  "same_but_audit k ((snd (k_cap_check s c k))\<lparr> k_out := out \<rparr>)"
  by (simp_all add: same_but_audit_def k_cap_check_eq)

lemma k_cap_check_frame [simp]:
  "k_ports (snd (k_cap_check s c k)) = k_ports k" "k_out (snd (k_cap_check s c k)) = k_out k"
  "k_procs (snd (k_cap_check s c k)) = k_procs k" "k_sched (snd (k_cap_check s c k)) = k_sched k"
  by (simp_all add: k_cap_check_eq)

definition send_denial :: "cap_subject_id_t \<Rightarrow> ipc_port_t \<Rightarrow> msg_arg \<Rightarrow> kern \<Rightarrow> string list" where
  "send_denial s h msg k =
    (case mailboxes (k_ports k) h of
       None \<Rightarrow> []
     | Some b \<Rightarrow>
        (case send_verdict s h msg k of
           IPC_ERR_CAP_DENIED \<Rightarrow> deny_lines s (mb_send b) ''-''
         | IPC_ERR_BOUNDS \<Rightarrow> deny_lines s (mb_send b) ''bounds''
         | _ \<Rightarrow> []))"

definition recv_denial :: "cap_subject_id_t \<Rightarrow> ipc_port_t \<Rightarrow> u64 option \<Rightarrow> kern \<Rightarrow> string list" where
  "recv_denial s h buf k =
    (case mailboxes (k_ports k) h of
       None \<Rightarrow> []
     | Some b \<Rightarrow>
        (case recv_verdict s h buf k of
           IPC_ERR_CAP_DENIED \<Rightarrow> deny_lines s (if mb_owner b \<noteq> s then CAP_IPC_RECV else mb_recv b) ''-''
         | IPC_ERR_BOUNDS \<Rightarrow> deny_lines s (mb_recv b) ''bounds''
         | _ \<Rightarrow> []))"

section \<open>Properties\<close>

text \<open>
  C29: Refused IPC.  A send is refused for the first of these reasons that holds, with its own result
  code: bad envelope, no such port, sender without the port's send capability, envelope outside the
  sender's window, sender 0.  A receive is refused for a missing buffer, no such port, a receiver that
  is not the owner or lacks the receive capability, or a buffer outside the window.  A refused
  operation answers at once, changes nothing but the audit log, and writes the deny line exactly for
  capability and bounds denials.
\<close>

theorem ipc_refusals:
  assumes "ports_wf (k_ports k)"
  shows "(send_verdict s h msg k \<noteq> IPC_OK \<longrightarrow> (\<exists>k'. ipc_send s h msg k = Done (send_verdict s h msg k) None k' \<and>
            same_but_audit k k' \<and> k_out k' = k_out k @ send_denial s h msg k)) \<and>
         (recv_verdict s h buf k \<noteq> IPC_OK \<longrightarrow> (\<exists>k'. ipc_recv s h buf k = Done (recv_verdict s h buf k) None k' \<and>
            same_but_audit k k' \<and> k_out k' = k_out k @ recv_denial s h buf k))"
proof (intro conjI impI)
  assume v: "send_verdict s h msg k \<noteq> IPC_OK"
  show "\<exists>k'. ipc_send s h msg k = Done (send_verdict s h msg k) None k' \<and>
      same_but_audit k k' \<and> k_out k' = k_out k @ send_denial s h msg k"
    using v unfolding ipc_send_eq [OF assms]
    by (auto simp: send_denial_def same_but_audit_intros send_verdict_def split: option.split prod.split)
next
  assume v: "recv_verdict s h buf k \<noteq> IPC_OK"
  show "\<exists>k'. ipc_recv s h buf k = Done (recv_verdict s h buf k) None k' \<and>
      same_but_audit k k' \<and> k_out k' = k_out k @ recv_denial s h buf k"
    using v unfolding ipc_recv_eq [OF assms]
    by (auto simp: recv_denial_def same_but_audit_intros recv_verdict_def split: option.split)
qed

definition demo_kern :: kern where
  \<comment> \<open>one port of subject 3, no processes\<close>
  "demo_kern = (kern_boot (\<lambda>_. \<lparr> as_base = 0, as_size = 0, as_stack_top = 0, as_ipc_scratch = 0, as_pt_reserved = 0 \<rparr>) (\<lambda>_. Return))
     \<lparr> k_ports := demo_ports \<rparr>"

theorem ipc_refusals_witness:
  "\<exists>k'. ipc_send 5 0x10000 (Some (4096, ipc_msg_zero)) demo_kern = Done IPC_ERR_CAP_DENIED None k' \<and>
     k_out k' = [''CAP:DENY:5:ipc_send:-'' @ [CHR 0x0A]]"
proof -
  have w: "ports_wf (k_ports demo_kern)" by (simp add: demo_kern_def demo_ports_wf)
  have o: "k_out demo_kern = []" by (simp add: demo_kern_def kern_boot_def)
  have v: "send_verdict 5 0x10000 (Some (4096, ipc_msg_zero)) demo_kern = IPC_ERR_CAP_DENIED" by code_simp
  have d: "send_denial 5 0x10000 (Some (4096, ipc_msg_zero)) demo_kern = [''CAP:DENY:5:ipc_send:-'' @ [CHR 0x0A]]" by code_simp
  show ?thesis
    using ipc_refusals [OF w, of 5 "0x10000" "Some (4096, ipc_msg_zero)", THEN conjunct1] o unfolding v d by auto
qed

end
