(* ===== verification/Sched_Run.thy ===== *)
theory Sched_Run
  imports Ipc_Ops "HOL-Library.Multiset"
begin

text \<open>
  The dispatch loop \<^verbatim>\<open>proc_sched_run\<close> of \<^verbatim>\<open>kernel/proc/proc_sched.c\<close> together with the programs of the
  processes it runs.  The loop may in principle run forever, so it is a partial function in the option
  monad; it is shown to return for every set of programs.
\<close>

section \<open>Definitions\<close>

subsection \<open>Running a program\<close>

datatype called =
    Answer answer kern  \<comment> \<open>the call came back\<close>
  | Suspended susp kern  \<comment> \<open>suspended inside an IPC operation\<close>
  | Switched answer kern  \<comment> \<open>switched to the scheduler; the call comes back with this answer when resumed\<close>

fun of_outcome :: "outcome \<Rightarrow> called" where
  "of_outcome (Done r out k) = Answer (R_Ipc r out) k"
| "of_outcome (Wait s k) = Suspended s k"

definition switched :: "proc_sched_result_t \<times> kern \<Rightarrow> called" where
  "switched rk = (case rk of (PROC_SCHED_OK, k) \<Rightarrow> Switched R_Ok k | (_, k) \<Rightarrow> Answer R_Not_Running k)"

fun exec_call :: "kcall \<Rightarrow> kern \<Rightarrow> called" where
  "exec_call (C_Send s h msg) k = of_outcome (ipc_send s h msg k)"
| "exec_call (C_Recv s h buf) k = of_outcome (ipc_recv s h buf k)"
| "exec_call (C_Call s h msg reply buf) k = of_outcome (ipc_call s h msg reply buf k)"
| "exec_call (C_Send_H ch h msg) k = of_outcome (ipc_send_h ch h msg k)"
| "exec_call (C_Recv_H ch h buf) k = of_outcome (ipc_recv_h ch h buf k)"
| "exec_call (C_Port_Create s cs cr) k =
     (let (r, h, p) = ipc_port_create s cs cr True (k_ports k) in Answer (R_Port r h) (k\<lparr> k_ports := p \<rparr>))"
| "exec_call (C_Port_Destroy h) k =
     (let (r, p) = ipc_port_destroy h (k_ports k) in Answer (R_Port r None) (k\<lparr> k_ports := p \<rparr>))"
| "exec_call C_Yield k = switched (proc_yield k)"
| "exec_call (C_Exit code) k = switched (proc_exit code k)"

definition save_ctx :: "nat \<Rightarrow> ctx \<Rightarrow> kern \<Rightarrow> kern" where
  \<comment> \<open>what \<^verbatim>\<open>swapcontext\<close> stores into the entry it leaves\<close>
  "save_ctx i c = set_entry i (\<lambda>e. e\<lparr> en_ctx := c \<rparr>)"

primrec run_prog :: "nat \<Rightarrow> prog \<Rightarrow> kern \<Rightarrow> kern" where
  \<comment> \<open>the process of entry \<open>i\<close> runs until it switches to the scheduler; a natural return is \<^verbatim>\<open>proc_exit(0)\<close>\<close>
  "run_prog i Return k = save_ctx i (Run Return) (snd (proc_exit 0 k))"
| "run_prog i (Call c f) k =
    (case exec_call c k of
       Answer a k \<Rightarrow> run_prog i (f a) k
     | Suspended s k \<Rightarrow> save_ctx i (Susp s f) k
     | Switched a k \<Rightarrow> save_ctx i (Run (f a)) k)"

fun run_ctx :: "nat \<Rightarrow> ctx \<Rightarrow> kern \<Rightarrow> kern" where
  "run_ctx i (Run p) k = run_prog i p k"
| "run_ctx i (Susp s f) k =
    (case ipc_resume s k of
       Done r out k \<Rightarrow> run_prog i (f (R_Ipc r out)) k
     | Wait s k \<Rightarrow> save_ctx i (Susp s f) k)"

definition sched_trampoline :: "process_id_t \<Rightarrow> kern \<Rightarrow> ctx" where
  \<comment> \<open>the context of a first dispatch: the entry function, then \<^verbatim>\<open>proc_exit(0)\<close>\<close>
  "sched_trampoline pid k =
    (case proc_snap pid k of
       None \<Rightarrow> Run Return
     | Some snap \<Rightarrow> if pr_entry snap \<noteq> NULL then Run (k_code k (pr_entry snap)) else Run Return)"

subsection \<open>The dispatch loop\<close>

definition set_current :: "nat option \<Rightarrow> kern \<Rightarrow> kern" where
  "set_current c = set_sched (\<lambda>s. s\<lparr> g_current_index := c \<rparr>)"

definition sched_dispatch :: "nat \<Rightarrow> kern \<Rightarrow> bool \<times> kern" where
  \<comment> \<open>the body of the loop for a popped entry; the flag says that the kernel aborts\<close>
  "sched_dispatch idx k =
    (let pid = en_pid (k_entry idx k) in
     case proc_snap pid k of
       None \<Rightarrow> (False, k)
     | Some snap \<Rightarrow>
        if pr_state snap = PROC_STATE_EXITED then (False, k)
        else if \<not> aspace_invariant_ok (k_aspace (pr_aspace snap) k) then
          let (aborts, k) = aspace_invariant_panic pid (k_aspace (pr_aspace snap) k) k in
          if aborts then (True, k)
          else (False, set_current None (ready_drop idx (k_set_state pid PROC_STATE_EXITED (k_set_exit_code pid 0xFFFFFFFF k))))
        else
          let k = k_set_state pid PROC_STATE_RUNNING (set_current (Some idx) k) in
          if \<not> en_started (k_entry idx k) then
            let k = set_entry idx (\<lambda>e. e\<lparr> en_started := True \<rparr>) k in
            if \<not> k_getcontext_ok k then (False, set_current None (k_set_state pid PROC_STATE_EXITED k))
            else (False, set_current None (run_ctx idx (sched_trampoline pid k) k))
          else (False, set_current None (run_ctx idx (en_ctx (k_entry idx k)) k)))"

datatype run_end = Ended proc_sched_result_t | Aborted

partial_function (option) sched_loop :: "kern \<Rightarrow> (run_end \<times> kern) option" where
  "sched_loop k =
    (case ready_pop k of
       (None, k) \<Rightarrow>
         let live = count_live k; k = set_sched (\<lambda>s. s\<lparr> g_dispatching := False \<rparr>) k
         in Some (if live = 0 then Ended PROC_SCHED_OK else Ended PROC_SCHED_ERR_DEADLOCK, k)
     | (Some idx, k) \<Rightarrow>
         let (aborts, k) = sched_dispatch idx k in if aborts then Some (Aborted, k) else sched_loop k)"

declare sched_loop.simps [code]

definition proc_sched_run :: "kern \<Rightarrow> (run_end \<times> kern) option" where
  "proc_sched_run k =
    (if g_dispatching (k_sched k) then Some (Ended PROC_SCHED_ERR_INVALID_ARG, k)
     else sched_loop (set_sched (\<lambda>s. s\<lparr> g_dispatching := True \<rparr>) k))"

section \<open>What a running process does to the scheduler\<close>

lemma sched_cong:
  assumes "k_sched k' = k_sched k" "k_procs k' = k_procs k"
  shows "sched_ok k' = sched_ok k" "view k' = view k" "sched_shape k' = sched_shape k"
proof -
  have "pcb_of k' = pcb_of k" "k_entry i k' = k_entry i k" for i using assms by (simp_all add: pcb_of_def k_entry_def fun_eq_iff)
  then show "sched_ok k' = sched_ok k" "view k' = view k" "sched_shape k' = sched_shape k" using assms by (simp_all add: sched_ok_def sched_shape_def view_def)
qed

definition kern_ok :: "kern \<Rightarrow> bool" where
  "kern_ok k \<longleftrightarrow> sched_ok k \<and> ports_wf (k_ports k)"

definition moves :: "kern \<Rightarrow> nat option \<Rightarrow> kern \<Rightarrow> bool" where
  \<comment> \<open>to a sound state with the running entry \<open>c\<close>\<close>
  "moves k c k' \<longleftrightarrow> kern_ok k' \<and> sched_moves k k' \<and> g_current_index (k_sched k') = c"

lemma moves_same:
  assumes "kern_ok k" "k_sched k' = k_sched k" "k_procs k' = k_procs k" "ports_wf (k_ports k')"
  shows "moves k (g_current_index (k_sched k)) k'"
  using assms sched_cong [OF assms(2,3)] by (simp add: moves_def kern_ok_def sched_moves_def)

lemma moves_trans: "moves k c k' \<Longrightarrow> moves k' c' k'' \<Longrightarrow> moves k c' k''"
  by (auto simp: moves_def intro: sched_moves_trans)

lemma moves_from:
  assumes "moves k1 c k'" "k_sched k1 = k_sched k" "k_procs k1 = k_procs k"
  shows "moves k c k'"
  using assms sched_cong [OF assms(2,3)] by (simp add: moves_def sched_moves_def)

fun outcome_moves :: "kern \<Rightarrow> outcome \<Rightarrow> bool" where
  "outcome_moves k (Done r out k') \<longleftrightarrow> moves k (g_current_index (k_sched k)) k'"
| "outcome_moves k (Wait s k') \<longleftrightarrow> moves k None k'"

lemma outcome_from:
  "outcome_moves k1 oc \<Longrightarrow> k_sched k1 = k_sched k \<Longrightarrow> k_procs k1 = k_procs k \<Longrightarrow> outcome_moves k oc"
  by (cases oc) (auto intro: moves_from)

lemma wake_on_token_moves:
  assumes "kern_ok k"
  shows "moves k (g_current_index (k_sched k)) (wake_on_token (Some t) k)"
  using assms wake_moves [of k t] by (simp add: moves_def kern_ok_def wake_on_token_def sched_moves_def)

lemma block_current_moves:
  assumes "kern_ok k" "proc_sched_is_active k"
  shows "moves k None (snd (proc_sched_block_current_on_port (Some t) k))"
    and "g_ready_count (k_sched (snd (proc_sched_block_current_on_port (Some t) k))) = g_ready_count (k_sched k)"
proof -
  obtain i where i: "g_current_index (k_sched k) = Some i" using assms(2) by (auto simp: proc_sched_is_active_def)
  have "sched_ok k" "ports_wf (k_ports k)" using assms(1) by (simp_all add: kern_ok_def)
  then show "moves k None (snd (proc_sched_block_current_on_port (Some t) k))"
    "g_ready_count (k_sched (snd (proc_sched_block_current_on_port (Some t) k))) = g_ready_count (k_sched k)"
    using block_moves [OF _ i, of t] by (auto simp: moves_def kern_ok_def sched_moves_def)
qed

lemma ports_changed_wake:
  assumes "kern_ok k" "ports_wf p"
  shows "moves k (g_current_index (k_sched k)) (wake_on_token (Some t) (k\<lparr> k_ports := p \<rparr>))"
proof (rule moves_from)
  have "kern_ok (k\<lparr> k_ports := p \<rparr>)" using assms sched_cong(1) [of "k\<lparr> k_ports := p \<rparr>" k] by (simp add: kern_ok_def)
  then show "moves (k\<lparr> k_ports := p \<rparr>) (g_current_index (k_sched k)) (wake_on_token (Some t) (k\<lparr> k_ports := p \<rparr>))"
    using wake_on_token_moves [of "k\<lparr> k_ports := p \<rparr>" t] by simp
qed simp_all

lemma stage_moves:
  assumes k: "kern_ok k"
  shows "outcome_moves k (ipc_stage_blocking h m k)"
    and "ipc_stage_blocking h m k = Wait s k' \<Longrightarrow> s = S_Stage h m \<and> g_ready_count (k_sched k') = g_ready_count (k_sched k)"
proof -
  have p: "ports_wf (k_ports k)" using k by (simp add: kern_ok_def)
  show "outcome_moves k (ipc_stage_blocking h m k)"
    unfolding stage_blocking_eq [OF p]
    using ports_changed_wake [OF k] stage_effect(2) [OF p] block_current_moves(1) [OF k] moves_same [OF k] p
    by (auto split: option.split)
  show "ipc_stage_blocking h m k = Wait s k' \<Longrightarrow> s = S_Stage h m \<and> g_ready_count (k_sched k') = g_ready_count (k_sched k)"
    unfolding stage_blocking_eq [OF p] using block_current_moves(2) [OF k] by (auto split: option.splits if_splits)
qed

lemma consume_moves:
  assumes k: "kern_ok k"
  shows "outcome_moves k (ipc_consume_blocking h k)"
    and "ipc_consume_blocking h k = Wait s k' \<Longrightarrow> s = S_Consume h \<and> g_ready_count (k_sched k') = g_ready_count (k_sched k)"
proof -
  have p: "ports_wf (k_ports k)" using k by (simp add: kern_ok_def)
  show "outcome_moves k (ipc_consume_blocking h k)"
    unfolding consume_blocking_eq [OF p]
    using ports_changed_wake [OF k] consume_effect(2) [OF p] block_current_moves(1) [OF k] moves_same [OF k] p
    by (auto split: option.split)
  show "ipc_consume_blocking h k = Wait s k' \<Longrightarrow> s = S_Consume h \<and> g_ready_count (k_sched k') = g_ready_count (k_sched k)"
    unfolding consume_blocking_eq [OF p] using block_current_moves(2) [OF k] by (auto split: option.splits if_splits)
qed

lemma finish_recv_moves: "outcome_moves k oc \<Longrightarrow> outcome_moves k (finish_recv oc)"
  by (cases oc rule: finish_recv.cases) auto

lemma audit_only:
  assumes "kern_ok k"
  shows "outcome_moves k (Done r out (k\<lparr> k_out := l \<rparr>))" "outcome_moves k (Done r out k)"
    "outcome_moves k (Done r out (snd (k_cap_check s c k)))"
    "outcome_moves k (Done r out ((snd (k_cap_check s c k))\<lparr> k_out := l \<rparr>))"
    "kern_ok (snd (k_cap_check s c k))"
proof -
  have p: "ports_wf (k_ports k)" using assms by (simp add: kern_ok_def)
  show "outcome_moves k (Done r out (k\<lparr> k_out := l \<rparr>))" "outcome_moves k (Done r out k)"
    "outcome_moves k (Done r out (snd (k_cap_check s c k)))"
    "outcome_moves k (Done r out ((snd (k_cap_check s c k))\<lparr> k_out := l \<rparr>))"
    using moves_same [OF assms] p by simp_all
  show "kern_ok (snd (k_cap_check s c k))"
    using assms sched_cong(1) [of "snd (k_cap_check s c k)" k] by (simp add: kern_ok_def)
qed

lemma checked_from: "outcome_moves (snd (k_cap_check s c k)) oc \<Longrightarrow> outcome_moves k oc"
  by (erule outcome_from) simp_all

lemma ipc_send_moves:
  assumes k: "kern_ok k"
  shows "outcome_moves k (ipc_send s h msg k)"
proof -
  have p: "ports_wf (k_ports k)" using k by (simp add: kern_ok_def)
  have "outcome_moves k (ipc_stage_blocking h m (snd (k_cap_check s c k)))" for m c
    by (rule checked_from [OF stage_moves(1) [OF audit_only(5) [OF k]]])
  then show ?thesis unfolding ipc_send_eq [OF p]
    using audit_only [OF k] by (simp del: outcome_moves.simps split: option.split prod.split)
qed

lemma ipc_recv_moves:
  assumes k: "kern_ok k"
  shows "outcome_moves k (ipc_recv s h buf k)"
proof -
  have p: "ports_wf (k_ports k)" using k by (simp add: kern_ok_def)
  have "outcome_moves k (finish_recv (ipc_consume_blocking h (snd (k_cap_check s c k))))" for c
    by (rule checked_from [OF finish_recv_moves [OF consume_moves(1) [OF audit_only(5) [OF k]]]])
  then show ?thesis unfolding ipc_recv_eq [OF p]
    using audit_only [OF k] by (simp del: outcome_moves.simps split: option.split prod.split)
qed

lemma call_after_send_moves:
  assumes "kern_ok k" "outcome_moves k oc"
  shows "outcome_moves k (call_after_send s h buf oc)"
proof (cases oc)
  case (Done r out k1)
  then have m: "moves k (g_current_index (k_sched k)) k1" using assms(2) by simp
  then have "outcome_moves k1 (ipc_recv s h buf k1)" by (intro ipc_recv_moves) (simp add: moves_def)
  then have "outcome_moves k (ipc_recv s h buf k1)"
    using m by (cases "ipc_recv s h buf k1") (auto simp: moves_def intro: sched_moves_trans)
  then show ?thesis using Done m by simp
next
  case (Wait s' k1)
  then show ?thesis using assms(2) by (cases s') simp_all
qed

lemma ipc_call_moves:
  assumes k: "kern_ok k"
  shows "outcome_moves k (ipc_call s h msg rp buf k)"
  using call_after_send_moves [OF k ipc_send_moves [OF k]] audit_only [OF k]
  by (simp add: ipc_call_def emit_eq del: outcome_moves.simps split: option.split prod.split)

lemma ipc_send_h_moves:
  assumes k: "kern_ok k"
  shows "outcome_moves k (ipc_send_h ch h msg k)"
proof -
  have p: "ports_wf (k_ports k)" using k by (simp add: kern_ok_def)
  have "outcome_moves k (ipc_stage_blocking h m (snd (k_cap_check s c k)))" for m s c
    by (rule checked_from [OF stage_moves(1) [OF audit_only(5) [OF k]]])
  then show ?thesis using audit_only [OF k]
    by (simp add: ipc_send_h_def guard_simps(3,4,5,6) emit_eq Let_def del: outcome_moves.simps split: option.split prod.split)
qed

lemma ipc_recv_h_moves:
  assumes k: "kern_ok k"
  shows "outcome_moves k (ipc_recv_h ch h buf k)"
proof -
  have "outcome_moves k (finish_recv (ipc_consume_blocking h (snd (k_cap_check s c k))))" for s c
    by (rule checked_from [OF finish_recv_moves [OF consume_moves(1) [OF audit_only(5) [OF k]]]])
  then show ?thesis using audit_only [OF k]
    by (simp add: ipc_recv_h_def guard_simps(3,6) emit_eq Let_def del: outcome_moves.simps split: option.split prod.split)
qed

lemma consume_wait: "ipc_consume_blocking h k = Wait s k' \<Longrightarrow> s = S_Consume h"
  by (auto simp: ipc_consume_blocking_def Let_def split: prod.splits if_splits proc_sched_result_t.splits)

lemma finish_recv_wait: "finish_recv oc = Wait s k' \<Longrightarrow> oc = Wait s k'"
  by (cases oc rule: finish_recv.cases) auto

lemma ipc_recv_wait: "ipc_recv s h buf k = Wait s' k' \<Longrightarrow> \<exists>p. s' = S_Consume p"
  by (auto simp: ipc_recv_def Let_def dest!: finish_recv_wait dest: consume_wait split: prod.splits if_splits option.splits)

lemma ipc_resume_moves:
  assumes k: "kern_ok k"
  shows "outcome_moves k (ipc_resume s k)"
    and "ipc_resume s k = Wait s' k' \<Longrightarrow>
      s' = s \<and> g_ready_count (k_sched k') = g_ready_count (k_sched k) \<or>
      (\<exists>t m c r b p. s = S_Call_Stage t m c r b \<and> s' = S_Consume p)"
proof -
  show "outcome_moves k (ipc_resume s k)"
    by (cases s) (simp_all add: stage_moves [OF k] consume_moves [OF k] finish_recv_moves call_after_send_moves [OF k])
  assume w: "ipc_resume s k = Wait s' k'"
  show "s' = s \<and> g_ready_count (k_sched k') = g_ready_count (k_sched k) \<or>
      (\<exists>t m c r b p. s = S_Call_Stage t m c r b \<and> s' = S_Consume p)"
  proof (cases s)
    case (S_Stage h m)
    then show ?thesis using w stage_moves(2) [OF k, of h m s' k'] by simp
  next
    case (S_Consume h)
    then have "ipc_consume_blocking h k = Wait s' k'"
      using w by (cases "ipc_consume_blocking h k" rule: finish_recv.cases) auto
    then show ?thesis using S_Consume consume_moves(2) [OF k, of h s' k'] by simp
  next
    case (S_Call_Stage h m c r b)
    show ?thesis
    proof (cases "ipc_stage_blocking h m k")
      case (Done a out k1)
      then have "ipc_recv c r b k1 = Wait s' k'" using w S_Call_Stage by (simp split: if_splits)
      then show ?thesis using S_Call_Stage ipc_recv_wait by blast
    next
      case (Wait s1 k1)
      then show ?thesis using stage_moves(2) [OF k Wait] w S_Call_Stage by auto
    qed
  qed
qed

section \<open>Termination\<close>

subsection \<open>A well-founded order of contexts\<close>

inductive_set ctx_less :: "(ctx \<times> ctx) set" where
  "(Run (f a), Run (Call c f)) \<in> ctx_less"
| "(Susp s f, Run (Call c f)) \<in> ctx_less"
| "(Run (f a), Susp s f) \<in> ctx_less"
| "(Susp (S_Consume p) f, Susp (S_Call_Stage t m c r b) f) \<in> ctx_less"

inductive_cases ctx_less_RunE: "(x, Run p) \<in> ctx_less"
inductive_cases ctx_less_SuspE: "(x, Susp s f) \<in> ctx_less"

lemma susp_acc:
  assumes "\<And>a. Run (f a) \<in> Wellfounded.acc ctx_less"
  shows "Susp s f \<in> Wellfounded.acc ctx_less"
proof -
  have c: "Susp (S_Consume p) f \<in> Wellfounded.acc ctx_less" for p
    by (rule accI) (auto elim: ctx_less_SuspE intro: assms)
  show ?thesis by (rule accI) (auto elim: ctx_less_SuspE intro: assms c)
qed

lemma run_acc: "Run p \<in> Wellfounded.acc ctx_less"
proof (induction p)
  case Return
  show ?case by (rule accI) (auto elim: ctx_less_RunE)
next
  case (Call c f)
  have r: "Run (f a) \<in> Wellfounded.acc ctx_less" for a by (rule Call.IH) simp
  show ?case
  proof (rule accI)
    fix y assume "(y, Run (Call c f)) \<in> ctx_less"
    then show "y \<in> Wellfounded.acc ctx_less" by cases (use r susp_acc [OF r] in auto)
  qed
qed

lemma wf_ctx_less: "wf ctx_less"
proof (rule acc_wfI, rule allI)
  fix x show "x \<in> Wellfounded.acc ctx_less" by (cases x) (use run_acc susp_acc [OF run_acc] in auto)
qed

subsection \<open>A run of one process\<close>

lemma set_entry_effect:
  assumes "kern_ok k" and f: "\<And>e. en_in_use (f e) = en_in_use e" "\<And>e. en_pid (f e) = en_pid e"
  shows "kern_ok (set_entry i f k)" "view (set_entry i f k) = view k"
    "g_entries (k_sched (set_entry i f k)) = (g_entries (k_sched k))[i := f (g_entries (k_sched k) ! i)]"
    "g_current_index (k_sched (set_entry i f k)) = g_current_index (k_sched k)"
    "g_ready_count (k_sched (set_entry i f k)) = g_ready_count (k_sched k)"
proof -
  have e: "en_in_use (k_entry j (set_entry i f k)) = en_in_use (k_entry j k) \<and> en_pid (k_entry j (set_entry i f k)) = en_pid (k_entry j k)" for j
    by (cases "i < length (g_entries (k_sched k))") (auto simp: set_entry_def k_entry_def nth_list_update list_update_beyond f)
  then have p: "pcb_of (set_entry i f k) = pcb_of k" by (simp add: pcb_of_def set_entry_def fun_eq_iff)
  have r: "ready_list (k_sched (set_entry i f k)) = ready_list (k_sched k)"
    "g_current_index (k_sched (set_entry i f k)) = g_current_index (k_sched k)"
    "ring_shape (k_sched (set_entry i f k)) = ring_shape (k_sched k)"
    "k_procs (set_entry i f k) = k_procs k" "k_ports (set_entry i f k) = k_ports k"
    "length (g_entries (k_sched (set_entry i f k))) = length (g_entries (k_sched k))"
    by (simp_all add: set_entry_def ready_list_def ring_shape_def)
  show v: "view (set_entry i f k) = view k" by (simp add: view_def p r)
  show "kern_ok (set_entry i f k)" using assms(1) by (simp add: kern_ok_def sched_ok_def sched_shape_def v r e)
qed (simp_all add: set_entry_def)

definition ran :: "nat \<Rightarrow> kern \<Rightarrow> ctx \<Rightarrow> kern \<Rightarrow> bool" where
  \<comment> \<open>entry \<open>i\<close> ran from context \<open>c\<close>: back in the scheduler with a smaller context, or with the same
     context and no new ready entry\<close>
  "ran i k c k' \<longleftrightarrow> kern_ok k' \<and> g_current_index (k_sched k') = None \<and> sched_steps (view k) (view k') \<and>
     (\<exists>c'. g_entries (k_sched k') = (g_entries (k_sched k))[i := (g_entries (k_sched k) ! i)\<lparr> en_ctx := c' \<rparr>] \<and>
        ((c', c) \<in> ctx_less\<^sup>+ \<or> c' = c \<and> g_ready_count (k_sched k') \<le> g_ready_count (k_sched k)))"

lemma ran_save:
  assumes "moves k None k1" "(c', c) \<in> ctx_less\<^sup>+ \<or> c' = c \<and> g_ready_count (k_sched k1) \<le> g_ready_count (k_sched k)"
  shows "ran i k c (save_ctx i c' k1)"
  using assms set_entry_effect [of k1 "\<lambda>e. e\<lparr> en_ctx := c' \<rparr>" i] by (auto simp: save_ctx_def ran_def moves_def sched_moves_def)

lemma ran_after:
  assumes "moves k (Some i) k1" "ran i k1 c1 k'" "(c1, c) \<in> ctx_less"
  shows "ran i k c k'"
proof -
  obtain c' where c': "g_entries (k_sched k') = (g_entries (k_sched k1))[i := (g_entries (k_sched k1) ! i)\<lparr> en_ctx := c' \<rparr>]"
    "(c', c1) \<in> ctx_less\<^sup>+ \<or> c' = c1"
    using assms(2) by (auto simp: ran_def)
  then have "(c', c) \<in> ctx_less\<^sup>+" using assms(3) by (auto intro: trancl_into_trancl)
  then show ?thesis using assms(1,2) c'(1) by (auto simp: ran_def moves_def sched_moves_def intro: rtranclp_trans)
qed

fun called_moves :: "kern \<Rightarrow> called \<Rightarrow> bool" where
  "called_moves k (Answer a k') \<longleftrightarrow> moves k (g_current_index (k_sched k)) k'"
| "called_moves k (Suspended s k') \<longleftrightarrow> moves k None k'"
| "called_moves k (Switched a k') \<longleftrightarrow> moves k None k'"

lemma of_outcome_moves: "outcome_moves k oc \<Longrightarrow> called_moves k (of_outcome oc)"
  by (cases oc) auto

lemma port_call_moves:
  assumes k: "kern_ok k" and "ports_wf p"
  shows "moves k (g_current_index (k_sched k)) (k\<lparr> k_ports := p \<rparr>)"
  using moves_same [OF k, of "k\<lparr> k_ports := p \<rparr>"] assms(2) by simp

lemma yield_ports: "k_ports (snd (proc_yield k)) = k_ports k"
  by (simp add: proc_yield_def switch_to_scheduler_def set_sched_def ready_push_def k_set_state_def split: option.split)

lemma exit_ports: "k_ports (snd (proc_exit code k)) = k_ports k"
  by (simp add: proc_exit_def switch_to_scheduler_def set_sched_def ready_drop_def k_set_state_def k_set_exit_code_def Let_def
      split: option.split)

lemma exec_call_moves:
  assumes k: "kern_ok k" and i: "g_current_index (k_sched k) = Some i"
  shows "called_moves k (exec_call c k)"
proof (cases c)
  case (C_Port_Create s cs cr)
  have "ports_wf (snd (snd (ipc_port_create s cs cr True (k_ports k))))"
    using ports.step_wf [of "k_ports k" "P_Create s cs cr"] k by (simp add: kern_ok_def port_step.simps)
  then show ?thesis using C_Port_Create port_call_moves [OF k] by (auto split: prod.splits)
next
  case (C_Port_Destroy h)
  have "ports_wf (snd (ipc_port_destroy h (k_ports k)))"
    using ports.step_wf [of "k_ports k" "P_Destroy h"] k by (simp add: kern_ok_def port_step.simps)
  then show ?thesis using C_Port_Destroy port_call_moves [OF k] by (auto split: prod.splits)
next
  case C_Yield
  then show ?thesis using proc_yield_moves [OF _ i] k yield_ports [of k]
    by (auto simp: kern_ok_def switched_def moves_def sched_moves_def)
next
  case (C_Exit code)
  then show ?thesis using proc_exit_moves [OF _ i, of code] k exit_ports [of code k]
    by (auto simp: kern_ok_def switched_def moves_def sched_moves_def)
qed (simp_all add: of_outcome_moves ipc_send_moves ipc_recv_moves ipc_call_moves ipc_send_h_moves ipc_recv_h_moves k)

lemma run_prog_ran:
  assumes "kern_ok k" "g_current_index (k_sched k) = Some i"
  shows "ran i k (Run p) (run_prog i p k)"
  using assms
proof (induction p arbitrary: k)
  case Return
  have "sched_ok k" using Return.prems by (simp add: kern_ok_def)
  from proc_exit_moves [OF this Return.prems(2), of 0]
  obtain k' where k': "proc_exit 0 k = (PROC_SCHED_OK, k')" "sched_moves k k'" "g_current_index (k_sched k') = None"
    "g_ready_count (k_sched k') \<le> g_ready_count (k_sched k)" by blast
  then have "moves k None k'" using exit_ports [of 0 k] Return.prems by (simp add: moves_def kern_ok_def sched_moves_def)
  then show ?case using k' by (auto intro: ran_save)
next
  case (Call c f)
  have m: "called_moves k (exec_call c k)" by (rule exec_call_moves [OF Call.prems])
  show ?case
  proof (cases "exec_call c k")
    case (Answer a k1)
    then have k1: "moves k (Some i) k1" using m Call.prems by simp
    have "ran i k1 (Run (f a)) (run_prog i (f a) k1)" by (rule Call.IH) (use k1 in \<open>auto simp: moves_def\<close>)
    then show ?thesis using Answer ran_after [OF k1] ctx_less.intros(1) by simp
  next
    case (Suspended s k1)
    then show ?thesis using m ran_save [of k k1 "Susp s f" "Run (Call c f)" i] ctx_less.intros(2) [of s f c] by auto
  next
    case (Switched a k1)
    then show ?thesis using m ran_save [of k k1 "Run (f a)" "Run (Call c f)" i] ctx_less.intros(1) [of f a c] by auto
  qed
qed

lemma run_ctx_ran:
  assumes k: "kern_ok k" and i: "g_current_index (k_sched k) = Some i"
  shows "ran i k c (run_ctx i c k)"
proof (cases c)
  case (Run p)
  then show ?thesis using run_prog_ran [OF k i] by simp
next
  case (Susp s f)
  have m: "outcome_moves k (ipc_resume s k)" by (rule ipc_resume_moves(1) [OF k])
  show ?thesis
  proof (cases "ipc_resume s k")
    case (Done r out k1)
    then have k1: "moves k (Some i) k1" using m i by simp
    then have "ran i k1 (Run (f (R_Ipc r out))) (run_prog i (f (R_Ipc r out)) k1)" by (intro run_prog_ran) (auto simp: moves_def)
    then show ?thesis using Susp Done ran_after [OF k1 _ ctx_less.intros(3)] by simp
  next
    case (Wait s' k1)
    then have "moves k None k1" using m by simp
    moreover have "(Susp s' f, c) \<in> ctx_less\<^sup>+ \<or> Susp s' f = c \<and> g_ready_count (k_sched k1) \<le> g_ready_count (k_sched k)"
      using ipc_resume_moves(2) [OF k Wait] Susp by (auto intro: ctx_less.intros(4))
    ultimately show ?thesis using Susp Wait ran_save by simp
  qed
qed

subsection \<open>One dispatch\<close>

definition unstarted :: "kern \<Rightarrow> nat" where
  "unstarted k = length (filter (\<lambda>e. \<not> en_started e) (g_entries (k_sched k)))"

definition run_order :: "(kern \<times> kern) set" where
  "run_order = inv_image (less_than <*lex*> mult1 (ctx_less\<^sup>+) <*lex*> less_than)
     (\<lambda>k. (unstarted k, mset (map en_ctx (g_entries (k_sched k))), g_ready_count (k_sched k)))"

lemma wf_run_order: "wf run_order"
  unfolding run_order_def by (intro wf_inv_image wf_lex_prod wf_less_than wf_mult1 wf_trancl wf_ctx_less)

definition dispatched :: "kern \<Rightarrow> kern \<Rightarrow> bool" where
  "dispatched k k' \<longleftrightarrow> kern_ok k' \<and> g_current_index (k_sched k') = None \<and> sched_steps (view k) (view k') \<and> (k', k) \<in> run_order"

lemma mult1_ctx:
  assumes "i < length es" "(c', en_ctx (es ! i)) \<in> ctx_less\<^sup>+"
  shows "(mset (map en_ctx (es[i := (es ! i)\<lparr> en_ctx := c' \<rparr>])), mset (map en_ctx es)) \<in> mult1 (ctx_less\<^sup>+)"
proof -
  let ?M = "mset (map en_ctx es) - {# en_ctx (es ! i) #}"
  have "map en_ctx es ! i \<in># mset (map en_ctx es)" using assms(1) by (intro nth_mem_mset) simp
  then have "mset (map en_ctx es) = add_mset (en_ctx (es ! i)) ?M" using assms(1) by simp
  moreover have "mset (map en_ctx (es[i := (es ! i)\<lparr> en_ctx := c' \<rparr>])) = ?M + {# c' #}"
    using assms(1) by (simp add: map_update mset_update)
  ultimately show ?thesis by (rule mult1I) (use assms(2) in auto)
qed

lemma started_count:
  assumes "i < length es" "\<not> en_started (es ! i)" "en_started e"
  shows "length (filter (\<lambda>e. \<not> en_started e) (es[i := e])) < length (filter (\<lambda>e. \<not> en_started e) es)"
proof -
  have "es = take i es @ es ! i # drop (Suc i) es" by (rule id_take_nth_drop [OF assms(1)])
  then have "filter (\<lambda>e. \<not> en_started e) es = filter (\<lambda>e. \<not> en_started e) (take i es) @ es ! i # filter (\<lambda>e. \<not> en_started e) (drop (Suc i) es)"
    using assms(2) by (metis (mono_tags, lifting) filter.simps(2) filter_append)
  then show ?thesis using assms(1,3) by (simp add: upd_conv_take_nth_drop)
qed

lemma ctx_count:
  assumes "i < length es"
  shows "length (filter (\<lambda>e. \<not> en_started e) (es[i := (es ! i)\<lparr> en_ctx := c \<rparr>])) = length (filter (\<lambda>e. \<not> en_started e) es)"
proof -
  have "map en_started (es[i := (es ! i)\<lparr> en_ctx := c \<rparr>]) = map en_started es"
    using assms by (simp add: map_update list_update_same_conv)
  then have "length (filter Not (map en_started (es[i := (es ! i)\<lparr> en_ctx := c \<rparr>]))) = length (filter Not (map en_started es))" by simp
  then show ?thesis by (simp add: filter_map comp_def)
qed

lemma ready_pop_effect:
  assumes "sched_shape k"
  shows "ready_pop k = (None, k') \<Longrightarrow> k' = k \<and> ready_list (k_sched k) = []"
    and "ready_pop k = (Some i, k') \<Longrightarrow> \<exists>q. view k = (i # q, g_current_index (k_sched k), pcb_of k) \<and> sched_shape k' \<and>
      view k' = (q, g_current_index (k_sched k), pcb_of k) \<and> g_entries (k_sched k') = g_entries (k_sched k) \<and>
      k' = k\<lparr> k_sched := k_sched k' \<rparr> \<and> g_ready_count (k_sched k) = Suc (length q)"
proof -
  show "ready_pop k = (None, k') \<Longrightarrow> k' = k \<and> ready_list (k_sched k) = []"
    by (auto simp: ready_pop_def ready_list_def Let_def split: if_splits)
  assume r: "ready_pop k = (Some i, k')"
  let ?f = "\<lambda>s. s\<lparr> g_ready_head := (g_ready_head s + 1) mod PROC_TABLE_MAX, g_ready_count := g_ready_count s - 1 \<rparr>"
  have c: "g_ready_count (k_sched k) > 0" "i = g_ready_ring (k_sched k) ! g_ready_head (k_sched k)" "k' = set_sched ?f k"
    using r by (auto simp: ready_pop_def Let_def split: if_splits)
  have rs: "ring_shape (k_sched k)" using assms by (simp add: sched_shape_def)
  then have l: "ready_list (k_sched k) = i # ready_list (?f (k_sched k))"
    using ready_list_pop [OF c(1)] c(2) by (simp add: ring_shape_def)
  have rs': "ring_shape (?f (k_sched k))" using rs by (simp add: ring_shape_def)
  show "\<exists>q. view k = (i # q, g_current_index (k_sched k), pcb_of k) \<and> sched_shape k' \<and>
      view k' = (q, g_current_index (k_sched k), pcb_of k) \<and> g_entries (k_sched k') = g_entries (k_sched k) \<and>
      k' = k\<lparr> k_sched := k_sched k' \<rparr> \<and> g_ready_count (k_sched k) = Suc (length q)"
    using set_sched_effect [of k ?f] assms rs' l c(1) unfolding c(3)
    by (intro exI [of _ "ready_list (?f (k_sched k))"]) (simp add: view_def, simp add: set_sched_def)
qed

lemma set_ports [simp]:
  "k_ports (k_set_state pid st k) = k_ports k" "k_ports (k_set_exit_code pid code k) = k_ports k"
  "k_ports (set_current c k) = k_ports k" "k_ports (ready_drop i k) = k_ports k"
  by (simp_all add: k_set_state_def k_set_exit_code_def set_current_def ready_drop_def)

lemma count_view: "view k = (q, c, m) \<Longrightarrow> g_ready_count (k_sched k) = length q"
  using length_ready_list [of "k_sched k"] by (simp add: view_def)

lemma ran_order:
  assumes "ran i k c k'" "i < length (g_entries (k_sched k))" "en_ctx (g_entries (k_sched k) ! i) = c"
    and "g_entries (k_sched k) = g_entries (k_sched k0)" "g_ready_count (k_sched k) < g_ready_count (k_sched k0)"
  shows "(k', k0) \<in> run_order"
proof -
  obtain c' where e: "g_entries (k_sched k') = (g_entries (k_sched k0))[i := (g_entries (k_sched k0) ! i)\<lparr> en_ctx := c' \<rparr>]"
    and c': "(c', c) \<in> ctx_less\<^sup>+ \<or> c' = c \<and> g_ready_count (k_sched k') \<le> g_ready_count (k_sched k)"
    using assms(1,4) by (auto simp: ran_def)
  have i: "i < length (g_entries (k_sched k0))" and ctx: "en_ctx (g_entries (k_sched k0) ! i) = c" using assms by auto
  have u: "unstarted k' = unstarted k0" using ctx_count [OF i] by (simp add: unstarted_def e)
  from c' show ?thesis
  proof
    assume "(c', c) \<in> ctx_less\<^sup>+"
    then show ?thesis using mult1_ctx [OF i, of c'] ctx u by (simp add: run_order_def e)
  next
    assume c: "c' = c \<and> g_ready_count (k_sched k') \<le> g_ready_count (k_sched k)"
    then have "(g_entries (k_sched k0) ! i)\<lparr> en_ctx := c' \<rparr> = g_entries (k_sched k0) ! i" using ctx by simp
    then have "g_entries (k_sched k') = g_entries (k_sched k0)" using e by simp
    then show ?thesis using c u assms(5) by (simp add: run_order_def)
  qed
qed

lemma fewer_ready:
  "g_entries (k_sched k') = g_entries (k_sched k) \<Longrightarrow> g_ready_count (k_sched k') < g_ready_count (k_sched k) \<Longrightarrow> (k', k) \<in> run_order"
  by (simp add: run_order_def unstarted_def)

lemma popped_snap:
  assumes "sched_shape k" "idx < PROC_TABLE_MAX" "en_in_use (k_entry idx k)"
  shows "proc_snap (en_pid (k_entry idx k)) k = map_option (\<lambda>b. \<lparr> pr_pid = en_pid (k_entry idx k), pr_subject = pcb_subject b,
     pr_aspace = pcb_aspace b, pr_state = pcb_state b, pr_entry = pcb_entry b, pr_exit_code = pcb_exit_code b,
     pr_blocked_on_port = pcb_blocked_on b \<rparr>) (pcb_of k idx)"
  using assms by (simp add: proc_snap_eq sched_shape_def pcb_of_def)

lemma run_dispatched:
  \<comment> \<open>a process that starts or goes on\<close>
  assumes ok: "kern_ok k0" and k: "sched_shape k" "view k = (q, None, pcb_of k0)" "g_entries (k_sched k) = g_entries (k_sched k0)"
    and v0: "view k0 = (idx # q, None, pcb_of k0)" and b: "pcb_of k0 idx = Some b" "pcb_state b \<noteq> PROC_STATE_EXITED"
    and ports: "k_ports k = k_ports k0"
  defines "k1 \<equiv> k_set_state (en_pid (k_entry idx k)) PROC_STATE_RUNNING (set_current (Some idx) k)"
  shows "kern_ok k1" "g_current_index (k_sched k1) = Some idx" "sched_step (view k0) (view k1)"
    "g_entries (k_sched k1) = g_entries (k_sched k0)" "g_ready_count (k_sched k1) < g_ready_count (k_sched k0)"
    "pcb_of k1 idx = Some (b\<lparr> pcb_state := PROC_STATE_RUNNING \<rparr>)"
proof -
  let ?k = "set_current (Some idx) k"
  have c: "sched_shape ?k" "view ?k = (q, Some idx, pcb_of k0)" "g_entries (k_sched ?k) = g_entries (k_sched k)"
    using set_current_effect [OF k(1,2), of "Some idx"] by (simp_all add: set_current_def)
  then have m: "pcb_of ?k = pcb_of k0" and pid: "en_pid (k_entry idx k) = en_pid (k_entry idx ?k)"
    by (simp_all add: view_def k_entry_def)
  have e: "sched_shape k1" "pcb_of k1 = (pcb_of k0)(idx \<mapsto> b\<lparr> pcb_state := PROC_STATE_RUNNING \<rparr>)"
    using k_set_effect(1) [OF c(1), of idx b PROC_STATE_RUNNING] b m by (simp_all add: k1_def pid)
  then have v: "view k1 = (q, Some idx, (pcb_of k0)(idx \<mapsto> b\<lparr> pcb_state := PROC_STATE_RUNNING \<rparr>))"
    using c(2) by (simp add: view_def k1_def)
  show s: "sched_step (view k0) (view k1)" unfolding v v0 by (rule sched_step.Dispatch [of "pcb_of k0", OF b])
  show en: "g_entries (k_sched k1) = g_entries (k_sched k0)" using c(3) k(3) by (simp add: k1_def)
  show "kern_ok k1" using sched_moves_step [OF _ e(1) en s] ok ports by (simp add: kern_ok_def sched_moves_def k1_def)
  show "g_current_index (k_sched k1) = Some idx" "pcb_of k1 idx = Some (b\<lparr> pcb_state := PROC_STATE_RUNNING \<rparr>)"
    using v by (simp_all add: view_def)
  show "g_ready_count (k_sched k1) < g_ready_count (k_sched k0)" using count_view [OF v] count_view [OF v0] by simp
qed

lemma skip_dispatched:
  assumes ok: "kern_ok k0" and k: "sched_shape k" "view k = (q, None, pcb_of k0)" "g_entries (k_sched k) = g_entries (k_sched k0)"
    and v0: "view k0 = (idx # q, None, pcb_of k0)" and ports: "k_ports k = k_ports k0"
    and "\<forall>b. pcb_of k0 idx = Some b \<longrightarrow> pcb_state b = PROC_STATE_EXITED"
  shows "dispatched k0 k"
proof -
  have s: "sched_step (view k0) (view k)" unfolding k(2) v0 by (rule sched_step.Skip [of "pcb_of k0", OF assms(7)])
  have "g_ready_count (k_sched k) < g_ready_count (k_sched k0)" using count_view [OF k(2)] count_view [OF v0] by simp
  then show ?thesis using sched_moves_step [OF _ k(1,3) s] ok ports k(2) s fewer_ready [OF k(3)]
    by (simp add: kern_ok_def sched_moves_def dispatched_def view_def)
qed

lemma kill_dispatched:
  assumes ok: "kern_ok k0" and k: "sched_shape k" "view k = (q, None, pcb_of k0)" "g_entries (k_sched k) = g_entries (k_sched k0)"
    and v0: "view k0 = (idx # q, None, pcb_of k0)" and ports: "k_ports k = k_ports k0" and b: "pcb_of k0 idx = Some b"
  defines "pid \<equiv> en_pid (k_entry idx k)"
  shows "dispatched k0 (set_current None (ready_drop idx (k_set_state pid PROC_STATE_EXITED (k_set_exit_code pid code k))))"
proof -
  let ?k1 = "k_set_exit_code pid code k"
  let ?k2 = "k_set_state pid PROC_STATE_EXITED ?k1"
  let ?k3 = "ready_drop idx ?k2"
  let ?k = "set_current None ?k3" and ?b = "b\<lparr> pcb_exit_code := code, pcb_state := PROC_STATE_EXITED \<rparr>"
    and ?q = "filter (\<lambda>j. j \<noteq> idx) q"
  have m: "pcb_of k = pcb_of k0" and rl: "ready_list (k_sched k) = q" and cur: "g_current_index (k_sched k) = None"
    using k(2) by (simp_all add: view_def)
  have bk: "pcb_of k idx = Some b" using b m by simp
  have e1: "sched_shape ?k1" "pcb_of ?k1 = (pcb_of k)(idx \<mapsto> b\<lparr> pcb_exit_code := code \<rparr>)"
    using k_set_effect(2) [OF k(1) bk, of code] by (simp_all add: pid_def)
  then have e2: "sched_shape ?k2" "pcb_of ?k2 = (pcb_of k0)(idx \<mapsto> ?b)"
    using k_set_effect(1) [OF e1(1), of idx "b\<lparr> pcb_exit_code := code \<rparr>" PROC_STATE_EXITED] m by (simp_all add: pid_def)
  have "view_ok (idx # q, None, pcb_of k0)" using ok v0 by (simp add: kern_ok_def sched_ok_def)
  from queue_room(1) [OF this] have "g_ready_count (k_sched ?k2) \<le> PROC_TABLE_MAX"
    using rl length_ready_list [of "k_sched k"] by simp
  from ready_drop_effect [OF e2(1) this, of idx]
  have e3: "sched_shape ?k3" "view ?k3 = (?q, None, (pcb_of k0)(idx \<mapsto> ?b))" "g_entries (k_sched ?k3) = g_entries (k_sched k)"
    using e2(2) rl cur by simp_all
  have e4: "sched_shape ?k" "view ?k = (?q, None, (pcb_of k0)(idx \<mapsto> ?b))" "g_entries (k_sched ?k) = g_entries (k_sched k0)"
    using set_current_effect [OF e3(1,2), of None] e3(3) k(3) by (simp_all add: set_current_def)
  have s: "sched_step (view k0) (view ?k)" unfolding e4(2) v0 by (rule sched_step.Kill [of "pcb_of k0", OF b])
  have "g_ready_count (k_sched ?k) < g_ready_count (k_sched k0)"
    using count_view [OF e4(2)] count_view [OF v0] by (simp add: le_imp_less_Suc)
  then show ?thesis using sched_moves_step [OF _ e4(1,3) s] ok ports e4(2) s fewer_ready [OF e4(3)]
    by (simp add: kern_ok_def sched_moves_def dispatched_def view_def)
qed

lemma start_dispatched:
  \<comment> \<open>a first dispatch\<close>
  assumes ok: "kern_ok k1" "g_current_index (k_sched k1) = Some idx" and s: "sched_step (view k0) (view k1)"
    and en: "g_entries (k_sched k1) = g_entries (k_sched k0)" and i: "idx < length (g_entries (k_sched k0))"
    and st: "\<not> en_started (k_entry idx k1)"
  defines "k2 \<equiv> set_entry idx (\<lambda>e. e\<lparr> en_started := True \<rparr>) k1"
  shows "dispatched k0 (set_current None (run_ctx idx c k2))"
    and "pcb_of k1 idx = Some b \<Longrightarrow> dispatched k0 (set_current None (k_set_state (en_pid (k_entry idx k2)) PROC_STATE_EXITED k2))"
proof -
  note e = set_entry_effect [OF ok(1), of "\<lambda>e. e\<lparr> en_started := True \<rparr>" idx, folded k2_def, simplified]
  have cur: "g_current_index (k_sched k2) = Some idx" using e(4) ok(2) by simp
  have u: "unstarted k' < unstarted k0" if "map en_started (g_entries (k_sched k')) = map en_started (g_entries (k_sched k2))" for k'
  proof -
    have "unstarted k' = length (filter Not (map en_started (g_entries (k_sched k'))))"
      "unstarted k2 = length (filter Not (map en_started (g_entries (k_sched k2))))"
      by (simp_all add: unstarted_def filter_map comp_def)
    then have "unstarted k' = unstarted k2" using that by simp
    then show ?thesis using started_count [of idx "g_entries (k_sched k0)"] i st e(3) en by (simp add: unstarted_def k_entry_def)
  qed
  have r: "ran idx k2 c (run_ctx idx c k2)" by (rule run_ctx_ran [OF e(1) cur])
  let ?k = "run_ctx idx c k2"
  have "map en_started (g_entries (k_sched ?k)) = map en_started (g_entries (k_sched k2))"
    using r e(3) en i by (auto simp: ran_def map_update list_update_same_conv)
  then have "unstarted (set_current None ?k) < unstarted k0" using u by (simp add: set_current_def)
  moreover have "kern_ok ?k" "g_current_index (k_sched ?k) = None" "sched_steps (view k2) (view ?k)" using r by (simp_all add: ran_def)
  moreover have "kern_ok (set_current None ?k) \<and> view (set_current None ?k) = view ?k"
    using calculation(2,3) sched_cong [of "set_current None ?k" ?k] by (simp add: set_current_def kern_ok_def)
  moreover have "sched_steps (view k0) (view ?k)"
    using s calculation(4) unfolding e(2) by (rule converse_rtranclp_into_rtranclp)
  ultimately show "dispatched k0 (set_current None ?k)" by (simp add: dispatched_def run_order_def set_current_def)
  assume b: "pcb_of k1 idx = Some b"
  then have b2: "pcb_of k2 idx = Some b" using e(2) by (simp add: view_def)
  have sh: "sched_shape k2" using e(1) by (simp add: kern_ok_def sched_ok_def)
  let ?k3 = "k_set_state (en_pid (k_entry idx k2)) PROC_STATE_EXITED k2"
  let ?k = "set_current None ?k3"
  note f = k_set_effect(1) [OF sh b2, of PROC_STATE_EXITED]
  then have v3: "view ?k3 = (ready_list (k_sched k2), Some idx, (pcb_of k2)(idx \<mapsto> b\<lparr> pcb_state := PROC_STATE_EXITED \<rparr>))"
    using cur by (simp add: view_def)
  have e4: "sched_shape ?k" "view ?k = (ready_list (k_sched k2), None, (pcb_of k2)(idx \<mapsto> b\<lparr> pcb_state := PROC_STATE_EXITED \<rparr>))"
    "g_entries (k_sched ?k) = g_entries (k_sched k2)"
    using set_current_effect [OF conjunct1 [OF f] v3, of None] by (simp_all add: set_current_def)
  have st2: "sched_step (view k2) (view ?k)" unfolding e4(2) view_running [OF cur] by (rule sched_step.Fail [of "pcb_of k2", OF b2])
  have "sched_moves k2 ?k" using e(1) by (intro sched_moves_step e4(1,3) st2) (simp add: kern_ok_def)
  then have "kern_ok ?k" using e(1) by (simp add: kern_ok_def sched_moves_def)
  moreover have "sched_steps (view k0) (view ?k)" using s st2 unfolding e(2) by (meson converse_rtranclp_into_rtranclp r_into_rtranclp)
  moreover have "g_current_index (k_sched ?k) = None" by (simp add: set_current_def)
  ultimately show "dispatched k0 ?k" using u [of ?k] e4(3) by (simp add: dispatched_def run_order_def)
qed

definition popped :: "kern \<Rightarrow> nat \<Rightarrow> nat list \<Rightarrow> kern \<Rightarrow> bool" where
  \<comment> \<open>\<open>k\<close> is \<open>k0\<close> without the head \<open>idx\<close> of its queue\<close>
  "popped k0 idx q k \<longleftrightarrow> kern_ok k0 \<and> view k0 = (idx # q, None, pcb_of k0) \<and> sched_shape k \<and> view k = (q, None, pcb_of k0) \<and>
     g_entries (k_sched k) = g_entries (k_sched k0) \<and> k_ports k = k_ports k0 \<and>
     idx < length (g_entries (k_sched k0)) \<and>
     proc_snap (en_pid (k_entry idx k)) k = map_option (\<lambda>b. \<lparr> pr_pid = en_pid (k_entry idx k), pr_subject = pcb_subject b,
       pr_aspace = pcb_aspace b, pr_state = pcb_state b, pr_entry = pcb_entry b, pr_exit_code = pcb_exit_code b,
       pr_blocked_on_port = pcb_blocked_on b \<rparr>) (pcb_of k0 idx) \<and>
     (\<forall>b. pcb_of k0 idx = Some b \<longrightarrow> pcb_state b = PROC_STATE_READY)"

lemma ready_pop_popped:
  assumes ok: "kern_ok k0" and cur: "g_current_index (k_sched k0) = None" and pop: "ready_pop k0 = (Some idx, k)"
  shows "\<exists>q. popped k0 idx q k"
proof -
  have s0: "sched_shape k0" and v0ok: "view_ok (view k0)" using ok by (simp_all add: kern_ok_def sched_ok_def)
  obtain q where v0: "view k0 = (idx # q, None, pcb_of k0)" and k: "sched_shape k" "view k = (q, None, pcb_of k0)"
    "g_entries (k_sched k) = g_entries (k_sched k0)" and k': "k = k0\<lparr> k_sched := k_sched k \<rparr>"
    using ready_pop_effect(2) [OF s0 pop] cur by auto
  have ports: "k_ports k = k_ports k0" by (subst k') simp
  have ri: "idx \<in> set (ready_list (k_sched k0))" using v0 by (simp add: view_def)
  then have idx: "idx < PROC_TABLE_MAX" and use: "en_in_use (k_entry idx k)"
    using view_ok_facts(3) [OF v0ok [unfolded v0]] ok k(3) by (simp_all add: kern_ok_def sched_ok_def k_entry_def)
  have m: "pcb_of k = pcb_of k0" using k(2) by (simp add: view_def)
  have len: "idx < length (g_entries (k_sched k0))" using s0 idx by (simp add: sched_shape_def)
  have ready: "pcb_state b = PROC_STATE_READY" if "pcb_of k0 idx = Some b" for b
    using view_ok_facts(2) [OF v0ok [unfolded v0], of idx b] that by simp
  show ?thesis using popped_snap [OF k(1) idx use] m ok v0 k ports len ready unfolding popped_def by simp
qed

lemma dispatch_bad_window:
  assumes p: "popped k0 idx q k" and b: "pcb_of k0 idx = Some b" and w: "\<not> aspace_invariant_ok (k_aspace (pcb_aspace b) k)"
  shows "sched_dispatch idx k = (False, k') \<Longrightarrow> dispatched k0 k'"
    and "sched_dispatch idx k = (True, k') \<Longrightarrow> \<not> g_aspace_panic_hook (k_sched k') \<and> pcb_of k' = pcb_of k0 \<and> k_aspaces k' = k_aspaces k"
proof -
  let ?pid = "en_pid (k_entry idx k)"
  have snap: "proc_snap ?pid k = Some \<lparr> pr_pid = ?pid, pr_subject = pcb_subject b, pr_aspace = pcb_aspace b, pr_state = pcb_state b,
      pr_entry = pcb_entry b, pr_exit_code = pcb_exit_code b, pr_blocked_on_port = pcb_blocked_on b \<rparr>"
    and st: "pcb_state b \<noteq> PROC_STATE_EXITED"
    using p b by (simp_all add: popped_def)
  let ?r = "aspace_invariant_panic ?pid (k_aspace (pcb_aspace b) k) k"
  have same: "k_sched (snd ?r) = k_sched k" "k_procs (snd ?r) = k_procs k" "k_ports (snd ?r) = k_ports k"
    "k_entry idx (snd ?r) = k_entry idx k" "k_aspaces (snd ?r) = k_aspaces k"
    by (simp_all add: aspace_invariant_panic_def k_print_def Let_def k_entry_def)
  note cong = sched_cong(2,3) [OF same(1,2)]
  have f: "fst ?r \<longleftrightarrow> \<not> g_aspace_panic_hook (k_sched k)" by (simp add: aspace_invariant_panic_def Let_def)
  have d: "sched_dispatch idx k = (if fst ?r then (True, snd ?r) else
      (False, set_current None (ready_drop idx (k_set_state ?pid PROC_STATE_EXITED (k_set_exit_code ?pid 0xFFFFFFFF (snd ?r))))))"
    using snap st w by (simp add: sched_dispatch_def split_beta Let_def)
  show "dispatched k0 k'" if "sched_dispatch idx k = (False, k')"
    using that d kill_dispatched [of k0 "snd ?r" q idx b "0xFFFFFFFF"] p b cong same by (auto simp: popped_def split: if_splits)
  assume "sched_dispatch idx k = (True, k')"
  then have "k' = snd ?r" "fst ?r" using d by (auto split: if_splits)
  moreover have "pcb_of (snd ?r) = pcb_of k0" using cong(1) p by (simp add: popped_def view_def)
  ultimately show "\<not> g_aspace_panic_hook (k_sched k') \<and> pcb_of k' = pcb_of k0 \<and> k_aspaces k' = k_aspaces k" using same f by simp
qed

lemma dispatch_runs:
  assumes p: "popped k0 idx q k" and b: "pcb_of k0 idx = Some b" and w: "aspace_invariant_ok (k_aspace (pcb_aspace b) k)"
  shows "\<not> fst (sched_dispatch idx k) \<and> dispatched k0 (snd (sched_dispatch idx k))"
proof -
  let ?pid = "en_pid (k_entry idx k)" and ?d = "sched_dispatch idx k"
  let ?k1 = "k_set_state ?pid PROC_STATE_RUNNING (set_current (Some idx) k)"
  have snap: "proc_snap ?pid k = Some \<lparr> pr_pid = ?pid, pr_subject = pcb_subject b, pr_aspace = pcb_aspace b, pr_state = pcb_state b,
      pr_entry = pcb_entry b, pr_exit_code = pcb_exit_code b, pr_blocked_on_port = pcb_blocked_on b \<rparr>"
    and st: "pcb_state b \<noteq> PROC_STATE_EXITED" and len: "idx < length (g_entries (k_sched k0))"
    and en: "g_entries (k_sched k) = g_entries (k_sched k0)"
    using p b by (simp_all add: popped_def)
  have rr: "kern_ok ?k1" "g_current_index (k_sched ?k1) = Some idx" "sched_step (view k0) (view ?k1)"
    "g_entries (k_sched ?k1) = g_entries (k_sched k0)" "g_ready_count (k_sched ?k1) < g_ready_count (k_sched k0)"
    "pcb_of ?k1 idx = Some (b\<lparr> pcb_state := PROC_STATE_RUNNING \<rparr>)"
    using run_dispatched [of k0 k q idx b] p b st by (simp_all add: popped_def)
  show ?thesis
  proof (cases "en_started (k_entry idx ?k1)")
    case True
    have d: "?d = (False, set_current None (run_ctx idx (en_ctx (k_entry idx ?k1)) ?k1))"
      using snap st w True by (simp add: sched_dispatch_def Let_def)
    have ran: "ran idx ?k1 (en_ctx (k_entry idx ?k1)) (run_ctx idx (en_ctx (k_entry idx ?k1)) ?k1)" (is "ran _ _ _ ?kr")
      by (rule run_ctx_ran [OF rr(1,2)])
    have "(?kr, k0) \<in> run_order" by (rule ran_order [OF ran _ _ rr(4,5)]) (use rr(4) len in \<open>simp_all add: k_entry_def\<close>)
    moreover have "sched_steps (view k0) (view ?kr)" using rr(3) ran by (auto simp: ran_def intro: converse_rtranclp_into_rtranclp)
    moreover have "k_sched (set_current None ?kr) = k_sched ?kr" "k_procs (set_current None ?kr) = k_procs ?kr"
      using ran by (simp_all add: ran_def set_current_def)
    ultimately show ?thesis using d ran sched_cong [of "set_current None ?kr" ?kr]
      by (simp add: dispatched_def ran_def run_order_def unstarted_def kern_ok_def)
  next
    case False
    let ?k2 = "set_entry idx (\<lambda>e. e\<lparr> en_started := True \<rparr>) ?k1"
    have pid: "en_pid (k_entry idx ?k2) = ?pid" using len rr(4) by (simp add: k_entry_def set_entry_def set_current_def en)
    note sd = start_dispatched [OF rr(1,2,3,4) len False]
    have "?d = (False, set_current None (if k_getcontext_ok ?k2 then run_ctx idx (sched_trampoline ?pid ?k2) ?k2
        else k_set_state ?pid PROC_STATE_EXITED ?k2))"
      using snap st w False by (simp add: sched_dispatch_def Let_def)
    then show ?thesis using sd(1) sd(2) [OF rr(6)] pid by simp
  qed
qed

lemma sched_dispatch_ok:
  assumes ok: "kern_ok k0" and cur: "g_current_index (k_sched k0) = None" and pop: "ready_pop k0 = (Some idx, k)"
  shows "sched_dispatch idx k = (False, k') \<Longrightarrow> dispatched k0 k'"
    and "sched_dispatch idx k = (True, k') \<Longrightarrow> \<not> g_aspace_panic_hook (k_sched k') \<and>
      (\<exists>b. pcb_of k' idx = Some b \<and> pcb_state b = PROC_STATE_READY \<and> \<not> aspace_invariant_ok (k_aspace (pcb_aspace b) k'))"
proof -
  obtain q where p: "popped k0 idx q k" using ready_pop_popped [OF assms] by blast
  have none: "sched_dispatch idx k = (False, k) \<and> dispatched k0 k" if "pcb_of k0 idx = None"
    using skip_dispatched [of k0 k q idx] p that by (simp add: popped_def sched_dispatch_def)
  show "dispatched k0 k'" if d: "sched_dispatch idx k = (False, k')"
  proof (cases "pcb_of k0 idx")
    case None
    then show ?thesis using none d by simp
  next
    case (Some b)
    then show ?thesis using dispatch_bad_window(1) [OF p Some _ d] dispatch_runs [OF p Some] d
      by (cases "aspace_invariant_ok (k_aspace (pcb_aspace b) k)") auto
  qed
  assume d: "sched_dispatch idx k = (True, k')"
  then obtain b where b: "pcb_of k0 idx = Some b" using none by (cases "pcb_of k0 idx") auto
  have w: "\<not> aspace_invariant_ok (k_aspace (pcb_aspace b) k)" using dispatch_runs [OF p b] d by auto
  note a = dispatch_bad_window(2) [OF p b w d]
  then have "k_aspace (pcb_aspace b) k' = k_aspace (pcb_aspace b) k" by (simp add: k_aspace_def)
  then show "\<not> g_aspace_panic_hook (k_sched k') \<and>
      (\<exists>b. pcb_of k' idx = Some b \<and> pcb_state b = PROC_STATE_READY \<and> \<not> aspace_invariant_ok (k_aspace (pcb_aspace b) k'))"
    using a b w p by (auto simp: popped_def)
qed

subsection \<open>The loop\<close>

lemma count_live_0:
  assumes "sched_shape k"
  shows "count_live k = 0 \<longleftrightarrow> (\<forall>i b. pcb_of k i = Some b \<longrightarrow> pcb_state b = PROC_STATE_EXITED)"
proof -
  have p: "procs_wf (k_procs k)" and len: "length (g_entries (k_sched k)) = PROC_TABLE_MAX" using assms by (simp_all add: sched_shape_def)
  have "count_live k = 0 \<longleftrightarrow> (\<forall>i<PROC_TABLE_MAX. \<not> (en_in_use (k_entry i k) \<and>
      (case proc_snap (en_pid (k_entry i k)) k of None \<Rightarrow> False | Some snap \<Rightarrow> pr_state snap \<noteq> PROC_STATE_EXITED)))"
    using len by (simp add: count_live_def count_entries_def filter_empty_conv all_set_conv_all_nth k_entry_def)
  also have "\<dots> \<longleftrightarrow> (\<forall>i b. pcb_of k i = Some b \<longrightarrow> pcb_state b = PROC_STATE_EXITED)"
    by (auto simp: proc_snap_eq [OF p] pcb_of_def split: option.splits if_splits)
  finally show ?thesis .
qed

definition settled :: "kern \<Rightarrow> kern \<Rightarrow> run_end \<Rightarrow> bool" where
  \<comment> \<open>how a run that started in \<open>k\<close> may end\<close>
  "settled k k' e = (case e of
     Aborted \<Rightarrow> \<not> g_aspace_panic_hook (k_sched k') \<and>
       (\<exists>i b. pcb_of k' i = Some b \<and> pcb_state b = PROC_STATE_READY \<and> \<not> aspace_invariant_ok (k_aspace (pcb_aspace b) k'))
   | Ended r \<Rightarrow> kern_ok k' \<and> g_current_index (k_sched k') = None \<and> \<not> g_dispatching (k_sched k') \<and> ready_list (k_sched k') = [] \<and>
       sched_steps (view k) (view k') \<and>
       (\<forall>i b. pcb_of k' i = Some b \<longrightarrow>
          pcb_state b = PROC_STATE_EXITED \<or> pcb_state b = PROC_STATE_BLOCKED \<and> pcb_blocked_on b \<noteq> None) \<and>
       r = (if \<exists>i b. pcb_of k' i = Some b \<and> pcb_state b = PROC_STATE_BLOCKED then PROC_SCHED_ERR_DEADLOCK else PROC_SCHED_OK))"

lemma set_dispatching:
  "kern_ok (set_sched (\<lambda>s. s\<lparr> g_dispatching := d \<rparr>) k) = kern_ok k"
  "view (set_sched (\<lambda>s. s\<lparr> g_dispatching := d \<rparr>) k) = view k"
  "pcb_of (set_sched (\<lambda>s. s\<lparr> g_dispatching := d \<rparr>) k) = pcb_of k"
proof -
  let ?k = "set_sched (\<lambda>s. s\<lparr> g_dispatching := d \<rparr>) k"
  have p: "pcb_of ?k = pcb_of k" and e: "k_entry i ?k = k_entry i k" for i by (auto simp: pcb_of_def k_entry_def fun_eq_iff)
  have r: "ready_list (k_sched ?k) = ready_list (k_sched k)" "ring_shape (k_sched ?k) = ring_shape (k_sched k)"
    by (simp_all add: ready_list_def ring_shape_def)
  then show "view ?k = view k" "pcb_of ?k = pcb_of k" using p by (simp_all add: view_def)
  then show "kern_ok ?k = kern_ok k" using e r by (simp add: kern_ok_def sched_ok_def sched_shape_def)
qed

lemma settled_idle:
  assumes ok: "kern_ok k" and cur: "g_current_index (k_sched k) = None" and q: "ready_list (k_sched k) = []"
  shows "settled k (set_sched (\<lambda>s. s\<lparr> g_dispatching := False \<rparr>) k)
    (Ended (if count_live k = 0 then PROC_SCHED_OK else PROC_SCHED_ERR_DEADLOCK))"
proof -
  have v: "view_ok ([], None, pcb_of k)" and sh: "sched_shape k" using ok cur q by (simp_all add: kern_ok_def sched_ok_def view_def)
  have st: "pcb_state b = PROC_STATE_EXITED \<or> pcb_state b = PROC_STATE_BLOCKED \<and> pcb_blocked_on b \<noteq> None"
    if "pcb_of k i = Some b" for i b
    using view_ok_facts(5) [OF v that] by (simp add: fits_def split: process_state_t.splits)
  then have "count_live k = 0 \<longleftrightarrow> \<not> (\<exists>i b. pcb_of k i = Some b \<and> pcb_state b = PROC_STATE_BLOCKED)"
    unfolding count_live_0 [OF sh] by fastforce
  moreover have "ready_list (k_sched (set_sched (\<lambda>s. s\<lparr> g_dispatching := False \<rparr>) k)) = []" using q by (simp add: ready_list_def)
  ultimately show ?thesis using ok cur st by (auto simp: settled_def set_dispatching)
qed

lemma sched_loop_settles:
  assumes "kern_ok k" "g_current_index (k_sched k) = None"
  shows "\<exists>e k'. sched_loop k = Some (e, k') \<and> settled k k' e"
  using assms
proof (induction k rule: wf_induct_rule [OF wf_run_order])
  case (1 k)
  have sh: "sched_shape k" using 1(2) by (simp add: kern_ok_def sched_ok_def)
  obtain oi k1 where pop: "ready_pop k = (oi, k1)" by (cases "ready_pop k")
  show ?case
  proof (cases oi)
    case None
    then have "k1 = k" "ready_list (k_sched k) = []" using ready_pop_effect(1) [OF sh] pop by auto
    then show ?thesis using settled_idle [OF 1(2,3)] pop None
      by (subst sched_loop.simps) (auto simp: Let_def)
  next
    case (Some idx)
    note pop' = pop [unfolded Some]
    obtain ab k2 where d: "sched_dispatch idx k1 = (ab, k2)" by (cases "sched_dispatch idx k1")
    show ?thesis
    proof (cases ab)
      case True
      then show ?thesis using sched_dispatch_ok(2) [OF 1(2,3) pop'] d pop'
        by (subst sched_loop.simps) (auto simp: settled_def)
    next
      case False
      then have k2: "dispatched k k2" using sched_dispatch_ok(1) [OF 1(2,3) pop'] d by simp
      then obtain e k' where "sched_loop k2 = Some (e, k')" "settled k2 k' e" using 1(1) [of k2] by (auto simp: dispatched_def)
      moreover have "settled k k' e" using \<open>settled k2 k' e\<close> k2
        by (auto simp: settled_def dispatched_def intro: rtranclp_trans split: run_end.splits)
      moreover have "sched_loop k = sched_loop k2" using pop' d False by (subst sched_loop.simps) simp
      ultimately show ?thesis by simp
    qed
  qed
qed

section \<open>Properties\<close>

text \<open>
  C27: The scheduler returns.  Whatever finite programs the registered processes run, with every mix
  of sends, receives, calls, yields and exits, \<^verbatim>\<open>proc_sched_run\<close> comes back.  Every transition on the way
  is a step of the abstract scheduler.  At the end the ready queue is empty and every registered live
  process has exited or is blocked on a port, and the result is the deadlock code exactly when one is
  blocked.  The only other ending is the panic for a process with a corrupt address-space window, when
  no panic hook is installed.
\<close>

theorem proc_sched_run_returns:
  assumes "kern_ok k" "g_current_index (k_sched k) = None" "\<not> g_dispatching (k_sched k)"
  shows "\<exists>e k'. proc_sched_run k = Some (e, k') \<and> settled k k' e"
proof -
  let ?k = "set_sched (\<lambda>s. s\<lparr> g_dispatching := True \<rparr>) k"
  obtain e k' where l: "sched_loop ?k = Some (e, k')" "settled ?k k' e"
    using sched_loop_settles [of ?k] assms by (auto simp: set_dispatching)
  then have "settled k k' e" by (auto simp: settled_def set_dispatching split: run_end.splits)
  then show ?thesis using l(1) assms(3) by (simp add: proc_sched_run_def)
qed

subsection \<open>A concrete system\<close>

definition spawn :: "cap_subject_id_t \<Rightarrow> pointer \<Rightarrow> pointer \<Rightarrow> kern \<Rightarrow> kern" where
  \<comment> \<open>create a process and register it with the scheduler\<close>
  "spawn s as entry k =
    (case process_create s as True (k_procs k) of
       (PROC_OK, Some pid, _, t) \<Rightarrow> snd (proc_sched_register pid entry (k\<lparr> k_procs := t \<rparr>))
     | _ \<Rightarrow> k)"

definition grant :: "cap_subject_id_t \<Rightarrow> capability_id_t \<Rightarrow> kern \<Rightarrow> kern" where
  "grant s c k = k\<lparr> k_cap := (k_cap k)\<lparr> cap_tab := snd (cap_table_grant s c (cap_tab (k_cap k))) \<rparr> \<rparr>"

text \<open>
  Subjects 1 and 2 send to a port of subject 3: process 1 sends two messages, process 2 sends one,
  process 3 receives three times.
\<close>

definition letter :: "u32 \<Rightarrow> msg_arg" where
  "letter t = Some (0x11000, ipc_msg_zero\<lparr> im_tag := t \<rparr>)"

fun mail_code :: "pointer \<Rightarrow> prog" where
  "mail_code e =
    (if e = 1 then Call (C_Send 1 0x10000 (letter 1)) (\<lambda>_. Call (C_Send 1 0x10000 (letter 2)) (\<lambda>_. Return))
     else if e = 2 then Call (C_Send 2 0x10000 (letter 3)) (\<lambda>_. Return)
     else Call (C_Recv 3 0x10000 (Some 0x11000)) (\<lambda>_. Call (C_Recv 3 0x10000 (Some 0x11000)) (\<lambda>_.
       Call (C_Recv 3 0x10000 (Some 0x11000)) (\<lambda>_. Return))))"

definition mail_boot :: kern where
  "mail_boot = (kern_boot (\<lambda>_. \<lparr> as_base = 0x10000, as_size = 0x10000, as_stack_top = 0x20000, as_ipc_scratch = 0, as_pt_reserved = 0 \<rparr>) mail_code)
     \<lparr> k_ports := demo_ports \<rparr>"

definition mail_caps :: kern where
  "mail_caps = grant 1 CAP_IPC_SEND (grant 2 CAP_IPC_SEND (grant 3 CAP_IPC_RECV mail_boot))"

definition mail_system :: kern where
  "mail_system = spawn 3 1 3 (spawn 2 1 2 (spawn 1 1 1 mail_caps))"

definition mail_end :: "(run_end \<times> kern) option" where
  "mail_end = proc_sched_run mail_system"

definition spawns :: "cap_subject_id_t \<Rightarrow> pointer \<Rightarrow> pointer \<Rightarrow> kern \<Rightarrow> bool" where
  "spawns s as entry k =
    (case process_create s as True (k_procs k) of
       (PROC_OK, Some pid, _, t) \<Rightarrow>
         find_entry pid k = None \<and> fst (proc_sched_register pid entry (k\<lparr> k_procs := t \<rparr>)) = PROC_SCHED_OK
     | _ \<Rightarrow> False)"

lemma create_ok:
  assumes k: "sched_ok k" and c: "process_create s as True (k_procs k) = (PROC_OK, Some pid, l, t)" and f: "find_entry pid k = None"
  shows "sched_ok (k\<lparr> k_procs := t \<rparr>)"
proof -
  have p: "procs_wf (k_procs k)" and len: "length (g_entries (k_sched k)) = PROC_TABLE_MAX"
    using k by (simp_all add: sched_ok_def sched_shape_def)
  obtain b where t: "procs_wf t" "pcbs t = (pcbs (k_procs k))(pid \<mapsto> b)"
    using create_proc_effect [OF p, of s as] c by (cases "card (dom (pcbs (k_procs k))) = 16") auto
  have "en_in_use (k_entry i k) \<Longrightarrow> en_pid (k_entry i k) \<noteq> pid" if "i < PROC_TABLE_MAX" for i
    using f that len by (auto simp: find_entry_def find_idx_None_iff k_entry_def)
  then have m: "pcb_of (k\<lparr> k_procs := t \<rparr>) = pcb_of k" using t(2) by (auto simp: pcb_of_def k_entry_def fun_eq_iff)
  have "k_entry i (k\<lparr> k_procs := t \<rparr>) = k_entry i k" for i by (simp add: k_entry_def)
  then show ?thesis using k t(1) m by (simp add: sched_ok_def sched_shape_def view_def)
qed

lemma register_ports: "k_ports (snd (proc_sched_register pid entry k)) = k_ports k"
  by (auto simp: proc_sched_register_def alloc_entry_def set_entry_def set_sched_def ready_push_def k_set_state_def Let_def
      split: option.splits prod.splits proc_result_t.splits if_splits)

lemma spawn_ok:
  assumes k: "kern_ok k" and s: "spawns s as entry k"
  shows "kern_ok (spawn s as entry k)"
proof -
  obtain pid l t where c: "process_create s as True (k_procs k) = (PROC_OK, Some pid, l, t)" and f: "find_entry pid k = None"
    and r: "fst (proc_sched_register pid entry (k\<lparr> k_procs := t \<rparr>)) = PROC_SCHED_OK"
    using s by (auto simp: spawns_def split: prod.splits proc_result_t.splits option.splits)
  have "sched_ok (k\<lparr> k_procs := t \<rparr>)" using create_ok [OF _ c f] k by (simp add: kern_ok_def)
  then have "sched_ok (snd (proc_sched_register pid entry (k\<lparr> k_procs := t \<rparr>)))"
    using register_ok r by (metis prod.collapse)
  then show ?thesis using k c register_ports [of pid entry "k\<lparr> k_procs := t \<rparr>"] by (simp add: spawn_def kern_ok_def)
qed

lemma mail_system_ok: "kern_ok mail_system"
proof -
  have "sched_ok mail_boot" by (rule sched_boot_ok) (simp_all add: mail_boot_def kern_boot_def procs_init_wf)
  then have "kern_ok mail_caps"
    using sched_cong(1) [of mail_caps mail_boot] by (simp add: kern_ok_def mail_caps_def grant_def mail_boot_def demo_ports_wf)
  moreover have "spawns 1 1 1 mail_caps" "spawns 2 1 2 (spawn 1 1 1 mail_caps)" "spawns 3 1 3 (spawn 2 1 2 (spawn 1 1 1 mail_caps))"
    by code_simp+
  ultimately show ?thesis unfolding mail_system_def by (intro spawn_ok)
qed

theorem proc_sched_run_returns_witness:
  "\<exists>e k'. proc_sched_run mail_system = Some (e, k') \<and> settled mail_system k' e"
proof -
  have "g_current_index (k_sched mail_system) = None" "\<not> g_dispatching (k_sched mail_system)" by code_simp+
  then show ?thesis by (rule proc_sched_run_returns [OF mail_system_ok])
qed

lemma mail_run:
  "map_option (\<lambda>(e, k). (e, map_option mb_owner (mailboxes (k_ports k) 0x10000), map_option mb_msg (mailboxes (k_ports k) 0x10000),
      map_option (\<lambda>b. (pcb_subject b, pcb_state b, pcb_blocked_on b = ipc_port_wait_token 0x10000 (k_ports k))) (pcb_of k 2))) mail_end =
   Some (Ended PROC_SCHED_ERR_DEADLOCK, Some 3, Some (Some (ipc_msg_zero\<lparr> im_sender_subject := 1, im_tag := 2 \<rparr>)),
     Some (3, PROC_STATE_BLOCKED, True))"
  by code_simp


end
