(* ===== verification/Ipc_Flow.thy ===== *)
theory Ipc_Flow
  imports Sched_Run
begin

text \<open>
  What flows through the ports: every kernel call changes the port table only by operations on the
  ports it names, and only well-formed envelopes with an authenticated sender ever enter a port.
\<close>

section \<open>Which port operations a call performs\<close>

definition sealed :: "ipc_msg_v0 \<Rightarrow> bool" where
  \<comment> \<open>a valid envelope with a sender\<close>
  "sealed m \<longleftrightarrow> envelope_ok m \<and> im_sender_subject m \<noteq> 0"

lemma check_delivered_eq: "check_delivered m = (if sealed m then IPC_OK else IPC_ERR_INVALID_MSG)"
  by (auto simp: check_delivered_def sealed_def envelope_ok_def)

lemma sealed_stamp: "envelope_ok m \<Longrightarrow> s \<noteq> 0 \<Longrightarrow> sealed (m\<lparr> im_sender_subject := s \<rparr>)"
  by (simp add: sealed_def envelope_ok_def)

definition stages :: "ipc_port_t \<Rightarrow> port_op set" where
  "stages h = {P_Stage h m |m. sealed m}"

fun call_ops :: "kcall \<Rightarrow> port_op set" where
  "call_ops (C_Send s h msg) = stages h"
| "call_ops (C_Recv s h buf) = {P_Consume h}"
| "call_ops (C_Call s h msg reply buf) = stages h \<union> {P_Consume reply}"
| "call_ops (C_Send_H ch h msg) = stages h"
| "call_ops (C_Recv_H ch h buf) = {P_Consume h}"
| "call_ops (C_Port_Create s cs cr) = {P_Create s cs cr}"
| "call_ops (C_Port_Destroy h) = {P_Destroy h}"
| "call_ops C_Yield = {}"
| "call_ops (C_Exit code) = {}"

fun susp_ops :: "susp \<Rightarrow> port_op set" where
  "susp_ops (S_Stage h m) = {P_Stage h m}"
| "susp_ops (S_Consume h) = {P_Consume h}"
| "susp_ops (S_Call_Stage h m s reply buf) = {P_Stage h m, P_Consume reply}"

definition port_path :: "port_op set \<Rightarrow> ipc_ports \<Rightarrow> ipc_ports \<Rightarrow> bool" where
  "port_path A p p' \<longleftrightarrow> (\<exists>ops. set ops \<subseteq> A \<and> p' = fold port_step ops p)"

lemma port_path_refl [simp]: "port_path A p p"
  unfolding port_path_def by (rule exI [of _ "[]"]) simp

lemma port_path_step: "op \<in> A \<Longrightarrow> port_path A p (port_step op p)"
  unfolding port_path_def by (rule exI [of _ "[op]"]) simp

lemma port_path_trans: "port_path A p p' \<Longrightarrow> port_path A p' p'' \<Longrightarrow> port_path A p p''"
  unfolding port_path_def by (metis fold_append comp_apply set_append Un_least)

lemma port_path_mono: "port_path A p p' \<Longrightarrow> A \<subseteq> B \<Longrightarrow> port_path B p p'"
  unfolding port_path_def by blast

lemma port_path_wf: "port_path A p p' \<Longrightarrow> ports_wf p \<Longrightarrow> ports_wf p'"
  unfolding port_path_def by (auto simp: ports.run_wf)

fun flows :: "port_op set \<Rightarrow> kern \<Rightarrow> outcome \<Rightarrow> bool" where
  "flows A k (Done r out k') \<longleftrightarrow> port_path A (k_ports k) (k_ports k')"
| "flows A k (Wait s k') \<longleftrightarrow> port_path A (k_ports k) (k_ports k') \<and> susp_ops s \<subseteq> A"

lemma flows_from: "flows A k1 oc \<Longrightarrow> k_ports k1 = k_ports k \<Longrightarrow> flows A k oc"
  by (cases oc) auto

lemma flows_mono: "flows A k oc \<Longrightarrow> A \<subseteq> B \<Longrightarrow> flows B k oc"
  by (cases oc) (auto intro: port_path_mono)

lemma finish_recv_flows: "flows A k oc \<Longrightarrow> flows A k (finish_recv oc)"
  by (cases oc rule: finish_recv.cases) auto

lemma stage_flows: "ports_wf (k_ports k) \<Longrightarrow> flows {P_Stage h m} k (ipc_stage_blocking h m k)"
  by (auto simp: stage_blocking_eq intro: port_path_step split: option.split)

lemma consume_flows: "ports_wf (k_ports k) \<Longrightarrow> flows {P_Consume h} k (ipc_consume_blocking h k)"
  by (auto simp: consume_blocking_eq intro: port_path_step split: option.split)

lemma audit_flows:
  "flows A k (Done r out (k\<lparr> k_out := l \<rparr>))" "flows A k (Done r out k)"
  "flows A k (Done r out ((snd (k_cap_check s c k))\<lparr> k_out := l \<rparr>))" "flows A k (Done r out (snd (k_cap_check s c k)))"
  by simp_all

lemma checked_stage_flows:
  assumes "ports_wf (k_ports k)" "sealed m"
  shows "flows (stages h) k (ipc_stage_blocking h m (snd (k_cap_check s c k)))"
proof (rule flows_from)
  show "flows (stages h) (snd (k_cap_check s c k)) (ipc_stage_blocking h m (snd (k_cap_check s c k)))"
    by (rule flows_mono [OF stage_flows]) (use assms in \<open>auto simp: stages_def\<close>)
qed simp

lemma ipc_send_flows:
  assumes p: "ports_wf (k_ports k)"
  shows "flows (stages h) k (ipc_send s h msg k)"
proof -
  have "sealed (m\<lparr> im_sender_subject := s \<rparr>)" if "send_verdict s h (Some (a, m)) k = IPC_OK" for a m
    using that by (intro sealed_stamp) (auto simp: send_verdict_def split: if_splits option.splits)
  then show ?thesis
    unfolding ipc_send_eq [OF p] using checked_stage_flows [OF p] audit_flows [of "stages h" k]
    by (simp del: flows.simps split: option.split prod.split)
qed

lemma ipc_recv_flows:
  assumes p: "ports_wf (k_ports k)"
  shows "flows {P_Consume h} k (ipc_recv s h buf k)"
proof -
  have "flows {P_Consume h} k (finish_recv (ipc_consume_blocking h (snd (k_cap_check s c k))))" for c
    by (rule finish_recv_flows [OF flows_from [OF consume_flows]]) (use p in simp_all)
  then show ?thesis unfolding ipc_recv_eq [OF p] using audit_flows [of "{P_Consume h}" k]
    by (simp del: flows.simps split: option.split prod.split)
qed

lemma call_after_send_flows:
  assumes p: "ports_wf (k_ports k)" and f: "flows A k oc"
  shows "flows (A \<union> {P_Consume reply}) k (call_after_send s reply buf oc)"
proof (cases oc)
  case (Done r out k1)
  then have k1: "port_path A (k_ports k) (k_ports k1)" using f by simp
  have "flows {P_Consume reply} k1 (ipc_recv s reply buf k1)" by (rule ipc_recv_flows [OF port_path_wf [OF k1 p]])
  then have "flows (A \<union> {P_Consume reply}) k (ipc_recv s reply buf k1)"
    using k1 by (cases "ipc_recv s reply buf k1") (auto intro: port_path_trans port_path_mono)
  then show ?thesis using Done k1 by (auto intro: port_path_mono)
next
  case (Wait s' k1)
  then show ?thesis using f by (cases s') (auto intro: port_path_mono)
qed

lemma ipc_call_flows:
  assumes p: "ports_wf (k_ports k)"
  shows "flows (stages h \<union> {P_Consume reply}) k (ipc_call s h msg reply buf k)"
  using call_after_send_flows [OF p ipc_send_flows [OF p]] audit_flows
  by (simp add: ipc_call_def emit_eq del: flows.simps split: option.split prod.split)

lemma ipc_send_h_flows:
  assumes p: "ports_wf (k_ports k)"
  shows "flows (stages h) k (ipc_send_h ch h msg k)"
  using checked_stage_flows [OF p sealed_stamp] audit_flows [of "stages h" k]
  by (simp add: ipc_send_h_def guard_simps(3,4,5,6) emit_eq Let_def del: flows.simps split: option.split prod.split)

lemma ipc_recv_h_flows:
  assumes p: "ports_wf (k_ports k)"
  shows "flows {P_Consume h} k (ipc_recv_h ch h buf k)"
proof -
  have "flows {P_Consume h} k (finish_recv (ipc_consume_blocking h (snd (k_cap_check s c k))))" for s c
    by (rule finish_recv_flows [OF flows_from [OF consume_flows]]) (use p in simp_all)
  then show ?thesis using audit_flows [of "{P_Consume h}" k]
    by (simp add: ipc_recv_h_def guard_simps(3,6) emit_eq Let_def del: flows.simps split: option.split prod.split)
qed

lemma ipc_resume_flows:
  assumes p: "ports_wf (k_ports k)"
  shows "flows (susp_ops s) k (ipc_resume s k)"
  using call_after_send_flows [OF p stage_flows [OF p]]
  by (cases s) (simp_all add: stage_flows [OF p] finish_recv_flows consume_flows [OF p] insert_is_Un [symmetric] insert_commute)

fun called_flows :: "port_op set \<Rightarrow> kern \<Rightarrow> called \<Rightarrow> bool" where
  "called_flows A k (Answer a k') \<longleftrightarrow> port_path A (k_ports k) (k_ports k')"
| "called_flows A k (Suspended s k') \<longleftrightarrow> port_path A (k_ports k) (k_ports k') \<and> susp_ops s \<subseteq> A"
| "called_flows A k (Switched a k') \<longleftrightarrow> port_path A (k_ports k) (k_ports k')"

lemma of_outcome_flows: "flows A k oc \<Longrightarrow> called_flows A k (of_outcome oc)"
  by (cases oc) auto

lemma switched_flows: "k_ports (snd rk) = k_ports k \<Longrightarrow> called_flows A k (switched rk)"
  by (auto simp: switched_def split: prod.split proc_sched_result_t.split)

lemma exec_call_flows:
  assumes p: "ports_wf (k_ports k)"
  shows "called_flows (call_ops c) k (exec_call c k)"
proof (cases c)
  case (C_Port_Create s cs cr)
  then show ?thesis using port_path_step [of "P_Create s cs cr" "call_ops c" "k_ports k"]
    by (simp add: port_step.simps split_beta)
next
  case (C_Port_Destroy h)
  then show ?thesis using port_path_step [of "P_Destroy h" "call_ops c" "k_ports k"]
    by (simp add: port_step.simps split_beta)
qed (simp_all add: of_outcome_flows switched_flows ipc_send_flows ipc_recv_flows ipc_call_flows [simplified] ipc_send_h_flows ipc_recv_h_flows
    yield_ports exit_ports p)

section \<open>What an operation on the table leaves alone\<close>

fun op_port :: "port_op \<Rightarrow> ipc_port_t option" where
  "op_port (P_Stage h m) = Some h"
| "op_port (P_Consume h) = Some h"
| "op_port (P_Destroy h) = Some h"
| "op_port _ = None"

definition plain_ops :: "port_op set" where
  \<comment> \<open>the operations of a kernel call: no reset, and sealed envelopes only\<close>
  "plain_ops = {op. (\<forall>h m. op = P_Stage h m \<longrightarrow> sealed m) \<and> op \<noteq> P_Reset \<and> op \<noteq> P_Init}"

lemma call_ops_plain: "call_ops c \<subseteq> plain_ops"
  by (cases c) (auto simp: plain_ops_def stages_def)

lemma port_step_map:
  assumes p: "ports_wf p"
  shows "mailboxes (port_step (P_Stage h m) p) =
      (case mailboxes p h of None \<Rightarrow> mailboxes p
       | Some b \<Rightarrow> if mb_msg b = None then (mailboxes p)(h \<mapsto> b\<lparr> mb_msg := Some m \<rparr>) else mailboxes p)"
    and "mailboxes (port_step (P_Consume h) p) =
      (case mailboxes p h of None \<Rightarrow> mailboxes p
       | Some b \<Rightarrow> if mb_msg b = None then mailboxes p else (mailboxes p)(h \<mapsto> b\<lparr> mb_msg := None \<rparr>))"
    and "mailboxes (port_step (P_Create ow sc rc) p) = mailboxes p \<or>
      (\<exists>h. h \<notin> dom (mailboxes p) \<and> mailboxes (port_step (P_Create ow sc rc) p) =
         (mailboxes p)(h \<mapsto> \<lparr> mb_owner = ow, mb_send = sc, mb_recv = rc, mb_msg = None \<rparr>))"
proof -
  show "mailboxes (port_step (P_Stage h m) p) =
      (case mailboxes p h of None \<Rightarrow> mailboxes p
       | Some b \<Rightarrow> if mb_msg b = None then (mailboxes p)(h \<mapsto> b\<lparr> mb_msg := Some m \<rparr>) else mailboxes p)"
  proof (cases "\<exists>b. mailboxes p h = Some b \<and> mb_msg b = None")
    case True
    then show ?thesis using stage_effect(2) [OF p, of h _ m] by auto
  next
    case False
    then have "snd (ipc_port_stage h (Some m) p) = p" unfolding stage_effect(1) [OF p] by (auto split: option.split)
    then show ?thesis using False by (auto simp: port_step.simps split: option.split)
  qed
  show "mailboxes (port_step (P_Consume h) p) =
      (case mailboxes p h of None \<Rightarrow> mailboxes p
       | Some b \<Rightarrow> if mb_msg b = None then mailboxes p else (mailboxes p)(h \<mapsto> b\<lparr> mb_msg := None \<rparr>))"
  proof (cases "\<exists>b. mailboxes p h = Some b \<and> mb_msg b \<noteq> None")
    case True
    then show ?thesis using consume_effect(2) [OF p, of h] by auto
  next
    case False
    then have "snd (snd (ipc_port_consume h True p)) = p" unfolding consume_effect(1) [OF p] by (auto split: option.split)
    then show ?thesis using False by (auto simp: port_step.simps split: option.split)
  qed
  show "mailboxes (port_step (P_Create ow sc rc) p) = mailboxes p \<or>
      (\<exists>h. h \<notin> dom (mailboxes p) \<and> mailboxes (port_step (P_Create ow sc rc) p) =
         (mailboxes p)(h \<mapsto> \<lparr> mb_owner = ow, mb_send = sc, mb_recv = rc, mb_msg = None \<rparr>))"
  proof (cases "capability_id_known sc \<and> capability_id_known rc")
    case True
    then show ?thesis using create_effect [OF p, of sc rc ow]
      by (cases "card (dom (mailboxes p)) = 16") (auto simp: port_step.simps)
  next
    case False
    then show ?thesis using p by (auto simp: port_step.simps ipc_port_create_def ports_wf_def Let_def)
  qed
qed

lemma port_step_other:
  assumes p: "ports_wf p" and "op \<in> plain_ops" "op_port op \<noteq> Some h" "h \<in> dom (mailboxes p)"
  shows "mailboxes (port_step op p) h = mailboxes p h"
proof (cases op)
  case (P_Create ow sc rc)
  then show ?thesis using port_step_map(3) [OF p, of ow sc rc] assms(4) by (auto split: if_splits)
next
  case (P_Destroy h')
  then show ?thesis using destroy_effect(2) [OF p, of h'] assms(3) by simp
qed (use assms in \<open>auto simp: port_step_map(1,2) [OF p] plain_ops_def split: option.splits\<close>)

lemma port_path_other:
  assumes "port_path A p p'" "ports_wf p" "A \<subseteq> plain_ops" "\<forall>op\<in>A. op_port op \<noteq> Some h" "h \<in> dom (mailboxes p)"
  shows "mailboxes p' h = mailboxes p h"
proof -
  obtain ops where ops: "set ops \<subseteq> A" "p' = fold port_step ops p" using assms(1) by (auto simp: port_path_def)
  then show ?thesis using assms(2,5)
  proof (induction ops arbitrary: p)
    case (Cons op ops)
    have op: "mailboxes (port_step op p) h = mailboxes p h"
      using Cons.prems assms(3,4) by (intro port_step_other) auto
    moreover have "mailboxes p' h = mailboxes (port_step op p) h"
      using Cons.prems op ports.step_wf by (intro Cons.IH) auto
    ultimately show ?case by simp
  qed simp
qed

definition all_sealed :: "ipc_ports \<Rightarrow> bool" where
  "all_sealed p \<longleftrightarrow> (\<forall>h b m. mailboxes p h = Some b \<longrightarrow> mb_msg b = Some m \<longrightarrow> sealed m)"

lemma port_step_sealed:
  assumes p: "ports_wf p" and "op \<in> plain_ops" and s: "all_sealed p"
  shows "all_sealed (port_step op p)"
proof (cases op)
  case (P_Create ow sc rc)
  from port_step_map(3) [OF p, of ow sc rc] show ?thesis
  proof
    assume "\<exists>h. h \<notin> dom (mailboxes p) \<and> mailboxes (port_step (P_Create ow sc rc) p) =
         (mailboxes p)(h \<mapsto> \<lparr> mb_owner = ow, mb_send = sc, mb_recv = rc, mb_msg = None \<rparr>)"
    then obtain h where "mailboxes (port_step op p) = (mailboxes p)(h \<mapsto> \<lparr> mb_owner = ow, mb_send = sc, mb_recv = rc, mb_msg = None \<rparr>)"
      using P_Create by blast
    then show ?thesis using s unfolding all_sealed_def by auto
  qed (use s P_Create in \<open>simp add: all_sealed_def\<close>)
next
  case (P_Destroy h')
  then show ?thesis using destroy_effect(2) [OF p, of h'] s by (auto simp: all_sealed_def split: if_splits)
next
  case (P_Stage h' m')
  then show ?thesis using assms(2) s by (auto simp: all_sealed_def port_step_map(1) [OF p] plain_ops_def split: option.splits if_splits)
next
  case (P_Consume h')
  then show ?thesis using s by (auto simp: all_sealed_def port_step_map(2) [OF p] split: option.splits if_splits)
qed (use assms(2) in \<open>simp_all add: plain_ops_def\<close>)

lemma port_path_sealed:
  assumes "port_path A p p'" "ports_wf p" "A \<subseteq> plain_ops" "all_sealed p"
  shows "all_sealed p'"
proof -
  obtain ops where ops: "set ops \<subseteq> A" "p' = fold port_step ops p" using assms(1) by (auto simp: port_path_def)
  then show ?thesis using assms(2,4)
  proof (induction ops arbitrary: p)
    case (Cons op ops)
    have "op \<in> plain_ops" using Cons.prems(1) assms(3) by auto
    then show ?case by (intro Cons.IH [of "port_step op p"]) (use Cons.prems port_step_sealed ports.step_wf in auto)
  qed simp
qed

section \<open>Envelopes along a run\<close>

fun ctx_sealed :: "ctx \<Rightarrow> bool" where
  "ctx_sealed (Run p) \<longleftrightarrow> True"
| "ctx_sealed (Susp s f) \<longleftrightarrow> susp_ops s \<subseteq> plain_ops"

definition env_ok :: "kern \<Rightarrow> bool" where
  \<comment> \<open>sealed envelopes in every port and in every suspended send\<close>
  "env_ok k \<longleftrightarrow> all_sealed (k_ports k) \<and> (\<forall>e\<in>set (g_entries (k_sched k)). ctx_sealed (en_ctx e))"

lemma env_ok_moves:
  assumes "env_ok k" "ports_wf (k_ports k)" "port_path A (k_ports k) (k_ports k')" "A \<subseteq> plain_ops"
    and "g_entries (k_sched k') = g_entries (k_sched k)"
  shows "env_ok k'"
  using assms port_path_sealed by (simp add: env_ok_def)

lemma env_ok_save:
  assumes "env_ok k" "ctx_sealed c"
  shows "env_ok (save_ctx i c k)"
  using assms set_update_subset_insert [of "g_entries (k_sched k)" i "(g_entries (k_sched k) ! i)\<lparr> en_ctx := c \<rparr>"]
  by (auto simp: env_ok_def save_ctx_def set_entry_def)

lemma run_prog_env:
  assumes "kern_ok k" "g_current_index (k_sched k) = Some i" "env_ok k"
  shows "env_ok (run_prog i p k)"
  using assms
proof (induction p arbitrary: k)
  case Return
  have "sched_ok k" using Return.prems by (simp add: kern_ok_def)
  from proc_exit_moves [OF this Return.prems(2), of 0]
  have "g_entries (k_sched (snd (proc_exit 0 k))) = g_entries (k_sched k)" by (auto simp: sched_moves_def)
  then have "env_ok (snd (proc_exit 0 k))" using Return.prems(3) by (simp add: env_ok_def exit_ports)
  then show ?case by (simp add: env_ok_save)
next
  case (Call c f)
  have p: "ports_wf (k_ports k)" using Call.prems by (simp add: kern_ok_def)
  have m: "called_moves k (exec_call c k)" and fl: "called_flows (call_ops c) k (exec_call c k)"
    by (rule exec_call_moves [OF Call.prems(1,2)], rule exec_call_flows [OF p])
  note e = env_ok_moves [OF Call.prems(3) p _ call_ops_plain [of c]]
  show ?case
  proof (cases "exec_call c k")
    case (Answer a k1)
    then have "env_ok (run_prog i (f a) k1)"
      using m fl Call.prems(2) e [of k1] by (intro Call.IH) (auto simp: moves_def sched_moves_def)
    then show ?thesis using Answer by simp
  next
    case (Suspended s k1)
    then have "env_ok k1" "susp_ops s \<subseteq> plain_ops"
      using m fl e [of k1] call_ops_plain [of c] by (auto simp: moves_def sched_moves_def)
    then show ?thesis using Suspended by (simp add: env_ok_save)
  next
    case (Switched a k1)
    then have "env_ok k1" using m fl e [of k1] by (auto simp: moves_def sched_moves_def)
    then show ?thesis using Switched by (simp add: env_ok_save)
  qed
qed

lemma run_ctx_env:
  assumes k: "kern_ok k" and i: "g_current_index (k_sched k) = Some i" and e: "env_ok k" and c: "ctx_sealed c"
  shows "env_ok (run_ctx i c k)"
proof (cases c)
  case (Run p)
  then show ?thesis using run_prog_env [OF k i e] by simp
next
  case (Susp s f)
  have p: "ports_wf (k_ports k)" using k by (simp add: kern_ok_def)
  have m: "outcome_moves k (ipc_resume s k)" and fl: "flows (susp_ops s) k (ipc_resume s k)"
    by (rule ipc_resume_moves(1) [OF k], rule ipc_resume_flows [OF p])
  have s: "susp_ops s \<subseteq> plain_ops" using c Susp by simp
  note e' = env_ok_moves [OF e p _ s]
  show ?thesis
  proof (cases "ipc_resume s k")
    case (Done r out k1)
    then show ?thesis using Susp m fl i e' [of k1] run_prog_env [of k1 i] by (simp add: moves_def sched_moves_def)
  next
    case (Wait s' k1)
    then have "env_ok k1" "susp_ops s' \<subseteq> plain_ops" using m fl e' [of k1] s by (auto simp: moves_def sched_moves_def)
    then show ?thesis using Susp Wait by (simp add: env_ok_save)
  qed
qed

lemma env_ok_cong:
  "k_ports k' = k_ports k \<Longrightarrow> g_entries (k_sched k') = g_entries (k_sched k) \<Longrightarrow> env_ok k' = env_ok k"
  by (simp add: env_ok_def)

lemma env_frames [simp]:
  "env_ok (set_current c k) = env_ok k" "env_ok (k_set_state pid st k) = env_ok k" "env_ok (k_set_exit_code pid code k) = env_ok k"
  "env_ok (ready_drop i k) = env_ok k"
  by (rule env_ok_cong; simp add: set_current_def ready_drop_def k_set_state_def k_set_exit_code_def Let_def)+

lemma env_ok_start: "env_ok k \<Longrightarrow> env_ok (set_entry i (\<lambda>e. e\<lparr> en_started := b \<rparr>) k)"
  using set_update_subset_insert [of "g_entries (k_sched k)" i "(g_entries (k_sched k) ! i)\<lparr> en_started := b \<rparr>"]
  by (cases "i < length (g_entries (k_sched k))") (auto simp: env_ok_def set_entry_def list_update_beyond)

lemma sched_dispatch_env:
  assumes p: "popped k0 idx q k" and e: "env_ok k0"
  shows "env_ok (snd (sched_dispatch idx k))"
proof -
  have ek: "env_ok k" using e p env_ok_cong [of k k0] by (simp add: popped_def)
  show ?thesis
  proof (cases "pcb_of k0 idx")
    case None
    then show ?thesis using p ek by (simp add: popped_def sched_dispatch_def)
  next
    case (Some b)
    let ?pid = "en_pid (k_entry idx k)"
    let ?k1 = "k_set_state ?pid PROC_STATE_RUNNING (set_current (Some idx) k)"
    let ?k2 = "set_entry idx (\<lambda>e. e\<lparr> en_started := True \<rparr>) ?k1"
    have st: "pcb_state b \<noteq> PROC_STATE_EXITED" and len: "idx < length (g_entries (k_sched k0))"
      using p Some by (simp_all add: popped_def)
    note rr = run_dispatched [of k0 k q idx b]
    have k1: "kern_ok ?k1" "g_current_index (k_sched ?k1) = Some idx" "g_entries (k_sched ?k1) = g_entries (k_sched k0)"
      using rr p Some st by (simp_all add: popped_def)
    have c: "ctx_sealed (en_ctx (k_entry idx ?k1))" using e len k1(3) by (simp add: env_ok_def k_entry_def)
    note k2 = set_entry_effect(1,4) [OF k1(1), of "\<lambda>e. e\<lparr> en_started := True \<rparr>" idx, simplified]
    have t: "ctx_sealed (sched_trampoline pid k')" for pid k' by (simp add: sched_trampoline_def split: option.split)
    have "env_ok (snd (aspace_invariant_panic ?pid w k))" for w
      using ek by (simp add: aspace_invariant_panic_def k_print_def Let_def env_ok_def)
    moreover have "env_ok (run_ctx idx (en_ctx (k_entry idx ?k1)) ?k1)" by (rule run_ctx_env [OF k1(1,2) _ c]) (use ek in simp)
    moreover have "env_ok (run_ctx idx (sched_trampoline ?pid ?k2) ?k2)"
      by (rule run_ctx_env [OF k2(1) _ _ t]) (use ek k2(2) k1(2) env_ok_start in simp_all)
    ultimately show ?thesis using p Some ek env_ok_start [of ?k1 idx True]
      by (auto simp: popped_def sched_dispatch_def Let_def split_beta)
  qed
qed

lemma sched_loop_env:
  assumes "kern_ok k" "g_current_index (k_sched k) = None" "env_ok k" "sched_loop k = Some (e, k')"
  shows "env_ok k'"
  using assms
proof (induction k rule: wf_induct_rule [OF wf_run_order])
  case (1 k)
  have sh: "sched_shape k" using 1(2) by (simp add: kern_ok_def sched_ok_def)
  obtain oi k1 where pop: "ready_pop k = (oi, k1)" by (cases "ready_pop k")
  note l = 1(5) [unfolded sched_loop.simps [of k] pop prod.case]
  show ?case
  proof (cases oi)
    case None
    then have "k1 = k" using ready_pop_effect(1) [OF sh] pop by auto
    then show ?thesis using l None 1(4) env_ok_cong [of k' k] by (auto simp: Let_def)
  next
    case (Some idx)
    obtain q where p: "popped k idx q k1" using ready_pop_popped [OF 1(2,3)] pop Some by blast
    obtain ab k2 where d: "sched_dispatch idx k1 = (ab, k2)" by (cases "sched_dispatch idx k1")
    have e2: "env_ok k2" using sched_dispatch_env [OF p 1(4)] d by simp
    show ?thesis
    proof (cases ab)
      case True
      then show ?thesis using l Some d e2 by simp
    next
      case False
      then have "dispatched k k2" using sched_dispatch_ok(1) [OF 1(2,3)] pop Some d by simp
      moreover have "sched_loop k2 = Some (e, k')" using l Some d False by simp
      ultimately show ?thesis using 1(1) [of k2] e2 by (auto simp: dispatched_def)
    qed
  qed
qed

lemma recv_ready:
  assumes p: "ports_wf (k_ports k)" and v: "recv_verdict s h (Some buf) k = IPC_OK"
    and b: "mailboxes (k_ports k) h = Some b" "mb_msg b = Some m" and m: "sealed m"
  shows "\<exists>k'. ipc_recv s h (Some buf) k = Done IPC_OK (Some m) k' \<and> mailboxes (k_ports k') = (mailboxes (k_ports k))(h \<mapsto> b\<lparr> mb_msg := None \<rparr>)"
proof -
  let ?k = "snd (k_cap_check s (mb_recv b) k)"
  let ?k' = "wake_on_token (Some (unat (handle_index h))) (?k\<lparr> k_ports := port_step (P_Consume h) (k_ports k) \<rparr>)"
  have "mb_owner b = s" using v b by (simp add: recv_verdict_def split: if_splits)
  then have "ipc_recv s h (Some buf) k = finish_recv (ipc_consume_blocking h ?k)" using v b by (simp add: ipc_recv_eq [OF p])
  moreover have "ipc_consume_blocking h ?k = Done IPC_OK (Some m) ?k'" using p b by (simp add: consume_blocking_eq)
  ultimately have "ipc_recv s h (Some buf) k = Done IPC_OK (Some m) ?k'" using m by (simp add: check_delivered_eq)
  moreover have "mailboxes (k_ports ?k') = (mailboxes (k_ports k))(h \<mapsto> b\<lparr> mb_msg := None \<rparr>)"
    using consume_effect(2) [OF p b(1)] b(2) by simp
  ultimately show ?thesis by blast
qed

definition after_call :: "kcall \<Rightarrow> kern \<Rightarrow> kern" where
  "after_call c k = (case exec_call c k of Answer a k' \<Rightarrow> k' | Suspended s k' \<Rightarrow> k' | Switched a k' \<Rightarrow> k')"

fun call_ports :: "kcall \<Rightarrow> ipc_port_t list" where
  \<comment> \<open>the ports a call names\<close>
  "call_ports (C_Send s h msg) = [h]"
| "call_ports (C_Recv s h buf) = [h]"
| "call_ports (C_Call s h msg reply buf) = [h, reply]"
| "call_ports (C_Send_H ch h msg) = [h]"
| "call_ports (C_Recv_H ch h buf) = [h]"
| "call_ports (C_Port_Destroy h) = [h]"
| "call_ports _ = []"

lemma call_ops_ports: "op \<in> call_ops c \<Longrightarrow> op_port op = Some h \<Longrightarrow> h \<in> set (call_ports c)"
  by (cases c) (auto simp: stages_def)

lemma after_call_path: "ports_wf (k_ports k) \<Longrightarrow> port_path (call_ops c) (k_ports k) (k_ports (after_call c k))"
  using exec_call_flows [of k c] by (cases "exec_call c k") (simp_all add: after_call_def)

lemma after_calls_other:
  assumes "ports_wf (k_ports k)" "\<forall>c\<in>set cs. h \<notin> set (call_ports c)" "h \<in> dom (mailboxes (k_ports k))"
  shows "ports_wf (k_ports (fold after_call cs k)) \<and> mailboxes (k_ports (fold after_call cs k)) h = mailboxes (k_ports k) h"
  using assms
proof (induction cs arbitrary: k)
  case (Cons c cs)
  note path = after_call_path [OF Cons.prems(1), of c]
  have w: "ports_wf (k_ports (after_call c k))" by (rule port_path_wf [OF path Cons.prems(1)])
  have m: "mailboxes (k_ports (after_call c k)) h = mailboxes (k_ports k) h"
    using path Cons.prems(1) call_ops_plain by (rule port_path_other) (use Cons.prems call_ops_ports in auto)
  show ?case using Cons.IH [OF w] Cons.prems(2,3) m by (auto simp: domIff)
qed simp

lemma ipc_send_done:
  assumes p: "ports_wf (k_ports k)" and s: "ipc_send s h msg k = Done IPC_OK out k'"
  obtains a m b where "msg = Some (a, m)" "mailboxes (k_ports k) h = Some b" "mb_msg b = None" "send_verdict s h msg k = IPC_OK"
    "ports_wf (k_ports k')" "mailboxes (k_ports k') = (mailboxes (k_ports k))(h \<mapsto> b\<lparr> mb_msg := Some (m\<lparr> im_sender_subject := s \<rparr>) \<rparr>)"
proof -
  have v: "send_verdict s h msg k = IPC_OK" using s unfolding ipc_send_eq [OF p] by (auto split: option.splits if_splits prod.splits)
  then obtain a m b where msg: "msg = Some (a, m)" and b: "mailboxes (k_ports k) h = Some b"
    by (auto simp: send_verdict_def split: option.splits if_splits)
  let ?m = "m\<lparr> im_sender_subject := s \<rparr>"
  have st: "ipc_stage_blocking h ?m (snd (k_cap_check s (mb_send b) k)) = Done IPC_OK out k'"
    using s v msg b by (simp add: ipc_send_eq [OF p])
  then have e: "mb_msg b = None" using p b by (auto simp: stage_blocking_eq split: if_splits)
  then have "k_ports k' = port_step (P_Stage h ?m) (k_ports k)" using st p b by (auto simp: stage_blocking_eq)
  then show ?thesis using that [OF msg b e v] stage_effect(2) [OF p b e, of ?m] by simp
qed

section \<open>Properties\<close>

text \<open>
  C30: Delivery.  When a send has succeeded, then after any sequence of kernel calls that do not name
  the port (creating and destroying other ports, traffic on them, scheduling), an admitted receive on
  it returns exactly the message sent, stamped with the sender's subject and not with what the sender
  wrote into that field.  The sender held the port's send capability and the receiver is its owner.
\<close>

theorem ipc_delivers:
  assumes "ports_wf (k_ports k)" "ipc_send s h (Some (a, m)) k = Done IPC_OK out k1"
    and "\<forall>c\<in>set cs. h \<notin> set (call_ports c)" "recv_verdict r h (Some buf) (fold after_call cs k1) = IPC_OK"
  shows "\<exists>k2 b. ipc_recv r h (Some buf) (fold after_call cs k1) = Done IPC_OK (Some (m\<lparr> im_sender_subject := s \<rparr>)) k2 \<and>
    mailboxes (k_ports k) h = Some b \<and> cap_holds (k_cap k) s (mb_send b) \<and> mb_owner b = r \<and>
    mailboxes (k_ports k2) h = Some b"
proof -
  let ?m = "m\<lparr> im_sender_subject := s \<rparr>" and ?k2 = "fold after_call cs k1"
  obtain a' m' b where eq: "Some (a, m) = Some (a', m')" and b: "mailboxes (k_ports k) h = Some b" "mb_msg b = None"
    and v: "send_verdict s h (Some (a, m)) k = IPC_OK" and k1: "ports_wf (k_ports k1)"
      "mailboxes (k_ports k1) = (mailboxes (k_ports k))(h \<mapsto> b\<lparr> mb_msg := Some (m'\<lparr> im_sender_subject := s \<rparr>) \<rparr>)"
    by (rule ipc_send_done [OF assms(1,2)])
  have m': "m' = m" using eq by simp
  note k1 = k1 [unfolded m']
  have k2: "ports_wf (k_ports ?k2)" "mailboxes (k_ports ?k2) h = Some (b\<lparr> mb_msg := Some ?m \<rparr>)"
    using after_calls_other [OF k1(1) assms(3)] k1(2) by auto
  have sender: "cap_holds (k_cap k) s (mb_send b)" "sealed ?m"
    using v b by (auto simp: send_verdict_def intro: sealed_stamp split: if_splits)
  have owner: "mb_owner b = r" using assms(4) k2(2) by (simp add: recv_verdict_def split: if_splits)
  obtain k3 where "ipc_recv r h (Some buf) ?k2 = Done IPC_OK (Some ?m) k3"
    "mailboxes (k_ports k3) = (mailboxes (k_ports ?k2))(h \<mapsto> (b\<lparr> mb_msg := Some ?m \<rparr>)\<lparr> mb_msg := None \<rparr>)"
    using recv_ready [OF k2(1) assms(4) k2(2) _ sender(2)] by auto
  moreover have "(b\<lparr> mb_msg := Some ?m \<rparr>)\<lparr> mb_msg := None \<rparr> = b" using b(2) by simp
  ultimately show ?thesis using b sender owner by auto
qed

text \<open>
  C31: Envelopes are well formed.  If every port and every suspended send holds a valid envelope with
  a non-zero sender when the scheduler starts, the same is true whenever it returns, whatever the
  processes do.  An admitted receive on a port with a message therefore never reports a malformed
  envelope.
\<close>

theorem envelopes_well_formed:
  assumes "kern_ok k" "g_current_index (k_sched k) = None" "\<not> g_dispatching (k_sched k)" "env_ok k"
    and "proc_sched_run k = Some (Ended e, k')"
  shows "env_ok k' \<and> (recv_verdict s h (Some buf) k' = IPC_OK \<and> ipc_port_has_pending_for_tests h (k_ports k') \<longrightarrow>
    (\<exists>m k''. ipc_recv s h (Some buf) k' = Done IPC_OK (Some m) k'' \<and> envelope_ok m \<and> im_sender_subject m \<noteq> 0))"
proof -
  let ?k = "set_sched (\<lambda>s. s\<lparr> g_dispatching := True \<rparr>) k"
  have l: "sched_loop ?k = Some (Ended e, k')" using assms(3,5) by (simp add: proc_sched_run_def)
  have e: "env_ok k'"
    using sched_loop_env [OF _ _ _ l] assms env_ok_cong [of ?k k] by (simp add: set_dispatching)
  have "kern_ok k'" using sched_loop_settles [of ?k] l assms(1,2) by (auto simp: set_dispatching settled_def)
  then have p: "ports_wf (k_ports k')" by (simp add: kern_ok_def)
  have "\<exists>m k''. ipc_recv s h (Some buf) k' = Done IPC_OK (Some m) k'' \<and> envelope_ok m \<and> im_sender_subject m \<noteq> 0"
    if v: "recv_verdict s h (Some buf) k' = IPC_OK" and pend: "ipc_port_has_pending_for_tests h (k_ports k')"
  proof -
    obtain b where b: "mailboxes (k_ports k') h = Some b" using v by (auto simp: recv_verdict_def split: option.splits)
    then obtain i where "port_resolve h (k_ports k') = Some i" "b = port_view (g_ports (k_ports k') ! i)" by (rule port_resolved [OF p])
    then obtain m where m: "mb_msg b = Some m" using pend by (auto simp: ipc_port_has_pending_for_tests_def port_view_def)
    have "sealed m" using e b m by (auto simp: env_ok_def all_sealed_def)
    then show ?thesis using recv_ready [OF p v b m] by (auto simp: sealed_def)
  qed
  then show ?thesis using e by blast
qed

subsection \<open>Concrete instances\<close>

definition mail_sent :: kern where
  "mail_sent = (case ipc_send 1 0x10000 (letter 7) mail_caps of Done r out k \<Rightarrow> k | Wait s k \<Rightarrow> k)"

theorem ipc_delivers_witness:
  "\<exists>k2. ipc_recv 3 0x10000 (Some 0x11000) (fold after_call [C_Port_Create 5 CAP_IPC_SEND CAP_IPC_RECV, C_Send 2 0x10001 (letter 9)] mail_sent) =
     Done IPC_OK (Some (ipc_msg_zero\<lparr> im_tag := 7, im_sender_subject := 1 \<rparr>)) k2"
proof -
  have p: "ports_wf (k_ports mail_caps)" by (simp add: mail_caps_def grant_def mail_boot_def demo_ports_wf)
  have "case ipc_send 1 0x10000 (letter 7) mail_caps of Done r out k \<Rightarrow> r = IPC_OK \<and> out = None | Wait s k \<Rightarrow> False" by code_simp
  then have s: "ipc_send 1 0x10000 (Some (0x11000, ipc_msg_zero\<lparr> im_tag := 7 \<rparr>)) mail_caps = Done IPC_OK None mail_sent"
    by (auto simp: mail_sent_def letter_def split: outcome.splits)
  have v: "recv_verdict 3 0x10000 (Some 0x11000)
      (fold after_call [C_Port_Create 5 CAP_IPC_SEND CAP_IPC_RECV, C_Send 2 0x10001 (letter 9)] mail_sent) = IPC_OK"
    by code_simp
  show ?thesis using ipc_delivers [OF p s _ v] by auto
qed

lemma mail_system_env: "env_ok mail_system"
proof -
  have "list_all (\<lambda>e. case en_ctx e of Run p \<Rightarrow> True | Susp s f \<Rightarrow> False) (g_entries (k_sched mail_system))" by code_simp
  then have "\<forall>e\<in>set (g_entries (k_sched mail_system)). ctx_sealed (en_ctx e)" by (metis (no_types, lifting) ctx.exhaust ctx.simps(6) ctx_sealed.simps(1) list_all_iff)
  moreover have "list_all (\<lambda>s. \<not> pt_slot_occupied s) (g_ports (k_ports mail_system))" by code_simp
  then have "all_sealed (k_ports mail_system)"
    by (auto simp: all_sealed_def list_all_length port_view_def elim!: handle_map_SomeD)
  ultimately show ?thesis by (simp add: env_ok_def)
qed

theorem envelopes_well_formed_witness:
  "\<exists>k'. proc_sched_run mail_system = Some (Ended PROC_SCHED_ERR_DEADLOCK, k') \<and> env_ok k'"
proof -
  obtain k' where k': "proc_sched_run mail_system = Some (Ended PROC_SCHED_ERR_DEADLOCK, k')"
    using mail_run unfolding mail_end_def by auto
  have i: "g_current_index (k_sched mail_system) = None" "\<not> g_dispatching (k_sched mail_system)" by code_simp+
  show ?thesis using k' envelopes_well_formed [OF mail_system_ok i mail_system_env k'] by blast
qed

end
