(* ===== verification/Sha512.thy ===== *)
theory Sha512
  imports Prelude
begin

text \<open>
  \<^verbatim>\<open>kernel/crypto/sha512.c\<close>: the streaming SHA-512 of the kernel.  The reference below follows FIPS
  180-4: pad the whole message, cut it into blocks, compress them in order.  The streaming interface
  is shown to compute the reference whatever the sizes of the pieces it is fed.
\<close>

section \<open>Definitions\<close>

abbreviation SHA512_BLOCK_SIZE :: nat where "SHA512_BLOCK_SIZE \<equiv> 128"
abbreviation SHA512_HASH_SIZE :: nat where "SHA512_HASH_SIZE \<equiv> 64"

record sha512_ctx_t =
  sx_state :: "u64 list"
  sx_count0 :: u64
  sx_count1 :: u64
  sx_buffer :: "u8 list"

definition sha512_k :: "u64 list" where
  "sha512_k = concat [
     [0x428a2f98d728ae22, 0x7137449123ef65cd, 0xb5c0fbcfec4d3b2f, 0xe9b5dba58189dbbc],
     [0x3956c25bf348b538, 0x59f111f1b605d019, 0x923f82a4af194f9b, 0xab1c5ed5da6d8118],
     [0xd807aa98a3030242, 0x12835b0145706fbe, 0x243185be4ee4b28c, 0x550c7dc3d5ffb4e2],
     [0x72be5d74f27b896f, 0x80deb1fe3b1696b1, 0x9bdc06a725c71235, 0xc19bf174cf692694],
     [0xe49b69c19ef14ad2, 0xefbe4786384f25e3, 0x0fc19dc68b8cd5b5, 0x240ca1cc77ac9c65],
     [0x2de92c6f592b0275, 0x4a7484aa6ea6e483, 0x5cb0a9dcbd41fbd4, 0x76f988da831153b5],
     [0x983e5152ee66dfab, 0xa831c66d2db43210, 0xb00327c898fb213f, 0xbf597fc7beef0ee4],
     [0xc6e00bf33da88fc2, 0xd5a79147930aa725, 0x06ca6351e003826f, 0x142929670a0e6e70],
     [0x27b70a8546d22ffc, 0x2e1b21385c26c926, 0x4d2c6dfc5ac42aed, 0x53380d139d95b3df],
     [0x650a73548baf63de, 0x766a0abb3c77b2a8, 0x81c2c92e47edaee6, 0x92722c851482353b],
     [0xa2bfe8a14cf10364, 0xa81a664bbc423001, 0xc24b8b70d0f89791, 0xc76c51a30654be30],
     [0xd192e819d6ef5218, 0xd69906245565a910, 0xf40e35855771202a, 0x106aa07032bbd1b8],
     [0x19a4c116b8d2d0c8, 0x1e376c085141ab53, 0x2748774cdf8eeb99, 0x34b0bcb5e19b48a8],
     [0x391c0cb3c5c95a63, 0x4ed8aa4ae3418acb, 0x5b9cca4f7763e373, 0x682e6ff3d6b2b8a3],
     [0x748f82ee5defb2fc, 0x78a5636f43172f60, 0x84c87814a1f0ab72, 0x8cc702081a6439ec],
     [0x90befffa23631e28, 0xa4506cebde82bde9, 0xbef9a3f7b2c67915, 0xc67178f2e372532b],
     [0xca273eceea26619c, 0xd186b8c721c0c207, 0xeada7dd6cde0eb1e, 0xf57d4f7fee6ed178],
     [0x06f067aa72176fba, 0x0a637dc5a2c898a6, 0x113f9804bef90dae, 0x1b710b35131c471b],
     [0x28db77f523047d84, 0x32caab7b40c72493, 0x3c9ebe0a15c9bebc, 0x431d67c49c100d4c],
     [0x4cc5d4becb3e42b6, 0x597f299cfc657e2a, 0x5fcb6fab3ad6faec, 0x6c44198c4a475817]]"

definition sha512_rotr :: "u64 \<Rightarrow> nat \<Rightarrow> u64" where
  "sha512_rotr x n = drop_bit n x OR push_bit (64 - n) x"

definition sha512_ch :: "u64 \<Rightarrow> u64 \<Rightarrow> u64 \<Rightarrow> u64" where
  "sha512_ch x y z = (x AND y) XOR (NOT x AND z)"

definition sha512_maj :: "u64 \<Rightarrow> u64 \<Rightarrow> u64 \<Rightarrow> u64" where
  "sha512_maj x y z = (x AND y) XOR (x AND z) XOR (y AND z)"

definition sha512_sigma0 :: "u64 \<Rightarrow> u64" where
  "sha512_sigma0 x = sha512_rotr x 28 XOR sha512_rotr x 34 XOR sha512_rotr x 39"

definition sha512_sigma1 :: "u64 \<Rightarrow> u64" where
  "sha512_sigma1 x = sha512_rotr x 14 XOR sha512_rotr x 18 XOR sha512_rotr x 41"

definition sha512_gamma0 :: "u64 \<Rightarrow> u64" where
  "sha512_gamma0 x = sha512_rotr x 1 XOR sha512_rotr x 8 XOR drop_bit 7 x"

definition sha512_gamma1 :: "u64 \<Rightarrow> u64" where
  "sha512_gamma1 x = sha512_rotr x 19 XOR sha512_rotr x 61 XOR drop_bit 6 x"

definition sha512_load_be64 :: "u8 list \<Rightarrow> nat \<Rightarrow> u64" where
  "sha512_load_be64 p i =
     push_bit 56 (ucast (p ! i)) OR push_bit 48 (ucast (p ! (i + 1))) OR push_bit 40 (ucast (p ! (i + 2))) OR
     push_bit 32 (ucast (p ! (i + 3))) OR push_bit 24 (ucast (p ! (i + 4))) OR push_bit 16 (ucast (p ! (i + 5))) OR
     push_bit 8 (ucast (p ! (i + 6))) OR ucast (p ! (i + 7))"

definition sha512_store_be64 :: "u64 \<Rightarrow> u8 list" where
  \<comment> \<open>the eight bytes stored\<close>
  "sha512_store_be64 v =
    [ucast (drop_bit 56 v), ucast (drop_bit 48 v), ucast (drop_bit 40 v), ucast (drop_bit 32 v),
     ucast (drop_bit 24 v), ucast (drop_bit 16 v), ucast (drop_bit 8 v), ucast v]"

definition sha512_schedule :: "u8 list \<Rightarrow> u64 list" where
  \<comment> \<open>the two loops that fill \<open>w\<close>\<close>
  "sha512_schedule block =
     fold (\<lambda>i w. w @ [sha512_gamma1 (w ! (i - 2)) + w ! (i - 7) + sha512_gamma0 (w ! (i - 15)) + w ! (i - 16)]) [16..<80]
       (map (\<lambda>i. sha512_load_be64 block (i * 8)) [0..<16])"

type_synonym sha512_regs = "u64 \<times> u64 \<times> u64 \<times> u64 \<times> u64 \<times> u64 \<times> u64 \<times> u64"

fun sha512_round :: "u64 list \<Rightarrow> nat \<Rightarrow> sha512_regs \<Rightarrow> sha512_regs" where
  "sha512_round w i (a, b, c, d, e, f, g, h) =
    (let t1 = h + sha512_sigma1 e + sha512_ch e f g + sha512_k ! i + w ! i;
         t2 = sha512_sigma0 a + sha512_maj a b c
     in (t1 + t2, a, b, c, d + t1, e, f, g))"

definition sha512_compress :: "u64 list \<Rightarrow> u8 list \<Rightarrow> u64 list" where
  "sha512_compress s block =
    (case fold (sha512_round (sha512_schedule block)) [0..<80] (s ! 0, s ! 1, s ! 2, s ! 3, s ! 4, s ! 5, s ! 6, s ! 7) of
       (a, b, c, d, e, f, g, h) \<Rightarrow>
         [s ! 0 + a, s ! 1 + b, s ! 2 + c, s ! 3 + d, s ! 4 + e, s ! 5 + f, s ! 6 + g, s ! 7 + h])"

definition sha512_transform :: "sha512_ctx_t \<Rightarrow> u8 list \<Rightarrow> sha512_ctx_t" where
  "sha512_transform ctx block = ctx\<lparr> sx_state := sha512_compress (sx_state ctx) block \<rparr>"

definition sha512_init :: "sha512_ctx_t \<Rightarrow> sha512_ctx_t" where
  "sha512_init ctx = ctx\<lparr>
     sx_state :=
       [0x6a09e667f3bcc908, 0xbb67ae8584caa73b, 0x3c6ef372fe94f82b, 0xa54ff53a5f1d36f1,
     0x510e527fade682d1, 0x9b05688c2b3e6c1f, 0x1f83d9abfb41bd6b, 0x5be0cd19137e2179],
     sx_count0 := 0, sx_count1 := 0 \<rparr>"

function sha512_blocks :: "sha512_ctx_t \<Rightarrow> u8 list \<Rightarrow> sha512_ctx_t \<times> u8 list" where
  \<comment> \<open>\<^verbatim>\<open>while (len >= SHA512_BLOCK_SIZE)\<close>, with the rest of the data\<close>
  "sha512_blocks ctx data =
    (if length data \<ge> SHA512_BLOCK_SIZE
     then sha512_blocks (sha512_transform ctx (take SHA512_BLOCK_SIZE data)) (drop SHA512_BLOCK_SIZE data)
     else (ctx, data))"
  by auto
termination by (relation "measure (\<lambda>(ctx, data). length data)") auto

definition buf_put :: "nat \<Rightarrow> u8 list \<Rightarrow> u8 list \<Rightarrow> u8 list" where
  \<comment> \<open>\<^verbatim>\<open>for (i = 0; i < n; ++i) buffer[off + i] = bytes[i]\<close>\<close>
  "buf_put off bytes buffer = take off buffer @ bytes @ drop (off + length bytes) buffer"

definition sha512_feed :: "sha512_ctx_t \<Rightarrow> nat \<Rightarrow> u8 list \<Rightarrow> sha512_ctx_t" where
  \<comment> \<open>the data part of \<open>sha512_update\<close>: fill the buffer, process whole blocks, buffer the rest\<close>
  "sha512_feed ctx buffered data =
    (let (ctx, data) =
           (if buffered > 0 then
              let space = SHA512_BLOCK_SIZE - buffered;
                  copy_len = (if length data < space then length data else space);
                  ctx = ctx\<lparr> sx_buffer := buf_put buffered (take copy_len data) (sx_buffer ctx) \<rparr>
              in (if buffered + copy_len = SHA512_BLOCK_SIZE then sha512_transform ctx (sx_buffer ctx) else ctx, drop copy_len data)
            else (ctx, data));
         (ctx, data) = sha512_blocks ctx data
     in ctx\<lparr> sx_buffer := buf_put 0 data (sx_buffer ctx) \<rparr>)"

definition sha512_update :: "sha512_ctx_t \<Rightarrow> u8 list option \<Rightarrow> sha512_ctx_t" where
  "sha512_update ctx data =
    (case data of
       None \<Rightarrow> ctx
     | Some data \<Rightarrow>
        if data = [] then ctx
        else
          let len = of_nat (length data);
              buffered = unat (sx_count0 ctx AND 0x7F);
              ctx = ctx\<lparr> sx_count0 := sx_count0 ctx + len \<rparr>;
              ctx = (if sx_count0 ctx < len then ctx\<lparr> sx_count1 := sx_count1 ctx + 1 \<rparr> else ctx)
          in sha512_feed ctx buffered data)"

definition sha512_final :: "sha512_ctx_t \<Rightarrow> sha512_ctx_t \<times> u8 list" where
  \<comment> \<open>the context and the 64 bytes written to \<open>out\<close>\<close>
  "sha512_final ctx =
    (let buffered = unat (sx_count0 ctx AND 0x7F);
         bit_count_lo = push_bit 3 (sx_count0 ctx);
         bit_count_hi = push_bit 3 (sx_count1 ctx) OR drop_bit 61 (sx_count0 ctx);
         ctx = ctx\<lparr> sx_buffer := (sx_buffer ctx)[buffered := 0x80] \<rparr>;
         buffered = buffered + 1;
         (ctx, buffered) =
           (if buffered > 112 then
              let ctx = ctx\<lparr> sx_buffer := buf_put buffered (replicate (SHA512_BLOCK_SIZE - buffered) 0) (sx_buffer ctx) \<rparr>
              in (sha512_transform ctx (sx_buffer ctx), 0)
            else (ctx, buffered));
         ctx = ctx\<lparr> sx_buffer := buf_put buffered (replicate (112 - buffered) 0) (sx_buffer ctx) \<rparr>;
         ctx = ctx\<lparr> sx_buffer := buf_put 112 (sha512_store_be64 bit_count_hi) (sx_buffer ctx) \<rparr>;
         ctx = ctx\<lparr> sx_buffer := buf_put 120 (sha512_store_be64 bit_count_lo) (sx_buffer ctx) \<rparr>;
         ctx = sha512_transform ctx (sx_buffer ctx)
     in (ctx, concat (map sha512_store_be64 (sx_state ctx))))"

definition sha512_hash :: "sha512_ctx_t \<Rightarrow> u8 list option \<Rightarrow> u8 list" where
  \<comment> \<open>the first argument is the uninitialised local context\<close>
  "sha512_hash ctx data = snd (sha512_final (sha512_update (sha512_init ctx) data))"

section \<open>Reference (FIPS 180-4)\<close>

definition be_value :: "u8 list \<Rightarrow> nat" where
  "be_value = foldl (\<lambda>a b. 256 * a + unat b) 0"

primrec be_bytes :: "nat \<Rightarrow> nat \<Rightarrow> u8 list" where
  "be_bytes 0 v = []"
| "be_bytes (Suc n) v = be_bytes n (v div 256) @ [of_nat v]"

fun fips_w :: "u8 list \<Rightarrow> nat \<Rightarrow> u64" where
  "fips_w block t =
    (if t < 16 then of_nat (be_value (take 8 (drop (8 * t) block)))
     else (word_rotr 19 (fips_w block (t - 2)) XOR word_rotr 61 (fips_w block (t - 2)) XOR drop_bit 6 (fips_w block (t - 2))) +
          fips_w block (t - 7) +
          (word_rotr 1 (fips_w block (t - 15)) XOR word_rotr 8 (fips_w block (t - 15)) XOR drop_bit 7 (fips_w block (t - 15))) +
          fips_w block (t - 16))"

declare fips_w.simps [simp del]

fun fips_round :: "u8 list \<Rightarrow> nat \<Rightarrow> sha512_regs \<Rightarrow> sha512_regs" where
  "fips_round block t (a, b, c, d, e, f, g, h) =
    (let t1 = h + (word_rotr 14 e XOR word_rotr 18 e XOR word_rotr 41 e) + ((e AND f) XOR (NOT e AND g)) + sha512_k ! t + fips_w block t;
         t2 = (word_rotr 28 a XOR word_rotr 34 a XOR word_rotr 39 a) + ((a AND b) XOR (a AND c) XOR (b AND c))
     in (t1 + t2, a, b, c, d + t1, e, f, g))"

fun regs_list :: "sha512_regs \<Rightarrow> u64 list" where
  "regs_list (a, b, c, d, e, f, g, h) = [a, b, c, d, e, f, g, h]"

definition fips_compress :: "u64 list \<Rightarrow> u8 list \<Rightarrow> u64 list" where
  "fips_compress s block =
     map2 (+) s (regs_list (fold (fips_round block) [0..<80] (s ! 0, s ! 1, s ! 2, s ! 3, s ! 4, s ! 5, s ! 6, s ! 7)))"

function run_blocks :: "u64 list \<Rightarrow> u8 list \<Rightarrow> u64 list" where
  \<comment> \<open>compress the complete blocks of a byte string in order\<close>
  "run_blocks s m =
    (if length m < SHA512_BLOCK_SIZE then s
     else run_blocks (fips_compress s (take SHA512_BLOCK_SIZE m)) (drop SHA512_BLOCK_SIZE m))"
  by auto
termination by (relation "measure (\<lambda>(s, m). length m)") auto

declare run_blocks.simps [simp del] sha512_blocks.simps [simp del]

definition fips_pad :: "u8 list \<Rightarrow> u8 list" where
  \<comment> \<open>one bit, zeros up to 112 modulo 128 bytes, the length in bits\<close>
  "fips_pad m = m @ [0x80] @ replicate ((239 - length m mod 128) mod 128) 0 @ be_bytes 16 (8 * length m)"

definition sha512_iv :: "u64 list" where
  "sha512_iv =
    [0x6a09e667f3bcc908, 0xbb67ae8584caa73b, 0x3c6ef372fe94f82b, 0xa54ff53a5f1d36f1,
     0x510e527fade682d1, 0x9b05688c2b3e6c1f, 0x1f83d9abfb41bd6b, 0x5be0cd19137e2179]"

definition fips_sha512 :: "u8 list \<Rightarrow> u8 list" where
  "fips_sha512 m = concat (map (\<lambda>w. be_bytes 8 (unat w)) (run_blocks sha512_iv (fips_pad m)))"

section \<open>Lemmas\<close>

subsection \<open>The compression function\<close>

lemma rotr_eq: "0 < n \<Longrightarrow> n < 64 \<Longrightarrow> sha512_rotr x n = word_rotr n x"
proof (rule bit_word_eqI)
  fix i assume n: "0 < n" "n < 64" and i: "i < LENGTH(64)"
  show "bit (sha512_rotr x n) i = bit (word_rotr n x) i"
  proof (cases "i + n < 64")
    case True
    then show ?thesis using n by (auto simp: sha512_rotr_def bit_simps add.commute)
  next
    case False
    then have "(i + n) mod 64 = i - (64 - n)" using n i by (simp add: mod_if)
    then show ?thesis using False n i by (auto simp: sha512_rotr_def bit_simps dest: bit_imp_le_length)
  qed
qed

lemmas sha_fun_eqs = sha512_ch_def sha512_maj_def sha512_sigma0_def sha512_sigma1_def sha512_gamma0_def sha512_gamma1_def rotr_eq

lemma horner_or: "push_bit 8 (of_nat n) OR ucast b = (of_nat (256 * n + unat b) :: u64)" for b :: u8
proof -
  have "push_bit 8 (of_nat n :: u64) AND ucast b = 0"
    by (rule bit_word_eqI) (auto simp: bit_simps dest: bit_imp_le_length)
  then have "push_bit 8 (of_nat n :: u64) OR ucast b = push_bit 8 (of_nat n) + ucast b" by (simp add: disjunctive_add_eq_or)
  also have "\<dots> = of_nat (256 * n + unat b)" by (simp add: push_bit_eq_mult unsigned_of_nat mult.commute)
  finally show ?thesis .
qed

lemma load_be64:
  assumes "i + 8 \<le> length p"
  shows "sha512_load_be64 p i = of_nat (be_value (take 8 (drop i p)))"
proof -
  have "take 8 (drop i p) = map (\<lambda>j. p ! (i + j)) [0..<8]"
    using assms by (auto intro: nth_equalityI)
  also have "[0..<8] = [0, 1, 2, 3, 4, 5, 6, 7 :: nat]" by code_simp
  finally have t: "take 8 (drop i p) = [p ! i, p ! (i + 1), p ! (i + 2), p ! (i + 3), p ! (i + 4), p ! (i + 5), p ! (i + 6), p ! (i + 7)]"
    by simp
  have "sha512_load_be64 p i =
    push_bit 8 (push_bit 8 (push_bit 8 (push_bit 8 (push_bit 8 (push_bit 8 (push_bit 8 (ucast (p ! i)) OR ucast (p ! (i + 1))) OR
      ucast (p ! (i + 2))) OR ucast (p ! (i + 3))) OR ucast (p ! (i + 4))) OR ucast (p ! (i + 5))) OR ucast (p ! (i + 6))) OR ucast (p ! (i + 7))"
    by (simp add: sha512_load_be64_def push_bit_or push_bit_push_bit or.assoc)
  also have "ucast (p ! i) = (of_nat (unat (p ! i)) :: u64)" by simp
  finally show ?thesis unfolding t be_value_def horner_or by simp
qed

lemma be_bytes_8:
  "be_bytes 8 x = [of_nat (x div 2 ^ 56), of_nat (x div 2 ^ 48), of_nat (x div 2 ^ 40), of_nat (x div 2 ^ 32),
     of_nat (x div 2 ^ 24), of_nat (x div 2 ^ 16), of_nat (x div 2 ^ 8), of_nat x]"
proof -
  have e: "8 = Suc (Suc (Suc (Suc (Suc (Suc (Suc (Suc 0)))))))" by simp
  show ?thesis unfolding e be_bytes.simps by (simp add: div_mult2_eq [symmetric])
qed

lemma store_be64: "sha512_store_be64 v = be_bytes 8 (unat v)"
proof -
  have u: "ucast (drop_bit k v) = (of_nat (unat v div 2 ^ k) :: u8)" for k
  proof -
    have "unat v div 2 ^ k = unat (drop_bit k v)" using unat_drop_bit_eq [of k v] drop_bit_eq_div [of k "unat v"] by simp
    then show ?thesis by simp
  qed
  show ?thesis unfolding sha512_store_be64_def be_bytes_8 u using u [of 0] by simp
qed

lemma schedule_eq:
  assumes "length block = 128"
  shows "sha512_schedule block = map (fips_w block) [0..<80]"
proof -
  let ?step = "\<lambda>i w. w @ [sha512_gamma1 (w ! (i - 2)) + w ! (i - 7) + sha512_gamma0 (w ! (i - 15)) + w ! (i - 16)]"
  have base: "map (\<lambda>i. sha512_load_be64 block (i * 8)) [0..<16] = map (fips_w block) [0..<16]"
    using assms by (auto simp: fips_w.simps load_be64 mult.commute)
  have "fold ?step [16..<16 + n] (map (fips_w block) [0..<16]) = map (fips_w block) [0..<16 + n]" for n
  proof (induction n)
    case (Suc n)
    have u: "[16..<16 + Suc n] = [16..<16 + n] @ [16 + n]" and u0: "[0..<16 + Suc n] = [0..<16 + n] @ [16 + n]"
      by (metis add_Suc_right le_add1 upt_Suc_append, metis add_Suc_right le0 upt_Suc_append)
    have w: "fips_w block (16 + n) = sha512_gamma1 (fips_w block (14 + n)) + fips_w block (9 + n) +
        sha512_gamma0 (fips_w block (1 + n)) + fips_w block n"
      by (subst fips_w.simps) (simp add: sha_fun_eqs)
    show ?case unfolding u u0 fold_append comp_apply Suc by (simp add: w del: upt_Suc)
  qed simp
  from this [of 64] show ?thesis unfolding sha512_schedule_def base by (simp only: numeral_plus_numeral semiring_norm)
qed

lemma length_8: "length s = 8 \<Longrightarrow> s = [s ! 0, s ! 1, s ! 2, s ! 3, s ! 4, s ! 5, s ! 6, s ! 7]"
  by (rule nth_equalityI) (auto simp: less_Suc_eq numeral_eq_Suc)

lemma compress_eq:
  assumes "length block = 128" "length s = 8"
  shows "sha512_compress s block = fips_compress s block"
proof -
  have "sha512_round (sha512_schedule block) i r = fips_round block i r" if "i < 80" for i r
    using that by (cases r rule: regs_list.cases) (simp add: schedule_eq [OF assms(1)] sha_fun_eqs Let_def del: upt_Suc)
  then have f: "fold (sha512_round (sha512_schedule block)) [0..<80] r = fold (fips_round block) [0..<80] r" for r
    by (intro fold_cong) auto
  obtain a b c d e f' g h where r: "fold (fips_round block) [0..<80] (s ! 0, s ! 1, s ! 2, s ! 3, s ! 4, s ! 5, s ! 6, s ! 7) = (a, b, c, d, e, f', g, h)"
    by (metis surj_pair)
  have "map2 (+) s [a, b, c, d, e, f', g, h] = map2 (+) [s ! 0, s ! 1, s ! 2, s ! 3, s ! 4, s ! 5, s ! 6, s ! 7] [a, b, c, d, e, f', g, h]"
    using length_8 [OF assms(2)] by metis
  then show ?thesis unfolding sha512_compress_def fips_compress_def f r by simp
qed

lemma length_regs [simp]: "length (regs_list r) = 8"
  by (cases r rule: regs_list.cases) simp

lemma length_fips_compress [simp]: "length s = 8 \<Longrightarrow> length (fips_compress s block) = 8"
  using length_regs by (simp add: fips_compress_def)

lemma length_run_blocks [simp]: "length s = 8 \<Longrightarrow> length (run_blocks s m) = 8"
  by (induction s m rule: run_blocks.induct) (subst run_blocks.simps, simp)

lemma run_blocks_short: "length m < 128 \<Longrightarrow> run_blocks s m = s"
  by (simp add: run_blocks.simps)

lemma run_blocks_append:
  "128 dvd length xs \<Longrightarrow> run_blocks s (xs @ ys) = run_blocks (run_blocks s xs) ys"
proof (induction s xs rule: run_blocks.induct)
  case (1 s xs)
  show ?case
  proof (cases "length xs < 128")
    case True
    then have "xs = []" using "1.prems" by (auto dest: dvd_imp_le)
    then show ?thesis by (simp add: run_blocks_short)
  next
    case False
    then have "run_blocks s (xs @ ys) = run_blocks (fips_compress s (take 128 xs)) (drop 128 xs @ ys)"
      by (subst run_blocks.simps) simp
    also have "\<dots> = run_blocks (run_blocks (fips_compress s (take 128 xs)) (drop 128 xs)) ys"
      using False "1.prems" by (intro "1.IH") (auto simp: dvd_diff_nat)
    also have "run_blocks (fips_compress s (take 128 xs)) (drop 128 xs) = run_blocks s xs"
      using False by (subst (2) run_blocks.simps) simp
    finally show ?thesis .
  qed
qed

lemma run_blocks_one: "length b = 128 \<Longrightarrow> run_blocks s b = fips_compress s b"
  by (subst run_blocks.simps) (simp add: run_blocks_short)

lemma sha512_blocks_eq:
  "length (sx_state ctx) = 8 \<Longrightarrow> sha512_blocks ctx data =
    (ctx\<lparr> sx_state := run_blocks (sx_state ctx) data \<rparr>, drop (128 * (length data div 128)) data)"
proof (induction ctx data rule: sha512_blocks.induct)
  case (1 ctx data)
  show ?case
  proof (cases "length data < 128")
    case True
    then show ?thesis by (subst sha512_blocks.simps) (simp add: run_blocks_short)
  next
    case False
    let ?c = "sha512_transform ctx (take 128 data)"
    have st: "sx_state ?c = fips_compress (sx_state ctx) (take 128 data)"
      using False "1.prems" by (simp add: sha512_transform_def compress_eq)
    have "128 * (length data div 128) = 128 * ((length data - 128) div 128) + 128" using False by (simp add: div_if)
    then have d: "drop (128 * ((length data - 128) div 128)) (drop 128 data) = drop (128 * (length data div 128)) data" by simp
    have "sha512_blocks ctx data = sha512_blocks ?c (drop 128 data)" using False by (subst sha512_blocks.simps) simp
    also have "\<dots> = (?c\<lparr> sx_state := run_blocks (sx_state ?c) (drop 128 data) \<rparr>, drop (128 * (length data div 128)) data)"
      using False "1.prems" "1.IH" d by (simp add: st)
    also have "run_blocks (sx_state ?c) (drop 128 data) = run_blocks (sx_state ctx) data"
      using False by (subst (2) run_blocks.simps) (simp add: st)
    finally show ?thesis by (simp add: sha512_transform_def)
  qed
qed

subsection \<open>Absorbing a message\<close>

definition rest :: "u8 list \<Rightarrow> u8 list" where
  \<comment> \<open>what follows the complete blocks\<close>
  "rest m = drop (128 * (length m div 128)) m"

lemma length_rest [simp]: "length (rest m) = length m mod 128"
  by (simp add: rest_def minus_mult_div_eq_mod)

lemma rest_append: "128 dvd length xs \<Longrightarrow> rest (xs @ ys) = rest ys"
  by (auto simp: rest_def elim!: dvdE)

lemma whole_blocks:
  obtains m0 where "m = m0 @ rest m" "128 dvd length m0" "run_blocks s m = run_blocks s m0"
proof -
  let ?m0 = "take (128 * (length m div 128)) m"
  have m: "m = ?m0 @ rest m" by (simp add: rest_def)
  have d: "128 dvd length ?m0" by simp
  have "run_blocks s m = run_blocks s ?m0"
    by (subst m, subst run_blocks_append [OF d]) (simp add: run_blocks_short)
  then show ?thesis using that m d by blast
qed

lemma run_blocks_rest: "run_blocks s (m @ d) = run_blocks (run_blocks s m) (rest m @ d)" "rest (m @ d) = rest (rest m @ d)"
proof -
  obtain m0 where m0: "m = m0 @ rest m" "128 dvd length m0" "run_blocks s m = run_blocks s m0" by (rule whole_blocks)
  show "run_blocks s (m @ d) = run_blocks (run_blocks s m) (rest m @ d)"
    by (subst m0(1)) (simp add: run_blocks_append [OF m0(2)] m0(3))
  show "rest (m @ d) = rest (rest m @ d)"
    by (subst m0(1)) (simp add: rest_append [OF m0(2)])
qed

definition absorbed :: "sha512_ctx_t \<Rightarrow> u8 list \<Rightarrow> bool" where
  "absorbed ctx m \<longleftrightarrow> sx_state ctx = run_blocks sha512_iv m \<and> length (sx_buffer ctx) = 128 \<and>
     take (length m mod 128) (sx_buffer ctx) = rest m \<and>
     unat (sx_count0 ctx) + 2 ^ 64 * unat (sx_count1 ctx) = length m mod 2 ^ 128"

lemma and_7F: "unat (c AND 0x7F) = unat c mod 128" for c :: u64
proof -
  have "(0x7F :: u64) = mask 7" by (simp add: mask_eq_exp_minus_1)
  then have "unat (c AND 0x7F) = unat (take_bit 7 c)" by (simp only: take_bit_eq_mask)
  then show ?thesis unfolding unsigned_take_bit_eq by (simp add: take_bit_eq_mod)
qed

lemma buffered_eq: "absorbed ctx m \<Longrightarrow> unat (sx_count0 ctx AND 0x7F) = length m mod 128"
proof -
  assume a: "absorbed ctx m"
  have "length m mod 128 = (length m mod 2 ^ 128) mod 128" by (simp add: mod_mod_cancel)
  also have "\<dots> = (unat (sx_count0 ctx) + 2 ^ 64 * unat (sx_count1 ctx)) mod 128" using a by (simp add: absorbed_def)
  also have "\<dots> = unat (sx_count0 ctx) mod 128" by (simp add: mod_add_eq [symmetric] mod_mult_left_eq [symmetric])
  finally show ?thesis by (simp add: and_7F)
qed

lemma count_add:
  fixes c0 c1 :: u64
  assumes n: "n < 2 ^ 64" and c: "unat c0 + 2 ^ 64 * unat c1 = l mod 2 ^ 128"
  defines "s \<equiv> c0 + of_nat n"
  shows "unat s + 2 ^ 64 * unat (if s < of_nat n then c1 + 1 else c1) = (l + n) mod 2 ^ 128"
proof -
  have un: "unat (of_nat n :: u64) = n" using n by (simp add: unat_of_nat)
  have us: "unat s = (unat c0 + n) mod 2 ^ 64" by (simp add: s_def unat_word_ariths un)
  have b: "unat c0 < 2 ^ 64" "unat c1 < 2 ^ 64" using unat_word_bound [of c0] unat_word_bound [of c1] by simp_all
  have wrap: "unat s = unat c0 + n - 2 ^ 64" if "2 ^ 64 \<le> unat c0 + n" unfolding us using that b n by (simp add: mod_if)
  have carry: "s < of_nat n \<longleftrightarrow> 2 ^ 64 \<le> unat c0 + n"
  proof (cases "2 ^ 64 \<le> unat c0 + n")
    case True
    then show ?thesis using wrap b n un by (simp add: word_less_nat_alt)
  next
    case False
    then have "unat s = unat c0 + n" unfolding us by simp
    then show ?thesis using False un by (simp add: word_less_nat_alt)
  qed
  have lt: "unat s + 2 ^ 64 * unat d < 2 ^ 128" for d :: u64
  proof -
    have "unat s < 2 ^ 64" "unat d < 2 ^ 64" using unat_word_bound [of s] unat_word_bound [of d] by simp_all
    then have "unat s + 2 ^ 64 * unat d < 2 ^ 64 * (unat d + 1)" "2 ^ 64 * (unat d + 1) \<le> 2 ^ 64 * 2 ^ 64"
      by (simp, intro mult_le_mono) simp_all
    then show ?thesis by simp
  qed
  have "(unat s + 2 ^ 64 * unat (if s < of_nat n then c1 + 1 else c1)) mod 2 ^ 128 = (unat c0 + 2 ^ 64 * unat c1 + n) mod 2 ^ 128"
  proof (cases "2 ^ 64 \<le> unat c0 + n")
    case True
    have s: "unat s + 2 ^ 64 = unat c0 + n" using wrap True by simp
    have "unat (c1 + 1) = (unat c1 + 1) mod 2 ^ 64" by (simp add: unat_word_ariths)
    then have "2 ^ 64 * unat (c1 + 1) = (2 ^ 64 * (unat c1 + 1)) mod (2 ^ 64 * 2 ^ 64)" by (simp only: mult_mod_right)
    then have "(unat s + 2 ^ 64 * unat (c1 + 1)) mod 2 ^ 128 = (unat s + 2 ^ 64 * (unat c1 + 1)) mod 2 ^ 128"
      by (simp add: mod_add_right_eq)
    also have "unat s + 2 ^ 64 * (unat c1 + 1) = unat c0 + 2 ^ 64 * unat c1 + n" using s by simp
    finally show ?thesis using carry True by simp
  next
    case False
    then have "unat s + 2 ^ 64 * unat c1 = unat c0 + 2 ^ 64 * unat c1 + n" unfolding us by simp
    then show ?thesis using carry False by (simp add: ac_simps)
  qed
  also have "\<dots> = (l + n) mod 2 ^ 128" unfolding c by (simp add: mod_add_left_eq)
  finally show ?thesis using lt by simp
qed

lemma length_buf_put [simp]: "off + length bs \<le> length buf \<Longrightarrow> length (buf_put off bs buf) = length buf"
  by (simp add: buf_put_def)

lemma take_buf_put: "off + length bs \<le> length buf \<Longrightarrow> take (off + length bs) (buf_put off bs buf) = take off buf @ bs"
  by (simp add: buf_put_def)

lemma length_iv [simp]: "length sha512_iv = 8"
  by (simp add: sha512_iv_def)

text \<open>The data part of an update, after the counters: the state runs on, the buffer keeps the rest.\<close>

lemma update_data:
  fixes ctx :: sha512_ctx_t and data :: "u8 list"
  assumes len: "length (sx_state ctx) = 8" "length (sx_buffer ctx) = 128" and b: "length p < 128"
    and p: "take (length p) (sx_buffer ctx) = p"
  defines "copy \<equiv> (if length data < 128 - length p then length data else 128 - length p)"
  defines "c1 \<equiv> ctx\<lparr> sx_buffer := buf_put (length p) (take copy data) (sx_buffer ctx) \<rparr>"
  defines "r \<equiv> (if length p > 0 then (if length p + copy = 128 then sha512_transform c1 (sx_buffer c1) else c1, drop copy data) else (ctx, data))"
  defines "c2 \<equiv> sha512_feed ctx (length p) data"
  shows "sx_state c2 = run_blocks (sx_state ctx) (p @ data) \<and> length (sx_buffer c2) = 128 \<and>
    take (length (rest (p @ data))) (sx_buffer c2) = rest (p @ data) \<and> sx_count0 c2 = sx_count0 ctx \<and> sx_count1 c2 = sx_count1 ctx"
proof -
  have c2: "c2 = (case sha512_blocks (fst r) (snd r) of (c, d) \<Rightarrow> c\<lparr> sx_buffer := buf_put 0 d (sx_buffer c) \<rparr>)"
    unfolding c2_def sha512_feed_def Let_def r_def c1_def copy_def by (simp only: case_prod_unfold)
  have fin: "sx_state c2 = run_blocks (sx_state (fst r)) (snd r) \<and> length (sx_buffer c2) = 128 \<and>
      take (length (rest (snd r))) (sx_buffer c2) = rest (snd r) \<and> sx_count0 c2 = sx_count0 ctx \<and> sx_count1 c2 = sx_count1 ctx"
    if s: "length (sx_state (fst r)) = 8" and "length (sx_buffer (fst r)) = 128"
      "sx_count0 (fst r) = sx_count0 ctx" "sx_count1 (fst r) = sx_count1 ctx"
    unfolding c2 sha512_blocks_eq [OF s] using that
    by (simp add: rest_def [symmetric]) (simp add: buf_put_def)
  consider (empty) "p = []" | (part) "p \<noteq> []" "length p + length data < 128" | (full) "p \<noteq> []" "128 \<le> length p + length data"
    by (cases "p = []") force+
  then show ?thesis
  proof cases
    case empty
    then show ?thesis using fin len by (simp add: r_def)
  next
    case part
    then have c: "copy = length data" "r = (c1, [])" by (auto simp: copy_def r_def)
    have t: "take (length p + length data) (sx_buffer c1) = p @ data"
      using take_buf_put [of "length p" data "sx_buffer ctx"] part len p c(1) by (simp add: c1_def)
    have "c2 = c1" unfolding c2 c(2) by (simp add: sha512_blocks.simps buf_put_def)
    then show ?thesis using part len t c(1) by (simp add: rest_def run_blocks_short c1_def)
  next
    case full
    then have c: "copy = 128 - length p" "length p + copy = 128" "copy \<le> length data" using b by (auto simp: copy_def)
    have buf: "sx_buffer c1 = p @ take copy data"
      using take_buf_put [of "length p" "take copy data" "sx_buffer ctx"] len p c by (simp add: c1_def)
    have r: "r = (sha512_transform c1 (p @ take copy data), drop copy data)" using full c(2) by (simp add: r_def buf)
    have d: "p @ data = (p @ take copy data) @ drop copy data" "128 dvd length (p @ take copy data)" "length (p @ take copy data) = 128"
      using c by simp_all
    have st: "sx_state (fst r) = run_blocks (sx_state ctx) (p @ take copy data)"
      using len d(3) by (simp add: r sha512_transform_def compress_eq run_blocks_one c1_def)
    have "run_blocks (sx_state ctx) (p @ data) = run_blocks (sx_state (fst r)) (snd r)" "rest (p @ data) = rest (snd r)"
      unfolding st by (subst d(1), simp only: run_blocks_append [OF d(2)] r snd_conv)
        (subst d(1), simp only: rest_append [OF d(2)] r snd_conv)
    moreover have "length (sx_state (fst r)) = 8" using st len by simp
    moreover have "length (sx_buffer (fst r)) = 128" "sx_count0 (fst r) = sx_count0 ctx" "sx_count1 (fst r) = sx_count1 ctx"
      using buf d(3) by (simp_all add: r sha512_transform_def c1_def)
    ultimately show ?thesis using fin by simp
  qed
qed

lemma absorbed_init: "length (sx_buffer ctx) = 128 \<Longrightarrow> absorbed (sha512_init ctx) []"
  by (simp add: absorbed_def sha512_init_def sha512_iv_def run_blocks_short rest_def)

lemma absorbed_update:
  assumes a: "absorbed ctx m" and n: "length d < 2 ^ 64"
  shows "absorbed (sha512_update ctx (Some d)) (m @ d)"
proof (cases "d = []")
  case False
  let ?c = "ctx\<lparr> sx_count0 := sx_count0 ctx + of_nat (length d),
    sx_count1 := if sx_count0 ctx + of_nat (length d) < of_nat (length d) then sx_count1 ctx + 1 else sx_count1 ctx \<rparr>"
  have u: "sha512_update ctx (Some d) = sha512_feed ?c (length (rest m)) d"
    using False buffered_eq [OF a] by (simp add: sha512_update_def Let_def)
  have l: "length (sx_state ?c) = 8" "length (sx_buffer ?c) = 128" "length (rest m) < 128" "take (length (rest m)) (sx_buffer ?c) = rest m"
    using a by (simp_all add: absorbed_def)
  have cnt: "unat (sx_count0 ?c) + 2 ^ 64 * unat (sx_count1 ?c) = length (m @ d) mod 2 ^ 128"
    using count_add [OF n] a by (simp add: absorbed_def)
  have st: "sx_state ?c = run_blocks sha512_iv m" using a by (simp add: absorbed_def)
  have r: "length (m @ d) mod 128 = length (rest (rest m @ d))" by (simp add: mod_add_left_eq)
  show ?thesis unfolding absorbed_def u run_blocks_rest(1) [of _ m d] run_blocks_rest(2) [of m d] r using update_data [OF l, of d] cnt unfolding st by simp
qed (use a in \<open>simp add: sha512_update_def\<close>)

lemma be_bytes_mod: "be_bytes n (v mod 256 ^ (n + k)) = be_bytes n v"
proof (induction n arbitrary: v k)
  case (Suc n)
  have "v mod 256 ^ (Suc n + k) div 256 = (v div 256) mod 256 ^ (n + k)"
    using mod_mult2_eq [of v 256 "256 ^ (n + k)"] by simp
  moreover have "(of_nat (v mod 256 ^ (Suc n + k)) :: u8) = of_nat v"
    by (simp add: word_of_nat_eq_iff take_bit_eq_mod mod_mod_cancel)
  ultimately show ?case by (simp add: Suc.IH)
qed simp

lemma be_bytes_add: "be_bytes (a + b) v = be_bytes a (v div 256 ^ b) @ be_bytes b v"
  by (induction b arbitrary: v) (simp_all add: div_mult2_eq)

lemma length_be_bytes [simp]: "length (be_bytes n v) = n"
  by (induction n arbitrary: v) simp_all

lemma be_bytes_cong: "a mod 256 ^ n = b mod 256 ^ n \<Longrightarrow> be_bytes n a = be_bytes n b"
  using be_bytes_mod [of n a 0] be_bytes_mod [of n b 0] by simp

lemma bit_count:
  fixes c0 c1 :: u64
  assumes c: "unat c0 + 2 ^ 64 * unat c1 = l mod 2 ^ 128"
  shows "sha512_store_be64 (push_bit 3 c1 OR drop_bit 61 c0) @ sha512_store_be64 (push_bit 3 c0) = be_bytes 16 (8 * l)"
proof -
  let ?n = "unat c0 + 2 ^ 64 * unat c1"
  have "(8 * ?n) mod 256 ^ 16 = (8 * l) mod 256 ^ 16" unfolding c by (simp add: mod_mult_right_eq)
  then have "be_bytes 16 (8 * l) = be_bytes (8 + 8) (8 * ?n)" using be_bytes_cong [of "8 * ?n" 16 "8 * l"] by simp
  also have "\<dots> = be_bytes 8 (8 * ?n div 256 ^ 8) @ be_bytes 8 (8 * ?n)" by (rule be_bytes_add)
  also have "be_bytes 8 (8 * ?n) = be_bytes 8 (unat (push_bit 3 c0))"
  proof (rule be_bytes_cong)
    have "unat (push_bit 3 c0) = (8 * unat c0) mod 2 ^ 64" by (simp add: push_bit_eq_mult unat_word_ariths mult.commute)
    moreover have "(8 * ?n) mod 2 ^ 64 = (8 * unat c0) mod 2 ^ 64"
      using mod_mult_self2 [of "8 * unat c0" "2 ^ 64" "8 * unat c1"] by (simp add: algebra_simps)
    ultimately show "8 * ?n mod 256 ^ 8 = unat (push_bit 3 c0) mod 256 ^ 8" by simp
  qed
  also have "be_bytes 8 (8 * ?n div 256 ^ 8) = be_bytes 8 (unat (push_bit 3 c1 OR drop_bit 61 c0))"
  proof (rule be_bytes_cong)
    have "push_bit 3 c1 AND drop_bit 61 c0 = 0"
      by (rule bit_word_eqI) (auto simp: bit_simps dest: bit_imp_le_length)
    then have "push_bit 3 c1 OR drop_bit 61 c0 = push_bit 3 c1 + drop_bit 61 c0" by (simp add: disjunctive_add_eq_or)
    moreover have "unat (push_bit 3 c1) = (8 * unat c1) mod 2 ^ 64" by (simp add: push_bit_eq_mult unat_word_ariths mult.commute)
    moreover have "unat (drop_bit 61 c0) = unat c0 div 2 ^ 61"
      using unat_drop_bit_eq [of 61 c0] drop_bit_eq_div [of 61 "unat c0"] by simp
    ultimately have "unat (push_bit 3 c1 OR drop_bit 61 c0) = (8 * unat c1 + unat c0 div 2 ^ 61) mod 2 ^ 64"
      by (simp add: unat_word_ariths mod_add_left_eq)
    moreover have "8 * ?n div 2 ^ 64 = 8 * unat c1 + unat c0 div 2 ^ 61"
      by (simp add: algebra_simps)
    ultimately show "8 * ?n div 256 ^ 8 mod 256 ^ 8 = unat (push_bit 3 c1 OR drop_bit 61 c0) mod 256 ^ 8" by simp
  qed
  finally show ?thesis by (simp add: store_be64)
qed

lemma buf_put_end: "length buf = off + length bs \<Longrightarrow> buf_put off bs buf = take off buf @ bs"
  by (simp add: buf_put_def)

lemma put_length:
  assumes "length buf = 128" "take b buf = xs" "length xs = b" "b \<le> 112" "length h = 8" "length l = 8"
  shows "buf_put 120 l (buf_put 112 h (buf_put b (replicate (112 - b) 0) buf)) = xs @ replicate (112 - b) 0 @ h @ l"
proof -
  have "take 112 (buf_put b (replicate (112 - b) 0) buf) = xs @ replicate (112 - b) 0"
    using take_buf_put [of b "replicate (112 - b) 0" buf] assms by simp
  then have "take 120 (buf_put 112 h (buf_put b (replicate (112 - b) 0) buf)) = xs @ replicate (112 - b) 0 @ h"
    using take_buf_put [of 112 h "buf_put b (replicate (112 - b) 0) buf"] assms by simp
  then show ?thesis using buf_put_end [of "buf_put 112 h (buf_put b (replicate (112 - b) 0) buf)" 120 l] assms by simp
qed

lemma absorbed_final:
  assumes a: "absorbed ctx m"
  shows "snd (sha512_final ctx) = fips_sha512 m"
proof -
  let ?b = "length m mod 128" and ?hl = "be_bytes 16 (8 * length m)" and ?s = "run_blocks sha512_iv m"
  let ?buf = "(sx_buffer ctx)[?b := 0x80]"
  define h where "h = sha512_store_be64 (push_bit 3 (sx_count1 ctx) OR drop_bit 61 (sx_count0 ctx))"
  define l where "l = sha512_store_be64 (push_bit 3 (sx_count0 ctx))"
  have hl: "h @ l = ?hl" "length h = 8" "length l = 8" unfolding h_def l_def
    using bit_count [of "sx_count0 ctx" "sx_count1 ctx" "length m"] a by (simp_all add: absorbed_def sha512_store_be64_def)
  have b: "?b < 128" by simp
  have len: "length ?buf = 128" "length (sx_state ctx) = 8" using a by (simp_all add: absorbed_def)
  have buf: "take (Suc ?b) ?buf = rest m @ [0x80]" using a b by (simp add: absorbed_def take_Suc_conv_app_nth)
  have st: "sx_state ctx = ?s" using a by (simp add: absorbed_def)
  have pad: "run_blocks sha512_iv (fips_pad m) = run_blocks ?s (rest m @ [0x80] @ replicate ((239 - ?b) mod 128) 0 @ ?hl)"
    unfolding fips_pad_def by (rule run_blocks_rest(1))
  define blk where "blk = rest m @ [0x80] @ replicate (127 - ?b) 0"
  have "sx_state (fst (sha512_final ctx)) = run_blocks sha512_iv (fips_pad m)"
  proof (cases "?b < 112")
    case True
    have "(239 - b) mod 128 = 111 - b" if "b < 112" for b :: nat using that by (simp add: le_mod_geq)
    then have r: "(239 - ?b) mod 128 = 112 - Suc ?b" using True by simp
    have "length (rest m @ [0x80] @ replicate (112 - Suc ?b) 0 @ ?hl) = 128" using True by simp
    moreover have "buf_put 120 l (buf_put 112 h (buf_put (Suc ?b) (replicate (112 - Suc ?b) 0) ?buf)) =
        rest m @ [0x80] @ replicate (112 - Suc ?b) 0 @ ?hl"
      using put_length [OF len(1) buf] True hl by simp
    ultimately show ?thesis unfolding pad r using len True buffered_eq [OF a]
      by (simp add: sha512_final_def Let_def sha512_transform_def compress_eq run_blocks_one st h_def [symmetric] l_def [symmetric])
  next
    case False
    have r: "(239 - ?b) mod 128 = (127 - ?b) + 112" using False b by simp_all
    have put: "buf_put (Suc ?b) (replicate (127 - ?b) 0) ?buf = blk"
      using buf_put_end [of ?buf "Suc ?b"] len buf b by (simp add: blk_def)
    have blk: "length blk = 128" using False b by (simp add: blk_def)
    have e: "rest m @ [0x80] @ replicate ((239 - ?b) mod 128) 0 @ ?hl = blk @ replicate 112 0 @ ?hl"
      unfolding r by (simp only: replicate_add blk_def append_assoc)
    have "run_blocks sha512_iv (fips_pad m) = fips_compress (fips_compress ?s blk) (replicate 112 0 @ ?hl)"
      unfolding pad e using blk by (simp add: run_blocks_append run_blocks_one)
    moreover have "buf_put 120 l (buf_put 112 h (buf_put 0 (replicate 112 0) blk)) = replicate 112 0 @ ?hl"
      using put_length [OF blk, of 0] hl by simp
    ultimately show ?thesis using len(2) False buffered_eq [OF a] blk put
      by (simp add: sha512_final_def Let_def sha512_transform_def compress_eq st h_def [symmetric] l_def [symmetric])
  qed
  moreover have "snd (sha512_final ctx) = concat (map sha512_store_be64 (sx_state (fst (sha512_final ctx))))"
    by (simp add: sha512_final_def Let_def case_prod_unfold)
  ultimately show ?thesis by (simp add: fips_sha512_def store_be64 [abs_def])
qed

lemma absorbed_updates:
  "absorbed ctx m \<Longrightarrow> \<forall>d \<in> set ds. length d < 2 ^ 64 \<Longrightarrow>
   absorbed (fold (\<lambda>d c. sha512_update c (Some d)) ds ctx) (m @ concat ds)"
  by (induction ds arbitrary: ctx m) (simp, use absorbed_update in fastforce)

section \<open>Property\<close>

text \<open>
  C32: however a message is cut into pieces, initialising a context, feeding the pieces one after the other (each
  shorter than the 64-bit length argument can say) and finishing produces the SHA-512 digest of the whole
  message as the standard defines it, padding and 128-bit length field included; the one-shot call produces
  the same. What the context's memory held before does not matter.
\<close>

theorem sha512_streams:
  assumes "length (sx_buffer ctx) = SHA512_BLOCK_SIZE" "\<forall>d \<in> set ds. length d < 2 ^ 64"
  shows "snd (sha512_final (fold (\<lambda>d c. sha512_update c (Some d)) ds (sha512_init ctx))) = fips_sha512 (concat ds) \<and>
    (length (concat ds) < 2 ^ 64 \<longrightarrow> sha512_hash ctx (Some (concat ds)) = fips_sha512 (concat ds))"
  using absorbed_final [OF absorbed_updates [OF absorbed_init [OF assms(1)] assms(2)]]
    absorbed_final [OF absorbed_update [OF absorbed_init [OF assms(1)]]]
  by (simp_all add: sha512_hash_def)

definition blank_ctx :: sha512_ctx_t where
  "blank_ctx = \<lparr> sx_state = [], sx_count0 = 7, sx_count1 = 9, sx_buffer = replicate 128 0xA5 \<rparr>"

theorem sha512_streams_witness:
  "snd (sha512_final (fold (\<lambda>d c. sha512_update c (Some d)) [[0x61], [], [0x62, 0x63]] (sha512_init blank_ctx))) = fips_sha512 [0x61, 0x62, 0x63] \<and>
   sha512_hash blank_ctx (Some [0x61, 0x62, 0x63]) = fips_sha512 [0x61, 0x62, 0x63]"
  using sha512_streams [of blank_ctx "[[0x61], [], [0x62, 0x63]]"] by (simp_all add: blank_ctx_def)

end
