(* ===== verification/Ed25519_Field.thy ===== *)
theory Ed25519_Field
  imports Sha512 "HOL-Library.Monad_Syntax"
begin

text \<open>
  The field arithmetic of \<^verbatim>\<open>kernel/crypto/ed25519.c\<close>: elements of the integers modulo
  \<open>2 ^ 255 - 19\<close> as sixteen signed 64-bit limbs of 16 bits.  Every arithmetic operation of the code is
  checked: a definition returns \<open>None\<close> where the C program would leave the range of
  \<^verbatim>\<open>int64_t\<close>, whose overflow is undefined.  Shifts of negative values are the arithmetic shifts of
  the supported compilers.  The lemmas show that no overflow occurs on the limbs that arise and that
  the results are the field operations.
\<close>

unbundle bit_operations_syntax

section \<open>Checked arithmetic\<close>

definition in_i64 :: "int \<Rightarrow> bool" where
  "in_i64 v \<longleftrightarrow> - (2 ^ 63) \<le> v \<and> v < 2 ^ 63"

definition chk :: "int list \<Rightarrow> 'a \<Rightarrow> 'a option" where
  \<comment> \<open>\<open>r\<close>, if the intermediate results \<open>vs\<close> are all representable\<close>
  "chk vs r = (if list_all in_i64 vs then Some r else None)"

primrec foldM :: "('a \<Rightarrow> 's \<Rightarrow> 's option) \<Rightarrow> 'a list \<Rightarrow> 's \<Rightarrow> 's option" where
  "foldM f [] s = Some s"
| "foldM f (x # xs) s = f x s \<bind> foldM f xs"

definition returns :: "'a option \<Rightarrow> ('a \<Rightarrow> bool) \<Rightarrow> bool" where
  \<comment> \<open>total correctness\<close>
  "returns m P \<longleftrightarrow> (\<exists>x. m = Some x \<and> P x)"

section \<open>Definitions\<close>

type_synonym gf = "int list"

definition gf0 :: gf where "gf0 = [0, 0, 0, 0, 0, 0, 0, 0, 0, 0, 0, 0, 0, 0, 0, 0]"
definition gf1 :: gf where "gf1 = [1, 0, 0, 0, 0, 0, 0, 0, 0, 0, 0, 0, 0, 0, 0, 0]"

definition gf_D :: gf where
  "gf_D = [0x78a3, 0x1359, 0x4dca, 0x75eb, 0xd8ab, 0x4141, 0x0a4d, 0x0070,
           0xe898, 0x7779, 0x4079, 0x8cc7, 0xfe73, 0x2b6f, 0x6cee, 0x5203]"

definition gf_D2 :: gf where
  "gf_D2 = [0xf159, 0x26b2, 0x9b94, 0xebd6, 0xb156, 0x8283, 0x149a, 0x00e0,
            0xd130, 0xeef3, 0x80f2, 0x198e, 0xfce7, 0x56df, 0xd9dc, 0x2406]"

definition gf_X :: gf where
  "gf_X = [0xd51a, 0x8f25, 0x2d60, 0xc956, 0xa7b2, 0x9525, 0xc760, 0x692c,
           0xdc5c, 0xfdd6, 0xe231, 0xc0a4, 0x53fe, 0xcd6e, 0x36d3, 0x2169]"

definition gf_Y :: gf where
  "gf_Y = [0x6658, 0x6666, 0x6666, 0x6666, 0x6666, 0x6666, 0x6666, 0x6666,
           0x6666, 0x6666, 0x6666, 0x6666, 0x6666, 0x6666, 0x6666, 0x6666]"

definition I_elem :: gf where
  "I_elem = [0xa0b0, 0x4a0e, 0x1b27, 0xc4ee, 0xe478, 0xad2f, 0x1806, 0x2f43,
             0xd7a7, 0x3dfb, 0x0099, 0x2b4d, 0xdf0b, 0x4fc1, 0x2480, 0x2b83]"

definition car_step :: "nat \<Rightarrow> gf \<Rightarrow> gf option" where
  "car_step i o' =
    (let x = o' ! i + push_bit 16 1;
         c = drop_bit 16 x;
         j = (i + 1) * of_bool (i < 15);
         d = c - 1 + 37 * (c - 1) * of_bool (i = 15);
         s = push_bit 16 c
     in chk [x, c - 1, 37 * (c - 1), d, o' ! j + d, s, x - s] (o'[j := o' ! j + d, i := x - s]))"

definition car25519 :: "gf \<Rightarrow> gf option" where
  "car25519 = foldM car_step [0..<16]"

definition sel25519 :: "gf \<Rightarrow> gf \<Rightarrow> int \<Rightarrow> gf \<times> gf" where
  "sel25519 p q b =
    (let c = NOT (b - 1); t = map2 (\<lambda>x y. c AND (x XOR y)) p q
     in (map2 (XOR) p t, map2 (XOR) q t))"

definition A25519 :: "gf \<Rightarrow> gf \<Rightarrow> gf option" where
  "A25519 a b = (let o' = map (\<lambda>i. a ! i + b ! i) [0..<16] in chk o' o')"

definition Z25519 :: "gf \<Rightarrow> gf \<Rightarrow> gf option" where
  "Z25519 a b = (let o' = map (\<lambda>i. a ! i - b ! i) [0..<16] in chk o' o')"

definition mul_row :: "gf \<Rightarrow> gf \<Rightarrow> nat \<Rightarrow> int list \<Rightarrow> int list option" where
  "mul_row a b i =
     foldM (\<lambda>j t. chk [a ! i * b ! j, t ! (i + j) + a ! i * b ! j] (t[i + j := t ! (i + j) + a ! i * b ! j])) [0..<16]"

definition M25519 :: "gf \<Rightarrow> gf \<Rightarrow> gf option" where
  "M25519 a b = do {
     t \<leftarrow> foldM (mul_row a b) [0..<16] (replicate 31 0);
     t \<leftarrow> foldM (\<lambda>i t. chk [38 * t ! (i + 16), t ! i + 38 * t ! (i + 16)] (t[i := t ! i + 38 * t ! (i + 16)])) [0..<15] t;
     o' \<leftarrow> car25519 (take 16 t);
     car25519 o'
   }"

definition S25519 :: "gf \<Rightarrow> gf option" where
  "S25519 a = M25519 a a"

definition inv25519 :: "gf \<Rightarrow> gf option" where
  "inv25519 a = foldM (\<lambda>i c. do { c \<leftarrow> S25519 c; if i \<noteq> 2 \<and> i \<noteq> 4 then M25519 c a else Some c }) (rev [0..<254]) a"

definition pow2523 :: "gf \<Rightarrow> gf option" where
  "pow2523 i_val = foldM (\<lambda>a c. do { c \<leftarrow> S25519 c; if a \<noteq> 1 then M25519 c i_val else Some c }) (rev [0..<251]) i_val"

section \<open>Lemmas\<close>

subsection \<open>Total correctness\<close>

named_theorems returns_rules \<open>rules for running checked code\<close>

lemma returns_Some [returns_rules]: "P x \<Longrightarrow> returns (Some x) P"
  by (simp add: returns_def)

lemma returns_bind: "returns m P \<Longrightarrow> (\<And>x. P x \<Longrightarrow> returns (f x) Q) \<Longrightarrow> returns (m \<bind> f) Q"
  by (force simp: returns_def)

lemma returns_chk [returns_rules]: "list_all in_i64 vs \<Longrightarrow> P r \<Longrightarrow> returns (chk vs r) P"
  by (simp add: returns_def chk_def)

lemma returns_mono: "returns m P \<Longrightarrow> (\<And>x. P x \<Longrightarrow> Q x) \<Longrightarrow> returns m Q"
  by (auto simp: returns_def)

lemma returns_foldM:
  "I a s \<Longrightarrow> a \<le> b \<Longrightarrow> (\<And>i s. a \<le> i \<Longrightarrow> i < b \<Longrightarrow> I i s \<Longrightarrow> returns (f i s) (I (Suc i))) \<Longrightarrow> returns (foldM f [a..<b] s) (I b)"
proof (induction "b - a" arbitrary: a s)
  case (Suc n)
  then have "[a..<b] = a # [Suc a..<b]" by (simp add: upt_conv_Cons)
  moreover have "returns (f a s \<bind> foldM f [Suc a..<b]) (I b)"
    by (rule returns_bind [where P = "I (Suc a)"]) (use Suc in auto)
  ultimately show ?case by simp
qed (simp add: returns_Some)

lemma foldM_append: "foldM f (xs @ ys) s = foldM f xs s \<bind> foldM f ys"
proof (induction xs arbitrary: s)
  case (Cons x xs)
  then show ?case by (cases "f x s") simp_all
qed simp

subsection \<open>Positional values\<close>

definition pval :: "int \<Rightarrow> nat \<Rightarrow> int list \<Rightarrow> int" where
  "pval b n x = (\<Sum>k<n. x ! k * b ^ k)"

lemma pval_Suc: "pval b (Suc n) x = pval b n x + x ! n * b ^ n"
  by (simp add: pval_def)

lemma pval_0 [simp]: "pval b 0 x = 0"
  by (simp add: pval_def)

lemma pval_cong: "(\<And>k. k < n \<Longrightarrow> x ! k = y ! k) \<Longrightarrow> pval b n x = pval b n y"
  by (simp add: pval_def)

lemma pval_update: "i < n \<Longrightarrow> n \<le> length x \<Longrightarrow> pval b n (x[i := v]) = pval b n x + (v - x ! i) * b ^ i"
proof (induction n)
  case (Suc n)
  show ?case
  proof (cases "i = n")
    case True
    have "pval b n (x[n := v]) = pval b n x" by (rule pval_cong) simp
    then show ?thesis using True Suc.prems by (simp add: pval_Suc algebra_simps)
  next
    case False
    then show ?thesis using Suc by (simp add: pval_Suc)
  qed
qed simp

lemma pval_le: "1 \<le> b \<Longrightarrow> (\<And>k. k < n \<Longrightarrow> x ! k \<le> h) \<Longrightarrow> (b - 1) * pval b n x \<le> h * (b ^ n - 1)"
proof (induction n)
  case (Suc n)
  have "(b - 1) * (x ! n * b ^ n) \<le> (b - 1) * (h * b ^ n)"
    using Suc.prems by (intro mult_left_mono mult_right_mono) auto
  then show ?case using Suc by (simp add: pval_Suc algebra_simps)
qed simp

lemma pval_ge: "1 \<le> b \<Longrightarrow> (\<And>k. k < n \<Longrightarrow> h \<le> x ! k) \<Longrightarrow> h * (b ^ n - 1) \<le> (b - 1) * pval b n x"
proof (induction n)
  case (Suc n)
  have "(b - 1) * (h * b ^ n) \<le> (b - 1) * (x ! n * b ^ n)"
    using Suc.prems by (intro mult_left_mono mult_right_mono) auto
  then show ?case using Suc by (simp add: pval_Suc algebra_simps)
qed simp

lemma pval_range: "1 \<le> b \<Longrightarrow> (\<And>k. k < n \<Longrightarrow> 0 \<le> x ! k \<and> x ! k < b) \<Longrightarrow> 0 \<le> pval b n x \<and> pval b n x < b ^ n"
proof (induction n)
  case (Suc n)
  have "x ! n * b ^ n \<le> (b - 1) * b ^ n" "0 \<le> x ! n * b ^ n" using Suc.prems(2) [of n] Suc.prems(1) by (auto intro!: mult_right_mono)
  then show ?case using Suc by (simp add: pval_Suc algebra_simps)
qed simp

lemma pval_mod: "0 < n \<Longrightarrow> pval b n x mod b = x ! 0 mod b"
proof (induction n)
  case (Suc n)
  have "(x ! n * b ^ n) mod b = 0" if "0 < n" using that by (cases n) simp_all
  then show ?case using Suc by (cases "n = 0") (auto simp: pval_Suc mod_add_eq [symmetric])
qed simp

subsection \<open>Carrying\<close>

lemma in_i64_abs: "\<bar>v\<bar> < 2 ^ 63 \<Longrightarrow> in_i64 v"
  by (auto simp: in_i64_def)

lemma car_step_eq:
  fixes x :: "int list"
  defines "q i \<equiv> x ! i div 65536"
  assumes "length x = 16" "i < 16" "\<bar>x ! i\<bar> \<le> 2 ^ 61"
    and "if i < 15 then \<bar>x ! Suc i\<bar> \<le> 2 ^ 61 else \<bar>x ! 0\<bar> \<le> 2 ^ 61 \<and> \<bar>q i\<bar> \<le> 2 ^ 55"
  shows "car_step i x = Some (if i < 15 then x[Suc i := x ! Suc i + q i, i := x ! i mod 65536] else x[0 := x ! 0 + 38 * q i, i := x ! i mod 65536])"
proof -
  have c: "drop_bit 16 (x ! i + push_bit 16 1) = q i + 1" by (simp add: q_def drop_bit_eq_div push_bit_eq_mult)
  have q: "- (2 ^ 46) \<le> q i" "q i \<le> 2 ^ 46" using assms by (auto simp: q_def)
  have s: "x ! i + push_bit 16 1 - push_bit 16 (q i + 1) = x ! i mod 65536"
    by (simp add: q_def push_bit_eq_mult minus_div_mult_eq_mod [symmetric])
  have m: "0 \<le> x ! i mod 65536" "x ! i mod 65536 < 65536" by simp_all
  show ?thesis
  proof (cases "i < 15")
    case True
    then show ?thesis unfolding car_step_def Let_def chk_def c s using q m assms
      by (auto simp: in_i64_def push_bit_eq_mult)
  next
    case False
    then have "i = 15" using assms by simp
    then show ?thesis unfolding car_step_def Let_def chk_def c s using q m assms
      by (auto simp: in_i64_def push_bit_eq_mult)
  qed
qed

abbreviation gval :: "gf \<Rightarrow> int" where "gval \<equiv> pval 65536 16"

definition p25519 :: int where "p25519 = 2 ^ 255 - 19"

definition carried :: "int \<Rightarrow> gf \<Rightarrow> gf \<Rightarrow> bool" where
  \<comment> \<open>\<open>y\<close> is \<open>x\<close> with the carry \<open>q\<close> out of the top limb folded back into the lowest one\<close>
  "carried q x y \<longleftrightarrow> length y = 16 \<and> gval y + q * (2 ^ 256 - 38) = gval x \<and> 0 \<le> y ! 0 - 38 * q \<and> y ! 0 - 38 * q < 65536 \<and>
     (\<forall>k. 1 \<le> k \<and> k < 16 \<longrightarrow> 0 \<le> y ! k \<and> y ! k < 65536)"

definition carry_inv :: "(nat \<Rightarrow> int) \<Rightarrow> gf \<Rightarrow> nat \<Rightarrow> gf \<Rightarrow> bool" where
  "carry_inv \<beta> x i y \<longleftrightarrow> length y = 16 \<and> gval y = gval x \<and> (\<forall>k<i. 0 \<le> y ! k \<and> y ! k < 65536) \<and>
     (\<forall>k. i < k \<and> k < 16 \<longrightarrow> y ! k = x ! k) \<and> \<bar>y ! i - x ! i\<bar> \<le> \<beta> i"

lemma carry_out: "(v mod 65536 - v) * w = - (v div 65536) * (65536 * w)" for v w :: int
proof -
  have "v mod 65536 - v = - (65536 * (v div 65536))" by (simp add: minus_mod_eq_mult_div [symmetric])
  then show ?thesis by simp
qed

lemma car_run:
  assumes len: "length x = 16" and b0: "\<beta> 0 = 0" and b16: "\<beta> 16 \<le> 2 ^ 55"
    and bound: "\<And>k c. k < 16 \<Longrightarrow> \<bar>c\<bar> \<le> \<beta> k \<Longrightarrow> \<bar>x ! k + c\<bar> \<le> 2 ^ 61 \<and> \<bar>(x ! k + c) div 65536\<bar> \<le> \<beta> (Suc k)"
    and pos: "\<And>k. k < 16 \<Longrightarrow> 0 \<le> \<beta> k"
  shows "returns (car25519 x) (\<lambda>y. \<exists>q. \<bar>q\<bar> \<le> \<beta> 16 \<and> carried q x y)"
proof -
  have now: "\<bar>y ! i\<bar> \<le> 2 ^ 61 \<and> \<bar>y ! i div 65536\<bar> \<le> \<beta> (Suc i)" if "i < 16" "carry_inv \<beta> x i y" for i y
    using bound [of i "y ! i - x ! i"] that by (simp add: carry_inv_def)
  have "returns (foldM car_step [0..<15] x) (carry_inv \<beta> x 15)"
  proof (rule returns_foldM)
    show "carry_inv \<beta> x 0 x" using len b0 by (simp add: carry_inv_def)
    fix i y assume i: "i < 15" "carry_inv \<beta> x i y"
    have y: "y ! Suc i = x ! Suc i" "length y = 16" using i by (simp_all add: carry_inv_def)
    have "\<bar>x ! Suc i\<bar> \<le> 2 ^ 61" using bound [of "Suc i" 0] i pos [of "Suc i"] by simp
    then have "car_step i y = Some (y[Suc i := y ! Suc i + y ! i div 65536, i := y ! i mod 65536])" (is "_ = Some ?z")
      using car_step_eq [of y i] i y now [of i y] by simp
    moreover have "gval ?z = gval y" using i y by (simp add: pval_update carry_out)
    moreover have "\<bar>y ! i div 65536\<bar> \<le> \<beta> (Suc i)" using now [of i y] i by simp
    ultimately show "returns (car_step i y) (carry_inv \<beta> x (Suc i))" using i y
      by (auto simp: returns_def carry_inv_def less_Suc_eq nth_list_update)
  qed simp
  then have "returns (foldM car_step [0..<15] x \<bind> foldM car_step [15]) (\<lambda>y. \<exists>q. \<bar>q\<bar> \<le> \<beta> 16 \<and> carried q x y)"
  proof (rule returns_bind)
    fix y assume y: "carry_inv \<beta> x 15 y"
    let ?q = "y ! 15 div 65536" let ?z = "y[0 := y ! 0 + 38 * ?q, 15 := y ! 15 mod 65536]"
    have q: "\<bar>?q\<bar> \<le> \<beta> 16" "\<bar>y ! 15\<bar> \<le> 2 ^ 61" using now [of 15 y] y by simp_all
    have l: "length y = 16" "gval y = gval x" "0 \<le> y ! 0" "y ! 0 < 65536" using y by (simp_all add: carry_inv_def)
    then have "\<bar>y ! 0\<bar> \<le> 2 ^ 61" by simp
    then have "car_step 15 y = Some ?z" using car_step_eq [of y 15] l q b16 by simp
    moreover have "gval ?z = gval x - ?q * (2 ^ 256 - 38)"
      using l carry_out [of "y ! 15" "65536 ^ 15"] by (simp add: pval_update algebra_simps)
    moreover have "\<forall>k. 1 \<le> k \<and> k < 16 \<longrightarrow> 0 \<le> ?z ! k \<and> ?z ! k < 65536"
      using y l by (auto simp: carry_inv_def nth_list_update)
    ultimately have "carried ?q x ?z" using l by (simp add: carried_def)
    then show "returns (foldM car_step [15] y) (\<lambda>y. \<exists>q. \<bar>q\<bar> \<le> \<beta> 16 \<and> carried q x y)"
      using \<open>car_step 15 y = Some ?z\<close> q by (auto simp: returns_def)
  qed
  moreover have "[0..<16] = [0..<15] @ [15 :: nat]" by (simp add: upt_rec)
  ultimately show ?thesis by (simp add: car25519_def foldM_append)
qed

definition limbs_within :: "int \<Rightarrow> gf \<Rightarrow> bool" where
  "limbs_within B x \<longleftrightarrow> length x = 16 \<and> (\<forall>k<16. \<bar>x ! k\<bar> \<le> B)"

definition near :: "int \<Rightarrow> gf \<Rightarrow> bool" where
  \<comment> \<open>16-bit digits except for the lowest limb, which may be \<open>E\<close> off\<close>
  "near E x \<longleftrightarrow> length x = 16 \<and> - E \<le> x ! 0 \<and> x ! 0 \<le> 65535 + E \<and> (\<forall>k. 1 \<le> k \<and> k < 16 \<longrightarrow> 0 \<le> x ! k \<and> x ! k < 65536)"

abbreviation tight :: "gf \<Rightarrow> bool" where "tight \<equiv> near 38"

lemma near_limb: "near E x \<Longrightarrow> k < 16 \<Longrightarrow> k \<noteq> 0 \<Longrightarrow> 0 \<le> x ! k \<and> x ! k < 65536"
  by (simp add: near_def)

lemma near_lowest: "near E x \<Longrightarrow> - E \<le> x ! 0 \<and> x ! 0 \<le> 65535 + E"
  by (simp add: near_def)

lemma carried_near: "carried q x y \<Longrightarrow> \<bar>q\<bar> \<le> Q \<Longrightarrow> near (38 * Q) y"
  by (auto simp: carried_def near_def)

lemma carried_cong: "carried q x y \<Longrightarrow> gval y mod p25519 = gval x mod p25519"
proof -
  assume "carried q x y"
  then have "gval x = gval y + p25519 * (2 * q)" by (simp add: carried_def p25519_def)
  then show ?thesis by simp
qed

lemma floor_facts: "0 < m \<Longrightarrow> m * (v div m) \<le> v" "0 < m \<Longrightarrow> v < m * (v div m + 1)" for v m :: int
proof -
  assume "0 < m"
  moreover have "m * (v div m) + v mod m = v" "m * (v div m + 1) = m * (v div m) + m" by (simp, simp add: algebra_simps)
  ultimately show "m * (v div m) \<le> v" "v < m * (v div m + 1)"
    using pos_mod_sign [of m v] pos_mod_bound [of m v] by linarith+
qed

lemma div_bounds:
  fixes v C m :: int
  assumes "0 < m" "- (m * C) \<le> v" "v < m * (C + 1)"
  shows "\<bar>v div m\<bar> \<le> C"
proof -
  have "m * (v div m) = v - v mod m" "0 \<le> v mod m" "v mod m < m" using assms by (simp_all add: minus_mod_eq_mult_div)
  moreover have "m * (- C - 1) = - (m * C) - m" by (simp add: algebra_simps)
  ultimately have "m * (v div m) < m * (C + 1)" "m * (- C - 1) < m * (v div m)" using assms by linarith+
  then show ?thesis using assms by (simp add: mult_less_cancel_left_pos abs_le_iff)
qed

lemma car_wide:
  assumes x: "limbs_within B x" and B: "B \<le> 2 ^ 60"
  shows "returns (car25519 x) (\<lambda>y. near (38 * (B div 32768 + 1)) y \<and> gval y mod p25519 = gval x mod p25519)"
proof -
  define C where "C = B div 32768 + 1"
  define \<beta> :: "nat \<Rightarrow> int" where "\<beta> k = (if k = 0 then 0 else C)" for k
  have B0: "0 \<le> B" using x by (auto simp: limbs_within_def dest: spec [of _ 0])
  have C: "B < 32768 * C" using floor_facts(2) [of 32768 B] by (simp add: C_def)
  have C': "0 < C" "C \<le> 2 ^ 45 + 1"
    using zdiv_mono1 [OF B, of 32768] pos_imp_zdiv_nonneg_iff [of 32768 B] B0 by (simp_all add: C_def)
  have step: "\<bar>x ! k + c\<bar> \<le> 2 ^ 61 \<and> \<bar>(x ! k + c) div 65536\<bar> \<le> \<beta> (Suc k)" if k: "k < 16" "\<bar>c\<bar> \<le> \<beta> k" for k c
  proof
    have c: "\<bar>c\<bar> \<le> C" "\<bar>x ! k\<bar> \<le> B" using that C' x by (auto simp: limbs_within_def \<beta>_def split: if_splits)
    then show "\<bar>x ! k + c\<bar> \<le> 2 ^ 61" using C' B by simp
    have "\<bar>(x ! k + c) div 65536\<bar> \<le> C" using c C C'(1) by (intro div_bounds) (simp, simp add: abs_le_iff, simp add: abs_le_iff)
    then show "\<bar>(x ! k + c) div 65536\<bar> \<le> \<beta> (Suc k)" by (simp add: \<beta>_def)
  qed
  have "returns (car25519 x) (\<lambda>y. \<exists>q. \<bar>q\<bar> \<le> \<beta> 16 \<and> carried q x y)"
    by (rule car_run) (use x C' step in \<open>auto simp: limbs_within_def \<beta>_def\<close>)
  then show ?thesis unfolding C_def [symmetric] by (rule returns_mono) (auto simp: \<beta>_def dest: carried_near carried_cong)
qed

lemma car_near_raw:
  assumes x: "near E x" and E: "0 \<le> E" "E \<le> 2 ^ 60"
  shows "returns (car25519 x) (\<lambda>y. \<exists>q. \<bar>q\<bar> \<le> 1 \<and> carried q x y)"
proof -
  define \<beta> :: "nat \<Rightarrow> int" where "\<beta> k = (if k = 0 then 0 else 1 + E div 65536 ^ k)" for k
  have big: "E div 65536 ^ k \<le> E" for k using E zdiv_mono2 [of E 1 "65536 ^ k"] by simp
  have step: "\<bar>x ! k + c\<bar> \<le> 2 ^ 61 \<and> \<bar>(x ! k + c) div 65536\<bar> \<le> \<beta> (Suc k)" if k: "k < 16" "\<bar>c\<bar> \<le> \<beta> k" for k c
  proof (cases "k = 0")
    case True
    have "x ! 0 div 65536 \<le> (65535 + E) div 65536" "(- E) div 65536 \<le> x ! 0 div 65536"
      using x by (auto simp: near_def intro!: zdiv_mono1)
    then have "\<bar>x ! 0 div 65536\<bar> \<le> 1 + E div 65536" using E by linarith
    then show ?thesis using True k x E by (auto simp: near_def \<beta>_def)
  next
    case False
    define e where "e = E div 65536 ^ k"
    have e: "0 \<le> e" "e \<le> 2 ^ 60" using big [of k] E by (auto simp: e_def pos_imp_zdiv_nonneg_iff)
    have "E div 65536 ^ Suc k = e div 65536" by (simp add: e_def zdiv_zmult2_eq mult.commute [of 65536])
    moreover have "0 \<le> x ! k" "x ! k < 65536" "\<bar>c\<bar> \<le> 1 + e" using x k False by (auto simp: near_def e_def \<beta>_def)
    ultimately show ?thesis using e by (simp add: \<beta>_def) linarith
  qed
  have "E div 65536 ^ 16 = 0" using E by simp
  then have b16: "\<beta> 16 = 1" by (simp add: \<beta>_def)
  have "returns (car25519 x) (\<lambda>y. \<exists>q. \<bar>q\<bar> \<le> \<beta> 16 \<and> carried q x y)"
    by (rule car_run) (use x E b16 step in \<open>auto simp: near_def \<beta>_def pos_imp_zdiv_nonneg_iff\<close>)
  then show ?thesis by (simp add: b16)
qed

lemma car_near: "near E x \<Longrightarrow> 0 \<le> E \<Longrightarrow> E \<le> 2 ^ 60 \<Longrightarrow>
  returns (car25519 x) (\<lambda>y. tight y \<and> gval y mod p25519 = gval x mod p25519)"
  by (rule returns_mono [OF car_near_raw]) (auto dest: carried_near [where Q = 1] carried_cong)

lemma car_twice:
  assumes x: "limbs_within B x" and B: "B \<le> 2 ^ 60"
  shows "returns (car25519 x \<bind> car25519) (\<lambda>y. tight y \<and> gval y mod p25519 = gval x mod p25519)"
proof (rule returns_bind [OF car_wide [OF x B]])
  fix y assume y: "near (38 * (B div 32768 + 1)) y \<and> gval y mod p25519 = gval x mod p25519"
  have "0 \<le> B" using x by (auto simp: limbs_within_def dest: spec [of _ 0])
  then have "0 \<le> 38 * (B div 32768 + 1)" "38 * (B div 32768 + 1) \<le> 2 ^ 60"
    using B zdiv_mono1 [OF B, of 32768] pos_imp_zdiv_nonneg_iff [of 32768 B] by simp_all
  then show "returns (car25519 y) (\<lambda>z. tight z \<and> gval z mod p25519 = gval x mod p25519)"
    using y by (intro returns_mono [OF car_near]) auto
qed

subsection \<open>Addition, subtraction, multiplication\<close>

definition fe :: "nat \<Rightarrow> gf \<Rightarrow> int \<Rightarrow> bool" where
  \<comment> \<open>the limbs stand for the residue \<open>v\<close>, with \<open>n\<close>-bit limbs\<close>
  "fe n x v \<longleftrightarrow> limbs_within (2 ^ n) x \<and> gval x mod p25519 = v mod p25519"

definition felt :: "gf \<Rightarrow> int \<Rightarrow> bool" where
  "felt x v \<longleftrightarrow> tight x \<and> gval x mod p25519 = v mod p25519"

lemma fe_mono: "fe n x v \<Longrightarrow> n \<le> m \<Longrightarrow> fe m x v"
  unfolding fe_def limbs_within_def using power_increasing [of n m "2 :: int"] by (auto intro: order_trans)

lemma felt_fe: "felt x v \<Longrightarrow> 17 \<le> n \<Longrightarrow> fe n x v"
proof -
  assume "felt x v"
  then have t: "tight x" by (simp add: felt_def)
  have "\<bar>x ! k\<bar> \<le> 2 ^ 17" if "k < 16" for k
    using near_limb [OF t that] near_lowest [OF t] by (cases "k = 0") auto
  then have "fe 17 x v" using \<open>felt x v\<close> by (simp add: fe_def felt_def limbs_within_def near_def)
  then show "17 \<le> n \<Longrightarrow> fe n x v" by (rule fe_mono)
qed

lemma felt_17: "felt a u \<Longrightarrow> fe 17 a u" by (rule felt_fe) simp_all
lemma felt_18: "felt a u \<Longrightarrow> fe 18 a u" by (rule felt_fe) simp_all
lemma felt_20: "felt a u \<Longrightarrow> fe 20 a u" by (rule felt_fe) simp_all
lemma felt_60: "felt a u \<Longrightarrow> fe 60 a u" by (rule felt_fe) simp_all
lemma fe_20: "fe n a u \<Longrightarrow> n \<le> 20 \<Longrightarrow> fe 20 a u" by (rule fe_mono)

lemma fe_cong: "fe n x u \<Longrightarrow> u mod p25519 = v mod p25519 \<Longrightarrow> fe n x v"
  by (simp add: fe_def)

lemma felt_cong: "felt x u \<Longrightarrow> u mod p25519 = v mod p25519 \<Longrightarrow> felt x v"
  by (simp add: felt_def)

lemma list_all_nth: "list_all P (map f [0..<n]) \<longleftrightarrow> (\<forall>i<n. P (f i))"
  by (auto simp: list_all_iff)

lemma pointwise_fe:
  assumes f: "\<And>i. i < 16 \<Longrightarrow> \<bar>f i\<bar> \<le> 2 ^ Suc n" and n: "n \<le> 60" and v: "gval (map f [0..<16]) mod p25519 = w mod p25519"
  shows "returns (chk (map f [0..<16]) (map f [0..<16])) (\<lambda>c. fe (Suc n) c w)"
proof (rule returns_chk)
  have "(2 :: int) ^ Suc n \<le> 2 ^ 61" using n by (intro power_increasing) auto
  then show "list_all in_i64 (map f [0..<16])" unfolding list_all_nth using f by (force intro!: in_i64_abs)
  show "fe (Suc n) (map f [0..<16]) w" unfolding fe_def limbs_within_def using f v by (simp del: upt_Suc)
qed

lemma A_fe:
  assumes a: "fe n a u" and b: "fe n b v" and n: "n \<le> 60"
  shows "returns (A25519 a b) (\<lambda>c. fe (Suc n) c (u + v))"
  unfolding A25519_def Let_def
proof (rule pointwise_fe [OF _ n])
  show "\<bar>a ! i + b ! i\<bar> \<le> 2 ^ Suc n" if "i < 16" for i
    using a b that by (auto simp: fe_def limbs_within_def intro: order_trans [OF abs_triangle_ineq] dest!: spec [of _ i])
  have "gval (map (\<lambda>i. a ! i + b ! i) [0..<16]) = gval a + gval b"
    unfolding pval_def sum.distrib [symmetric] by (rule sum.cong) (simp_all add: distrib_right del: upt_Suc)
  then show "gval (map (\<lambda>i. a ! i + b ! i) [0..<16]) mod p25519 = (u + v) mod p25519"
    using a b mod_add_cong [of "gval a" p25519 u "gval b" v] by (simp only: fe_def)
qed

lemma Z_fe:
  assumes a: "fe n a u" and b: "fe n b v" and n: "n \<le> 60"
  shows "returns (Z25519 a b) (\<lambda>c. fe (Suc n) c (u - v))"
  unfolding Z25519_def Let_def
proof (rule pointwise_fe [OF _ n])
  show "\<bar>a ! i - b ! i\<bar> \<le> 2 ^ Suc n" if "i < 16" for i
    using a b that by (auto simp: fe_def limbs_within_def intro: order_trans [OF abs_triangle_ineq4] dest!: spec [of _ i])
  have "gval (map (\<lambda>i. a ! i - b ! i) [0..<16]) = gval a - gval b"
    unfolding pval_def sum_subtractf [symmetric] by (rule sum.cong) (simp_all add: left_diff_distrib del: upt_Suc)
  then show "gval (map (\<lambda>i. a ! i - b ! i) [0..<16]) mod p25519 = (u - v) mod p25519"
    using a b mod_diff_cong [of "gval a" p25519 u "gval b" v] by (simp only: fe_def)
qed

abbreviation tval :: "int list \<Rightarrow> int" where "tval \<equiv> pval 65536 31"

definition mul_inv :: "gf \<Rightarrow> gf \<Rightarrow> nat \<Rightarrow> nat \<Rightarrow> int list \<Rightarrow> bool" where
  "mul_inv a b i j t \<longleftrightarrow> length t = 31 \<and> (\<forall>k<31. \<bar>t ! k\<bar> \<le> (16 * int i + int j) * 2 ^ 40) \<and>
     tval t = pval 65536 i a * gval b + a ! i * 65536 ^ i * pval 65536 j b"

lemma mul_step:
  assumes a: "limbs_within (2 ^ 20) a" and b: "limbs_within (2 ^ 20) b" and ij: "i < 16" "j < 16" and t: "mul_inv a b i j t"
  shows "returns (chk [a ! i * b ! j, t ! (i + j) + a ! i * b ! j] (t[i + j := t ! (i + j) + a ! i * b ! j])) (mul_inv a b i (Suc j))"
proof -
  have "\<bar>a ! i\<bar> * \<bar>b ! j\<bar> \<le> 2 ^ 20 * 2 ^ 20" using a b ij by (intro mult_mono) (auto simp: limbs_within_def)
  then have p: "\<bar>a ! i * b ! j\<bar> \<le> 2 ^ 40" by (simp add: abs_mult)
  have bd: "\<bar>t ! k\<bar> \<le> (16 * int i + int j) * 2 ^ 40" if "k < 31" for k using t that by (simp add: mul_inv_def)
  have "\<bar>t ! (i + j) + a ! i * b ! j\<bar> \<le> (16 * int i + int j) * 2 ^ 40 + 2 ^ 40"
    using bd [of "i + j"] ij p by (intro order_trans [OF abs_triangle_ineq] add_mono) auto
  then have s: "\<bar>t ! (i + j) + a ! i * b ! j\<bar> \<le> (16 * int i + int (Suc j)) * 2 ^ 40"
    by (simp add: algebra_simps)
  also have "\<dots> \<le> 256 * 2 ^ 40" using ij by simp
  finally have r: "list_all in_i64 [a ! i * b ! j, t ! (i + j) + a ! i * b ! j]" using p by (auto simp: in_i64_def)
  have "\<bar>t ! k\<bar> \<le> (16 * int i + int (Suc j)) * 2 ^ 40" if "k < 31" for k using bd [OF that] by simp
  moreover have "tval (t[i + j := t ! (i + j) + a ! i * b ! j]) = tval t + a ! i * b ! j * 65536 ^ (i + j)"
    using t ij by (simp add: mul_inv_def pval_update)
  ultimately show ?thesis using r s t ij
    by (intro returns_chk) (auto simp: mul_inv_def pval_Suc nth_list_update power_add algebra_simps)
qed

lemma mul_all:
  assumes a: "limbs_within (2 ^ 20) a" and b: "limbs_within (2 ^ 20) b"
  shows "returns (foldM (mul_row a b) [0..<16] (replicate 31 0)) (\<lambda>t. length t = 31 \<and> (\<forall>k<31. \<bar>t ! k\<bar> \<le> 2 ^ 48) \<and> tval t = gval a * gval b)"
proof -
  have "returns (foldM (mul_row a b) [0..<16] (replicate 31 0)) (\<lambda>t. mul_inv a b 16 0 t)"
  proof (rule returns_foldM [where I = "\<lambda>i. mul_inv a b i 0"])
    show "mul_inv a b 0 0 (replicate 31 0)" by (simp add: mul_inv_def pval_def)
    fix i t assume i: "i < 16" and t: "mul_inv a b i 0 t"
    have "returns (mul_row a b i t) (mul_inv a b i 16)"
      unfolding mul_row_def by (rule returns_foldM [where I = "mul_inv a b i"], rule t) (simp, rule mul_step [OF a b i])
    then show "returns (mul_row a b i t) (mul_inv a b (Suc i) 0)"
      by (rule returns_mono) (simp add: mul_inv_def pval_Suc algebra_simps)
  qed simp
  then show ?thesis by (rule returns_mono) (simp add: mul_inv_def)
qed

definition folded :: "int list \<Rightarrow> nat \<Rightarrow> int list \<Rightarrow> bool" where
  "folded t i t' \<longleftrightarrow> length t' = 31 \<and> (\<forall>k<31. t' ! k = (if k < i then t ! k + 38 * t ! (k + 16) else t ! k))"

lemma fold_top:
  assumes t: "length t = 31" "\<forall>k<31. \<bar>t ! k\<bar> \<le> 2 ^ 48"
  shows "returns (foldM (\<lambda>i t. chk [38 * t ! (i + 16), t ! i + 38 * t ! (i + 16)] (t[i := t ! i + 38 * t ! (i + 16)])) [0..<15] t) (folded t 15)"
proof (rule returns_foldM)
  show "folded t 0 t" using t by (simp add: folded_def)
  fix i t' assume i: "i < 15" and f: "folded t i t'"
  have e: "t' ! (i + 16) = t ! (i + 16)" "t' ! i = t ! i" "length t' = 31" using f i by (simp_all add: folded_def)
  have "\<bar>t ! (i + 16)\<bar> \<le> 2 ^ 48" "\<bar>t ! i\<bar> \<le> 2 ^ 48" using t i by simp_all
  then have "list_all in_i64 [38 * t ! (i + 16), t ! i + 38 * t ! (i + 16)]" by (auto simp: in_i64_def)
  then show "returns (chk [38 * t' ! (i + 16), t' ! i + 38 * t' ! (i + 16)] (t'[i := t' ! i + 38 * t' ! (i + 16)])) (folded t (Suc i))"
    unfolding e using f i e(3) by (intro returns_chk) (auto simp: folded_def nth_list_update less_Suc_eq)
qed simp

lemma pval_split: "pval b (m + n) t = pval b m t + b ^ m * pval b n (drop m t)" if "m \<le> length t"
  using that by (induction n) (simp_all add: pval_Suc algebra_simps power_add)

lemma folded_value:
  assumes "length t = 31" "folded t 15 t'"
  shows "gval (take 16 t') mod p25519 = tval t mod p25519"
proof -
  have k: "t' ! k = t ! k + 38 * drop 16 t ! k" if "k < 15" for k
    using assms that by (simp add: folded_def add.commute)
  have l: "t' ! 15 = t ! 15" "length t' = 31" using assms by (simp_all add: folded_def)
  have "pval 65536 15 t' = pval 65536 15 t + 38 * pval 65536 15 (drop 16 t)"
    unfolding pval_def sum_distrib_left sum.distrib [symmetric] by (rule sum.cong) (simp_all add: k distrib_right mult.assoc)
  moreover have "gval (take 16 t') = pval 65536 (Suc 15) t'" using l by (auto intro: pval_cong)
  moreover have "gval t = pval 65536 (Suc 15) t" by simp
  moreover have "tval t = gval t + 65536 ^ 16 * pval 65536 15 (drop 16 t)"
    using pval_split [of 16 t 65536 15] assms by simp
  ultimately have "tval t = gval (take 16 t') + p25519 * (2 * pval 65536 15 (drop 16 t))"
    using l by (simp only: pval_Suc p25519_def) simp
  then show ?thesis by simp
qed

lemma M_fe:
  assumes a: "fe 20 a u" and b: "fe 20 b v"
  shows "returns (M25519 a b) (\<lambda>c. felt c (u * v))"
proof -
  have uv: "(gval a * gval b) mod p25519 = (u * v) mod p25519" 
    using a b mod_mult_cong [of "gval a" p25519 u "gval b" v] by (simp only: fe_def)
  have ab: "limbs_within (2 ^ 20) a" "limbs_within (2 ^ 20) b" using a b by (simp_all add: fe_def)
  show ?thesis unfolding M25519_def
  proof (rule returns_bind [OF mul_all [OF ab]], elim conjE)
    fix t assume t: "length t = 31" "\<forall>k<31. \<bar>t ! k\<bar> \<le> 2 ^ 48" "tval t = gval a * gval b"
    show "returns (foldM (\<lambda>i t. chk [38 * t ! (i + 16), t ! i + 38 * t ! (i + 16)] (t[i := t ! i + 38 * t ! (i + 16)])) [0..<15] t
        \<bind> (\<lambda>t. car25519 (take 16 t) \<bind> car25519)) (\<lambda>c. felt c (u * v))"
    proof (rule returns_bind [OF fold_top [OF t(1,2)]])
      fix t' assume f: "folded t 15 t'"
      have "\<bar>take 16 t' ! k\<bar> \<le> 2 ^ 54" if "k < 16" for k
      proof -
        have "\<bar>t ! k\<bar> \<le> 2 ^ 48" "k < 15 \<Longrightarrow> \<bar>t ! (k + 16)\<bar> \<le> 2 ^ 48" using t that by simp_all
        then show ?thesis using f that by (auto simp: folded_def)
      qed
      then have "limbs_within (2 ^ 54) (take 16 t')" using f by (simp add: limbs_within_def folded_def)
      then show "returns (car25519 (take 16 t') \<bind> car25519) (\<lambda>c. felt c (u * v))"
        by (rule returns_mono [OF car_twice]) (use folded_value [OF t(1) f] t(3) uv in \<open>simp_all add: felt_def\<close>)
    qed
  qed
qed

lemma S_fe: "fe 20 a u \<Longrightarrow> returns (S25519 a) (\<lambda>c. felt c (u * u))"
  unfolding S25519_def by (rule M_fe)

subsection \<open>Powers\<close>

lemma square_multiply:
  assumes u: "fe 20 a u"
  shows "fe 20 c (u ^ e) \<Longrightarrow>
    returns (foldM (\<lambda>i c. S25519 c \<bind> (\<lambda>c. if P i then M25519 c a else Some c)) is c)
      (\<lambda>c. fe 20 c (u ^ fold (\<lambda>i e. 2 * e + of_bool (P i)) is e))"
proof (induction "is" arbitrary: c e)
  case (Cons i "is")
  have "returns (S25519 c \<bind> (\<lambda>c. if P i then M25519 c a else Some c)) (\<lambda>c. fe 20 c (u ^ (2 * e + of_bool (P i))))"
  proof (rule returns_bind [OF S_fe [OF Cons.prems]])
    fix d assume d: "felt d (u ^ e * u ^ e)"
    have "u ^ e * u ^ e * u = u ^ Suc (2 * e)" "u ^ e * u ^ e = u ^ (2 * e)" by (simp_all add: mult_2 power_add)
    then show "returns (if P i then M25519 d a else Some d) (\<lambda>c. fe 20 c (u ^ (2 * e + of_bool (P i))))"
      using felt_fe [OF d] M_fe [OF felt_fe [OF d] u] by (auto simp: returns_def mult.commute intro: felt_20)
  qed
  then show ?case unfolding foldM.simps fold_simps by (rule returns_bind) (rule Cons.IH)
qed (simp add: returns_Some)

lemma fold_int_exponent:
  "int (fold (\<lambda>i e. 2 * e + of_bool (P i)) is e) = fold (\<lambda>i e. 2 * e + of_bool (P i)) is (int e)"
  by (induction "is" arbitrary: e) simp_all

lemma inv_exponent: "fold (\<lambda>i e. 2 * e + of_bool (i \<noteq> 2 \<and> i \<noteq> 4)) (rev [0..<254]) (1 :: int) = 2 ^ 255 - 21"
  by code_simp

lemma pow_exponent: "fold (\<lambda>i e. 2 * e + of_bool (i \<noteq> 1)) (rev [0..<251]) (1 :: int) = 2 ^ 252 - 3"
  by code_simp

lemma inv_fe: "fe 20 a u \<Longrightarrow> returns (inv25519 a) (\<lambda>c. fe 20 c (u ^ (2 ^ 255 - 21)))"
proof -
  assume a: "fe 20 a u"
  have "fold (\<lambda>i e. 2 * e + of_bool (i \<noteq> 2 \<and> i \<noteq> 4)) (rev [0..<254]) (1 :: nat) = 2 ^ 255 - 21"
    using fold_int_exponent [of "\<lambda>i. i \<noteq> 2 \<and> i \<noteq> 4" "rev [0..<254]" 1] inv_exponent by simp
  then show ?thesis using square_multiply [OF a, of a 1 "\<lambda>i. i \<noteq> 2 \<and> i \<noteq> 4" "rev [0..<254]"] a by (simp add: inv25519_def)
qed

lemma pow_fe: "fe 20 a u \<Longrightarrow> returns (pow2523 a) (\<lambda>c. fe 20 c (u ^ (2 ^ 252 - 3)))"
proof -
  assume a: "fe 20 a u"
  have "fold (\<lambda>i e. 2 * e + of_bool (i \<noteq> 1)) (rev [0..<251]) (1 :: nat) = 2 ^ 252 - 3"
    using fold_int_exponent [of "\<lambda>i. i \<noteq> 1" "rev [0..<251]" 1] pow_exponent by simp
  then show ?thesis using square_multiply [OF a, of a 1 "\<lambda>i. i \<noteq> 1" "rev [0..<251]"] a by (simp add: pow2523_def)
qed

end
