(* ===== verification/Ed25519_Encoding.thy ===== *)
theory Ed25519_Encoding
  imports Ed25519_Field
begin

text \<open>
  Packing and unpacking of field elements in \<^verbatim>\<open>kernel/crypto/ed25519.c\<close>: \<open>pack25519\<close> produces the 32
  little-endian bytes of the least residue, the comparison and the parity of elements are those of
  the least residues, and \<open>unpack25519\<close> reads 255 bits.
\<close>

section \<open>Definitions\<close>

definition pack_sub :: "gf \<Rightarrow> gf \<Rightarrow> gf option" where
  \<comment> \<open>\<open>m = t - (2 ^ 255 - 19)\<close> with borrows; every entry of \<open>m\<close> is written before it is read\<close>
  "pack_sub t m = do {
     m \<leftarrow> chk [t ! 0 - 0xffed] (m[0 := t ! 0 - 0xffed]);
     m \<leftarrow> foldM (\<lambda>i m. let v = t ! i - 0xffff - (drop_bit 16 (m ! (i - 1)) AND 1)
                     in chk [t ! i - 0xffff, v] (m[i := v, i - 1 := m ! (i - 1) AND 0xffff])) [1..<15] m;
     let v = t ! 15 - 0x7fff - (drop_bit 16 (m ! 14) AND 1);
     chk [t ! 15 - 0x7fff, v] (m[15 := v, 14 := m ! 14 AND 0xffff])
   }"

definition pack_round :: "gf \<times> gf \<Rightarrow> (gf \<times> gf) option" where
  "pack_round = (\<lambda>(t, m). do {
     m \<leftarrow> pack_sub t m;
     let b = drop_bit 16 (m ! 15) AND 1;
     Some (sel25519 t m (1 - b))
   })"

definition pack25519 :: "gf \<Rightarrow> u8 list option" where
  "pack25519 n = do {
     t \<leftarrow> car25519 n;
     t \<leftarrow> car25519 t;
     t \<leftarrow> car25519 t;
     (t, m) \<leftarrow> foldM (\<lambda>j. pack_round) [0..<2] (t, gf0);
     Some (concat (map (\<lambda>i. [word_of_int (t ! i AND 0xff), word_of_int (drop_bit 8 (t ! i))]) [0..<16]))
   }"

definition mem_diff :: "u8 list \<Rightarrow> u8 list \<Rightarrow> u8" where
  \<comment> \<open>\<^verbatim>\<open>for (...) diff |= c[i] ^ d[i]\<close>\<close>
  "mem_diff c d = fold (\<lambda>(x, y) diff. diff OR (x XOR y)) (zip c d) 0"

definition neq25519 :: "gf \<Rightarrow> gf \<Rightarrow> bool option" where
  "neq25519 a b = do { c \<leftarrow> pack25519 a; d \<leftarrow> pack25519 b; Some (mem_diff c d \<noteq> 0) }"

definition par25519 :: "gf \<Rightarrow> u8 option" where
  "par25519 a = do { d \<leftarrow> pack25519 a; Some (d ! 0 AND 1) }"

definition unpack25519 :: "u8 list \<Rightarrow> gf" where
  "unpack25519 a =
    (let o' = map (\<lambda>i. uint (a ! (2 * i)) + push_bit 8 (uint (a ! (2 * i + 1)))) [0..<16]
     in o'[15 := o' ! 15 AND 0x7fff])"

section \<open>Lemmas\<close>

subsection \<open>The canonical form\<close>

definition digits16 :: "gf \<Rightarrow> bool" where
  "digits16 t \<longleftrightarrow> length t = 16 \<and> (\<forall>k<16. 0 \<le> t ! k \<and> t ! k < 65536)"

lemma digits16_range: "digits16 t \<Longrightarrow> 0 \<le> gval t \<and> gval t < 2 ^ 256"
  using pval_range [of 65536 16 t] by (simp add: digits16_def)

lemma lowest_digit: "gval x mod 65536 = x ! 0 mod 65536"
  using pval_mod [of 16 65536 x] by simp

lemma tight_range: "tight x \<Longrightarrow> - 38 \<le> gval x \<and> gval x \<le> 2 ^ 256 + 37"
proof -
  assume x: "tight x"
  then have l: "length x = 16" by (simp add: near_def)
  have z: "gval (x[0 := 0]) = gval x - x ! 0" using l by (simp add: pval_update)
  have d: "digits16 (x[0 := 0])" using x near_limb [OF x] by (auto simp: digits16_def near_def nth_list_update)
  have "65536 dvd gval (x[0 := 0])" using lowest_digit [of "x[0 := 0]"] l by (simp add: mod_eq_0_iff_dvd [symmetric])
  then obtain w where w: "gval (x[0 := 0]) = 65536 * w" by (auto elim: dvdE)
  then have "65536 * w \<le> 2 ^ 256 - 65536" using digits16_range [OF d] by simp
  then show ?thesis using z w digits16_range [OF d] near_lowest [OF x] by simp
qed

lemma carried_exact:
  assumes x: "tight x" and c: "carried q x y" and q: "\<bar>q\<bar> \<le> 1"
  shows "digits16 y"
proof -
  define z where "z = y[0 := y ! 0 - 38 * q]"
  have y: "length y = 16" "0 \<le> y ! 0 - 38 * q" "y ! 0 - 38 * q < 65536" "\<And>k. 1 \<le> k \<Longrightarrow> k < 16 \<Longrightarrow> 0 \<le> y ! k \<and> y ! k < 65536"
    using c by (auto simp: carried_def)
  have dz: "digits16 z" using y by (auto simp: digits16_def z_def nth_list_update)
  have gz: "gval z = gval x - q * 2 ^ 256" using c y(1) by (simp add: z_def pval_update carried_def)
  have z0: "gval z mod 65536 = y ! 0 - 38 * q" using lowest_digit [of z] y by (simp add: z_def)
  consider "q = 0" | "q = 1" | "q = - 1" using q by linarith
  then have "0 \<le> y ! 0 \<and> y ! 0 < 65536"
  proof cases
    case 2
    then have "0 \<le> gval z" "gval z \<le> 37" using gz tight_range [OF x] digits16_range [OF dz] by simp_all
    then have "gval z mod 65536 = gval z" by simp
    then show ?thesis using z0 2 \<open>gval z \<le> 37\<close> \<open>0 \<le> gval z\<close> by simp
  next
    case 3
    define w where "w = 2 ^ 256 - 1 - gval z"
    have w: "0 \<le> w" "w \<le> 37" using gz tight_range [OF x] digits16_range [OF dz] 3 by (simp_all add: w_def)
    have "gval z = 65535 - w + 65536 * (2 ^ 240 - 1)" by (simp add: w_def)
    then have "gval z mod 65536 = (65535 - w) mod 65536" by (simp only: mod_mult_self2)
    also have "\<dots> = 65535 - w" using w by simp
    finally show ?thesis using z0 3 w by simp
  qed (use y in simp)
  then show ?thesis using y unfolding digits16_def by (metis One_nat_def Suc_leI not_gr_zero)
qed

lemma car_three:
  assumes x: "limbs_within B x" and B: "B \<le> 2 ^ 60"
  shows "returns (car25519 x \<bind> (\<lambda>t. car25519 t \<bind> car25519)) (\<lambda>y. digits16 y \<and> gval y mod p25519 = gval x mod p25519)"
proof -
  have "returns ((car25519 x \<bind> car25519) \<bind> car25519) (\<lambda>y. digits16 y \<and> gval y mod p25519 = gval x mod p25519)"
  proof (rule returns_bind [OF car_twice [OF x B]], elim conjE)
    fix y assume y: "tight y" "gval y mod p25519 = gval x mod p25519"
    show "returns (car25519 y) (\<lambda>z. digits16 z \<and> gval z mod p25519 = gval x mod p25519)"
      by (rule returns_mono [OF car_near_raw [OF y(1)]]) (use y carried_exact [OF y(1)] carried_cong in auto)
  qed
  then show ?thesis by simp
qed

lemma sel_swap: "b = 0 \<or> b = 1 \<Longrightarrow> length p = length q \<Longrightarrow> sel25519 p q b = (if b = 1 then (q, p) else (p, q))"
proof -
  assume b: "b = 0 \<or> b = 1" and l: "length p = length q"
  have "x XOR (x XOR y) = y" "y XOR (x XOR y) = x" for x y :: int
    by (rule bit_eqI, auto simp: bit_simps)+
  then show ?thesis using b l by (auto simp: sel25519_def Let_def intro!: nth_equalityI)
qed

definition gf_p :: gf where
  \<comment> \<open>the limbs of \<open>2 ^ 255 - 19\<close>\<close>
  "gf_p = [0xffed] @ replicate 14 0xffff @ [0x7fff]"

lemma gval_gf_p: "gval gf_p = p25519"
  by (simp add: gf_p_def pval_def p25519_def numeral_eq_Suc)

lemma gf_p_nth: "gf_p ! 0 = 0xffed" "1 \<le> k \<Longrightarrow> k < 15 \<Longrightarrow> gf_p ! k = 0xffff" "gf_p ! 15 = 0x7fff" "length gf_p = 16"
  by (auto simp: gf_p_def nth_append nth_Cons')

definition sub_inv :: "gf \<Rightarrow> nat \<Rightarrow> gf \<Rightarrow> bool" where
  \<comment> \<open>limbs below \<open>i - 1\<close> of the difference are final, limb \<open>i - 1\<close> may be negative\<close>
  "sub_inv t i m \<longleftrightarrow> length m = 16 \<and> (\<forall>k. Suc k < i \<longrightarrow> 0 \<le> m ! k \<and> m ! k < 65536) \<and>
     - 65536 \<le> m ! (i - 1) \<and> m ! (i - 1) < 65536 \<and> pval 65536 i m = pval 65536 i t - pval 65536 i gf_p"

lemma neg_div_pos: "- m \<le> v \<Longrightarrow> v < 0 \<Longrightarrow> v div m = - 1" "- m \<le> v \<Longrightarrow> v < 0 \<Longrightarrow> v mod m = v + m" for v m :: int
proof -
  assume v: "- m \<le> v" "v < 0"
  have "(v + m) mod m = v + m" by (rule mod_pos_pos_trivial) (use v in auto)
  then show r: "v mod m = v + m" by (simp only: mod_add_self2)
  have "m * (v div m) = m * - 1" using mult_div_mod_eq [of m v] unfolding r by simp
  then show "v div m = - 1" using v by (simp only: mult_cancel_left) simp
qed

lemma borrow: "- 65536 \<le> v \<Longrightarrow> v < 65536 \<Longrightarrow> drop_bit 16 v AND 1 = of_bool (v < 0)" for v :: int
proof -
  assume "- 65536 \<le> v" "v < 65536"
  then have "v div 65536 = (if v < 0 then - 1 else 0)" by (auto simp: neg_div_pos zdiv_eq_0_iff)
  then show ?thesis by (simp add: drop_bit_eq_div)
qed

lemma mask16: "v AND 0xffff = v mod 65536" for v :: int
  using take_bit_eq_mask [of 16 v] by (simp add: take_bit_eq_mod mask_eq_exp_minus_1)

lemma sub_step:
  assumes t: "digits16 t" and i: "1 \<le> i" "i < 16" and m: "sub_inv t i m"
  defines "v \<equiv> t ! i - gf_p ! i - (drop_bit 16 (m ! (i - 1)) AND 1)"
  shows "sub_inv t (Suc i) (m[i := v, i - 1 := m ! (i - 1) AND 0xffff])" "list_all in_i64 [t ! i - gf_p ! i, v]"
proof -
  obtain j where j: "i = Suc j" using i by (cases i) auto
  have P: "0 \<le> gf_p ! i" "gf_p ! i \<le> 65535" using gf_p_nth(1,3) gf_p_nth(2) [of i] i by (cases "i = 15"; simp)+
  have ti: "0 \<le> t ! i" "t ! i < 65536" using t i by (auto simp: digits16_def)
  have mj: "- 65536 \<le> m ! j" "m ! j < 65536" using m j by (auto simp: sub_inv_def)
  have b: "drop_bit 16 (m ! j) AND 1 = of_bool (m ! j < 0)" using borrow mj by blast
  have md: "m ! j mod 65536 = m ! j + 65536 * of_bool (m ! j < 0)"
    using mj by (auto simp: mod_pos_pos_trivial neg_div_pos)
  have v: "- 65536 \<le> v" "v < 65536" using ti P by (auto simp: v_def j b)
  have l: "length m = 16" "pval 65536 (Suc j) m = pval 65536 (Suc j) t - pval 65536 (Suc j) gf_p"
    using m j by (simp_all add: sub_inv_def)
  let ?m = "m[Suc j := v, j := m ! j AND 0xffff]"
  have "pval 65536 (Suc j) ?m = pval 65536 (Suc j) m + (m ! j mod 65536 - m ! j) * 65536 ^ j"
    using l i j by (subst pval_update [symmetric]) (auto simp: mask16 nth_list_update intro!: pval_cong)
  then have "pval 65536 (Suc (Suc j)) ?m = pval 65536 (Suc j) m + (m ! j mod 65536 - m ! j) * 65536 ^ j + v * 65536 ^ Suc j"
    using l i j by (subst pval_Suc) simp
  also have "\<dots> = pval 65536 (Suc (Suc j)) t - pval 65536 (Suc (Suc j)) gf_p"
    unfolding l(2) md by (simp add: pval_Suc v_def j b algebra_simps)
  finally show "sub_inv t (Suc i) (m[i := v, i - 1 := m ! (i - 1) AND 0xffff])"
    using m v l i j by (auto simp: sub_inv_def nth_list_update mask16 less_Suc_eq)
  show "list_all in_i64 [t ! i - gf_p ! i, v]" using v ti P by (auto simp: in_i64_def)
qed

lemma pack_sub_diff:
  assumes t: "digits16 t" and m: "length m = 16"
  shows "returns (pack_sub t m) (sub_inv t 16)"
  unfolding pack_sub_def
proof (rule returns_bind)
  have t0: "0 \<le> t ! 0" "t ! 0 < 65536" using t by (auto simp: digits16_def)
  show "returns (chk [t ! 0 - 0xffed] (m[0 := t ! 0 - 0xffed])) (sub_inv t 1)"
    by (rule returns_chk) (use t0 m in \<open>auto simp: in_i64_def sub_inv_def pval_Suc gf_p_nth\<close>)
next
  fix m assume m: "sub_inv t 1 m"
  show "returns (foldM (\<lambda>i m. let v = t ! i - 0xffff - (drop_bit 16 (m ! (i - 1)) AND 1)
      in chk [t ! i - 0xffff, v] (m[i := v, i - 1 := m ! (i - 1) AND 0xffff])) [1..<15] m \<bind>
      (\<lambda>m. let v = t ! 15 - 0x7fff - (drop_bit 16 (m ! 14) AND 1)
        in chk [t ! 15 - 0x7fff, v] (m[15 := v, 14 := m ! 14 AND 0xffff]))) (sub_inv t 16)"
  proof (rule returns_bind [OF returns_foldM [where I = "sub_inv t"]])
    fix i m assume i: "1 \<le> i" "i < 15" and m: "sub_inv t i m"
    show "returns (let v = t ! i - 0xffff - (drop_bit 16 (m ! (i - 1)) AND 1)
        in chk [t ! i - 0xffff, v] (m[i := v, i - 1 := m ! (i - 1) AND 0xffff])) (sub_inv t (Suc i))"
      unfolding Let_def by (rule returns_chk) (use sub_step [OF t i(1) _ m] i gf_p_nth(2) [OF i] in simp_all)
  next
    fix m assume m: "sub_inv t 15 m"
    show "returns (let v = t ! 15 - 0x7fff - (drop_bit 16 (m ! 14) AND 1)
        in chk [t ! 15 - 0x7fff, v] (m[15 := v, 14 := m ! 14 AND 0xffff])) (sub_inv t 16)"
      unfolding Let_def by (rule returns_chk) (use sub_step [OF t _ _ m] in \<open>simp_all add: gf_p_nth\<close>)
  qed (use m in simp_all)
qed

lemma sub_final:
  assumes t: "digits16 t" and m: "sub_inv t 16 m"
  shows "drop_bit 16 (m ! 15) AND 1 = of_bool (gval t < p25519)" "p25519 \<le> gval t \<Longrightarrow> digits16 m"
    "gval m = gval t - p25519" "length m = 16"
proof -
  have v: "gval m = gval t - p25519" using m by (simp add: sub_inv_def gval_gf_p)
  have lo: "0 \<le> pval 65536 15 m" "pval 65536 15 m < 65536 ^ 15"
    using m pval_range [of 65536 15 m] by (auto simp: sub_inv_def)
  have s: "gval m = pval 65536 15 m + m ! 15 * 65536 ^ 15" using pval_Suc [of 65536 15 m] by simp
  have neg: "m ! 15 < 0 \<longleftrightarrow> gval t < p25519"
  proof
    assume "m ! 15 < 0"
    then have "m ! 15 * 65536 ^ 15 \<le> - 1 * 65536 ^ 15" by (intro mult_right_mono) simp_all
    then show "gval t < p25519" using v s lo by linarith
  next
    assume "gval t < p25519"
    then have "m ! 15 * 65536 ^ 15 < 0" using v s lo by linarith
    then show "m ! 15 < 0" by (simp add: mult_less_0_iff)
  qed
  show "drop_bit 16 (m ! 15) AND 1 = of_bool (gval t < p25519)"
    using borrow [of "m ! 15"] m neg by (simp add: sub_inv_def)
  show "gval m = gval t - p25519" "length m = 16" using v m by (simp_all add: sub_inv_def)
  show "digits16 m" if "p25519 \<le> gval t"
  proof -
    have "0 \<le> m ! k \<and> m ! k < 65536" if "k < 16" for k
      using m neg \<open>p25519 \<le> gval t\<close> that by (cases "k = 15") (auto simp: sub_inv_def)
    then show ?thesis using m by (simp add: digits16_def sub_inv_def)
  qed
qed

lemma pack_reduce:
  assumes t: "digits16 t" and m: "length m = 16"
  shows "returns (pack_round (t, m))
    (\<lambda>(t', m'). digits16 t' \<and> length m' = 16 \<and> gval t' = (if gval t < p25519 then gval t else gval t - p25519))"
  unfolding pack_round_def prod.case
proof (rule returns_bind [OF pack_sub_diff [OF t m]])
  fix m assume m: "sub_inv t 16 m"
  note f = sub_final [OF t m]
  have "length t = length m" using t f(4) by (simp add: digits16_def)
  then have "sel25519 t m (1 - (drop_bit 16 (m ! 15) AND 1)) = (if gval t < p25519 then (t, m) else (m, t))"
    unfolding f(1) by (simp add: sel_swap)
  then show "returns (let b = drop_bit 16 (m ! 15) AND 1 in Some (sel25519 t m (1 - b)))
    (\<lambda>(t', m'). digits16 t' \<and> length m' = 16 \<and> gval t' = (if gval t < p25519 then gval t else gval t - p25519))"
    using f t by (auto simp: returns_def digits16_def Let_def)
qed

lemma mod_by_subtraction: "0 \<le> v \<Longrightarrow> v < 3 * m \<Longrightarrow> v mod m = (let u = if v < m then v else v - m in if u < m then u else u - m)" for v m :: int
proof -
  assume v: "0 \<le> v" "v < 3 * m"
  have "v mod m = (v - m) mod m" "v mod m = (v - m - m) mod m" by (simp_all only: minus_mod_self2)
  then show ?thesis using v by (auto simp: Let_def simp del: minus_mod_self2)
qed

lemma foldM_Nil: "foldM f [] = Some"
  by (rule ext) simp

lemma pack_twice:
  assumes t: "digits16 t"
  shows "returns (foldM (\<lambda>j. pack_round) [0..<2] (t, gf0)) (\<lambda>(t', m'). digits16 t' \<and> gval t' = gval t mod p25519)"
proof -
  have two: "foldM (\<lambda>j. pack_round) [0..<2] s = pack_round s \<bind> pack_round" for s
    by (cases "pack_round s") (simp_all add: upt_rec foldM_Nil)
  have l: "length gf0 = 16" by (simp add: gf0_def)
  have r: "0 \<le> gval t" "gval t < 3 * p25519" using digits16_range [OF t] by (simp_all add: p25519_def)
  show ?thesis unfolding two mod_by_subtraction [OF r]
  proof (rule returns_bind [OF pack_reduce [OF t l]], clarify)
    fix t' m' :: gf assume "digits16 t'" "length m' = 16" "gval t' = (if gval t < p25519 then gval t else gval t - p25519)"
    then show "returns (pack_round (t', m')) (\<lambda>(t', m'). digits16 t' \<and>
       gval t' = (let u = if gval t < p25519 then gval t else gval t - p25519 in if u < p25519 then u else u - p25519))"
      by (intro returns_mono [OF pack_reduce]) (auto simp: Let_def split: if_splits)
  qed
qed

subsection \<open>Little-endian byte strings\<close>

primrec le_bytes :: "nat \<Rightarrow> int \<Rightarrow> u8 list" where
  "le_bytes 0 v = []"
| "le_bytes (Suc n) v = word_of_int v # le_bytes n (v div 256)"

primrec le_value :: "u8 list \<Rightarrow> int" where
  "le_value [] = 0"
| "le_value (b # bs) = uint b + 256 * le_value bs"

lemma byte_256: "(256 :: u8) = 0" "(65536 :: u8) = 0"
  by simp_all

lemma byte_of_mod: "(word_of_int (v mod 256) :: u8) = word_of_int v"
  by (subst word_of_int_eq_iff) (simp add: take_bit_eq_mod)

lemma length_le_bytes [simp]: "length (le_bytes n v) = n"
  by (induction n arbitrary: v) simp_all

lemma le_value_range: "0 \<le> le_value bs \<and> le_value bs < 256 ^ length bs"
proof (induction bs)
  case (Cons b bs)
  have "0 \<le> uint b" "uint b < 256" using uint_lt2p [of b] by simp_all
  then show ?case using Cons by simp
qed simp

lemma le_value_le_bytes: "le_value (le_bytes n v) = v mod 256 ^ n"
proof (induction n arbitrary: v)
  case (Suc n)
  have "uint (word_of_int v :: u8) = v mod 256" by (simp add: uint_word_of_int)
  then show ?case using Suc by (simp add: zmod_zmult2_eq)
qed simp

lemma le_bytes_le_value: "le_bytes (length bs) (le_value bs) = bs"
proof (induction bs)
  case (Cons b bs)
  have "(uint b + 256 * le_value bs) div 256 = le_value bs" using uint_lt2p [of b] by simp
  moreover have "(word_of_int (uint b + 256 * le_value bs) :: u8) = b"
    by (simp add: byte_256)
  ultimately show ?case using Cons by simp
qed simp

lemma le_bytes_inject: "0 \<le> u \<Longrightarrow> u < 256 ^ n \<Longrightarrow> 0 \<le> v \<Longrightarrow> v < 256 ^ n \<Longrightarrow> le_bytes n u = le_bytes n v \<longleftrightarrow> u = v"
  using le_value_le_bytes [of n u] le_value_le_bytes [of n v] by (metis mod_pos_pos_trivial)

lemma pval_Cons: "pval b (Suc n) (x # xs) = x + b * pval b n xs"
  unfolding pval_def sum.lessThan_Suc_shift by (simp add: sum_distrib_left algebra_simps)

lemma limb_bytes:
  "\<forall>x \<in> set t. 0 \<le> x \<and> x < 65536 \<Longrightarrow>
   concat (map (\<lambda>x. [word_of_int (x AND 0xff), word_of_int (drop_bit 8 x)]) t) = le_bytes (2 * length t) (pval 65536 (length t) t)"
proof (induction t)
  case (Cons x t)
  let ?v = "x + 65536 * pval 65536 (length t) t"
  have "?v div 256 = x div 256 + 256 * pval 65536 (length t) t" by simp
  then have d: "?v div 256 div 256 = pval 65536 (length t) t" using Cons.prems by (simp add: zdiv_zmult2_eq [symmetric])
  have "x AND 0xff = take_bit 8 x" using take_bit_eq_mask [of 8 x] by (simp add: mask_eq_exp_minus_1)
  then have w: "(word_of_int (x AND 0xff) :: u8) = word_of_int ?v" by (simp add: take_bit_eq_mod byte_of_mod byte_256)
  have w': "(word_of_int (drop_bit 8 x) :: u8) = word_of_int (?v div 256)"
    unfolding \<open>?v div 256 = _\<close> by (simp add: drop_bit_eq_div byte_256)
  show ?case using Cons by (simp add: pval_Cons w w' d)
qed simp

lemma pack_felt:
  assumes n: "fe 60 x v"
  shows "pack25519 x = Some (le_bytes 32 (v mod p25519))"
proof -
  let ?out = "\<lambda>(t :: gf). concat (map (\<lambda>i. [word_of_int (t ! i AND 0xff), word_of_int (drop_bit 8 (t ! i))]) [0..<16]) :: u8 list"
  have x: "limbs_within (2 ^ 60) x" "gval x mod p25519 = v mod p25519" using n by (simp_all add: fe_def)
  have out: "?out t = le_bytes 32 (gval t)" if t: "digits16 t" for t
  proof -
    have "t = map (\<lambda>i. t ! i) [0..<16]" using t map_nth [of t] by (simp add: digits16_def)
    then have "?out t = concat (map (\<lambda>x. [word_of_int (x AND 0xff), word_of_int (drop_bit 8 x)]) t)"
      by (metis (no_types, lifting) map_map comp_def map_eq_conv)
    also have "\<dots> = le_bytes (2 * length t) (pval 65536 (length t) t)"
      by (rule limb_bytes) (use t in \<open>auto simp: digits16_def in_set_conv_nth\<close>)
    finally show ?thesis using t by (simp add: digits16_def)
  qed
  have "returns ((car25519 x \<bind> (\<lambda>t. car25519 t \<bind> car25519)) \<bind> (\<lambda>t. foldM (\<lambda>j. pack_round) [0..<2] (t, gf0) \<bind> (\<lambda>(t, m). Some (?out t))))
    (\<lambda>r. r = le_bytes 32 (v mod p25519))"
  proof (rule returns_bind [OF car_three [OF x(1) order_refl]], elim conjE)
    fix y assume y: "digits16 y" "gval y mod p25519 = gval x mod p25519"
    show "returns (foldM (\<lambda>j. pack_round) [0..<2] (y, gf0) \<bind> (\<lambda>(t, m). Some (?out t))) (\<lambda>r. r = le_bytes 32 (v mod p25519))"
      by (rule returns_bind [OF pack_twice [OF y(1)]]) (use y x out in \<open>auto simp: returns_def\<close>)
  qed
  then show ?thesis by (simp add: returns_def pack25519_def)
qed

subsection \<open>Comparison, parity, unpacking\<close>

lemma word_xor_0: "x XOR y = 0 \<longleftrightarrow> x = y" for x y :: u8
proof
  assume "x XOR y = 0"
  then have "bit (x XOR y) i \<longleftrightarrow> False" for i by simp
  then show "x = y" by (auto intro: bit_eqI simp: bit_simps)
qed simp

lemma mem_diff_0: "length c = length d \<Longrightarrow> mem_diff c d = 0 \<longleftrightarrow> c = d"
proof -
  have "length c = length d \<Longrightarrow> fold (\<lambda>(x, y) diff. diff OR (x XOR y)) (zip c d) s = 0 \<longleftrightarrow> s = 0 \<and> c = d" for s :: u8
    by (induction c d arbitrary: s rule: list_induct2) (auto simp: or_eq_0_iff word_xor_0)
  then show "length c = length d \<Longrightarrow> mem_diff c d = 0 \<longleftrightarrow> c = d" by (simp add: mem_diff_def)
qed

lemma residue_range: "0 \<le> v mod p25519" "v mod p25519 < 256 ^ 32"
proof -
  have "0 < p25519" "p25519 < 256 ^ 32" by (simp_all add: p25519_def)
  then show "0 \<le> v mod p25519" "v mod p25519 < 256 ^ 32" using pos_mod_bound [of p25519 v] by (simp, linarith)
qed

lemma neq_fe:
  assumes "fe 60 x u" "fe 60 y v"
  shows "neq25519 x y = Some (u mod p25519 \<noteq> v mod p25519)"
  using assms mem_diff_0 [of "le_bytes 32 (u mod p25519)" "le_bytes 32 (v mod p25519)"]
    le_bytes_inject [of "u mod p25519" 32 "v mod p25519"] residue_range
  by (simp add: neq25519_def pack_felt)

lemma par_fe:
  assumes "fe 60 x v"
  shows "par25519 x = Some (of_bool (odd (v mod p25519)))"
proof -
  have "le_bytes 32 w ! 0 = (word_of_int w :: u8)" for w using le_bytes.simps(2) [of 31 w] by simp
  moreover have "(word_of_int w :: u8) AND 1 = of_bool (odd w)" for w
    by (rule bit_word_eqI) (auto simp: bit_simps bit_1_iff bit_0)
  ultimately show ?thesis using assms by (simp add: par25519_def pack_felt)
qed

lemma digits16_felt: "digits16 t \<Longrightarrow> felt t (gval t)"
proof -
  assume t: "digits16 t"
  then have "0 \<le> t ! 0" "t ! 0 < 65536" by (auto simp: digits16_def)
  then have "- 38 \<le> t ! 0" "t ! 0 \<le> 65573" by linarith+
  then show ?thesis using t by (auto simp: felt_def near_def digits16_def)
qed

lemma le_value_pval: "le_value a = pval 256 (length a) (map uint a)"
  by (induction a) (simp_all add: pval_Cons)

lemma sum_pairs: "(\<Sum>k<2 * n. f k) = (\<Sum>i<n. f (2 * i) + f (2 * i + 1))" for f :: "nat \<Rightarrow> int"
  by (induction n) simp_all

lemma unpack_value:
  assumes "length a = 32"
  shows "digits16 (unpack25519 a)" "gval (unpack25519 a) = le_value a mod 2 ^ 255"
proof -
  define f where "f i = uint (a ! (2 * i)) + push_bit 8 (uint (a ! (2 * i + 1)))" for i
  let ?o = "map f [0..<16]"
  have u: "unpack25519 a = ?o[15 := f 15 AND 0x7fff]" 
    by (simp only: unpack25519_def f_def [symmetric] Let_def) (simp del: upt_Suc)
  have f: "0 \<le> f i" "f i < 65536" for i
    using uint_lt2p [of "a ! (2 * i)"] uint_lt2p [of "a ! (2 * i + 1)"] by (simp_all add: f_def push_bit_eq_mult)
  have m: "f 15 AND 0x7fff = f 15 mod 32768" using take_bit_eq_mask [of 15 "f 15"] by (simp add: take_bit_eq_mod mask_eq_exp_minus_1)
  show d: "digits16 (unpack25519 a)" unfolding u m using f by (auto simp: digits16_def nth_list_update simp del: upt_Suc)
  have "le_value a = (\<Sum>k<2 * 16. uint (a ! k) * 256 ^ k)" using assms by (simp add: le_value_pval pval_def)
  also have "\<dots> = gval ?o" unfolding sum_pairs pval_def
  proof (rule sum.cong)
    fix i :: nat assume "i \<in> {..<16}"
    moreover have "(256 :: int) ^ (2 * i) = 65536 ^ i" "(256 :: int) ^ (2 * i + 1) = 256 * 65536 ^ i" by (simp_all add: power_mult)
    ultimately show "uint (a ! (2 * i)) * 256 ^ (2 * i) + uint (a ! (2 * i + 1)) * 256 ^ (2 * i + 1) = ?o ! i * 65536 ^ i"
      by (simp add: f_def push_bit_eq_mult algebra_simps del: upt_Suc power_Suc)
  qed simp
  finally have v: "gval ?o = le_value a" by simp
  have "gval (unpack25519 a) = le_value a - (f 15 - f 15 mod 32768) * 65536 ^ 15"
    unfolding u m by (subst pval_update) (simp_all add: v algebra_simps del: upt_Suc)
  also have "f 15 - f 15 mod 32768 = 32768 * (f 15 div 32768)" by (simp add: minus_mod_eq_mult_div)
  finally have e: "le_value a = gval (unpack25519 a) + 2 ^ 255 * (f 15 div 32768)" by simp
  have "gval (unpack25519 a) = pval 65536 15 (unpack25519 a) + (f 15 mod 32768) * 65536 ^ 15"
    using pval_Suc [of 65536 15 "unpack25519 a"] by (simp add: u m del: upt_Suc)
  moreover have "pval 65536 15 (unpack25519 a) < 65536 ^ 15" "(f 15 mod 32768) * 65536 ^ 15 \<le> 32767 * 65536 ^ 15"
    using pval_range [of 65536 15 "unpack25519 a"] d by (auto simp: digits16_def intro: mult_right_mono)
  ultimately have "gval (unpack25519 a) < 2 ^ 255" by simp
  then show "gval (unpack25519 a) = le_value a mod 2 ^ 255" unfolding e using digits16_range [OF d] by simp
qed

lemma unpack_fe: "length a = 32 \<Longrightarrow> felt (unpack25519 a) (le_value a mod 2 ^ 255)"
  using digits16_felt [OF unpack_value(1)] unpack_value(2) by simp

end
