(* ===== verification/Ed25519_Scalar.thy ===== *)
theory Ed25519_Scalar
  imports Ed25519_Encoding
begin

text \<open>
  Reduction modulo the group order in \<^verbatim>\<open>kernel/crypto/ed25519.c\<close>: \<open>modL\<close> takes 64 signed base-256 limbs and
  writes the 32 bytes of the least residue modulo \<open>L\<close>, for all the inputs that signing and
  verification produce, without leaving the range of \<^verbatim>\<open>int64_t\<close>.
\<close>

section \<open>Definitions\<close>

definition L_order :: "u8 list" where
  "L_order = [0xed, 0xd3, 0xf5, 0x5c, 0x1a, 0x63, 0x12, 0x58,
              0xd6, 0x9c, 0xf7, 0xa2, 0xde, 0xf9, 0xde, 0x14,
              0x00, 0x00, 0x00, 0x00, 0x00, 0x00, 0x00, 0x00,
              0x00, 0x00, 0x00, 0x00, 0x00, 0x00, 0x00, 0x10]"

definition modL_carry :: "nat \<Rightarrow> nat \<Rightarrow> int list \<times> int \<Rightarrow> (int list \<times> int) option" where
  \<comment> \<open>the body of the inner loop over \<open>j\<close>\<close>
  "modL_carry i j = (\<lambda>(x, carry).
     (let l = uint (L_order ! (j - (i - 32)));
          v = x ! j + (carry - 16 * x ! i * l);
          carry' = drop_bit 8 (v + 128);
          s = push_bit 8 carry'
      in chk [16 * x ! i, 16 * x ! i * l, carry - 16 * x ! i * l, v, v + 128, s, v - s] (x[j := v - s], carry')))"

definition modL_fold :: "nat \<Rightarrow> int list \<Rightarrow> int list option" where
  \<comment> \<open>the body of the loop over \<open>i\<close>\<close>
  "modL_fold i x = do {
     (x, carry) \<leftarrow> foldM (modL_carry i) [i - 32..<i - 12] (x, 0);
     chk [x ! (i - 12) + carry] (x[i - 12 := x ! (i - 12) + carry, i := 0])
   }"

definition modL_quot :: "nat \<Rightarrow> int list \<times> int \<Rightarrow> (int list \<times> int) option" where
  "modL_quot j = (\<lambda>(x, carry).
     (let d = drop_bit 4 (x ! 31) * uint (L_order ! j);
          v = x ! j + (carry - d)
      in chk [d, carry - d, v] (x[j := v AND 255], drop_bit 8 v)))"

definition modL_fix :: "int \<Rightarrow> nat \<Rightarrow> int list \<Rightarrow> int list option" where
  "modL_fix carry j x =
    (let d = carry * uint (L_order ! j) in chk [d, x ! j - d] (x[j := x ! j - d]))"

definition modL_out :: "nat \<Rightarrow> int list \<times> u8 list \<Rightarrow> (int list \<times> u8 list) option" where
  "modL_out i = (\<lambda>(x, r).
     (let v = x ! (i + 1) + drop_bit 8 (x ! i)
      in chk [v] (x[i + 1 := v], r @ [word_of_int (x ! i AND 255)])))"

definition modL :: "int list \<Rightarrow> u8 list option" where
  \<comment> \<open>the 32 bytes written to \<open>r\<close>\<close>
  "modL x = do {
     x \<leftarrow> foldM modL_fold (rev [32..<64]) x;
     (x, carry) \<leftarrow> foldM modL_quot [0..<32] (x, 0);
     x \<leftarrow> foldM (modL_fix carry) [0..<32] x;
     (x, r) \<leftarrow> foldM modL_out [0..<32] (x, []);
     Some r
   }"

definition reduce :: "u8 list \<Rightarrow> u8 list option" where
  "reduce r = do { r' \<leftarrow> modL (map uint r); Some (r' @ replicate 32 0) }"

section \<open>Lemmas\<close>

definition ell :: int where
  \<comment> \<open>the order of the base point\<close>
  "ell = 2 ^ 252 + 27742317777372353535851937790883648493"

abbreviation xval :: "int list \<Rightarrow> int" where "xval \<equiv> pval 256 64"

abbreviation Ls :: "int list" where "Ls \<equiv> map uint L_order"

lemma L_order_value: "pval 256 32 Ls = ell" "pval 256 20 Ls = ell - 2 ^ 252"
  by code_simp+

lemma length_L_order [simp]: "length L_order = 32"
  by (simp add: L_order_def)

lemma L_byte: "0 \<le> uint (L_order ! k)" "uint (L_order ! k) \<le> 255"
  using uint_lt2p [of "L_order ! k"] by simp_all

lemma L_byte_0: "16 \<le> k \<Longrightarrow> k < 20 \<Longrightarrow> L_order ! k = 0"
proof -
  assume "16 \<le> k" "k < 20"
  then have "k = 16 \<or> k = 17 \<or> k = 18 \<or> k = 19" by auto
  then show ?thesis by (auto simp: L_order_def)
qed

lemma returns_foldM_rev:
  "I b s \<Longrightarrow> a \<le> b \<Longrightarrow> (\<And>i s. a \<le> i \<Longrightarrow> i < b \<Longrightarrow> I (Suc i) s \<Longrightarrow> returns (f i s) (I i)) \<Longrightarrow> returns (foldM f (rev [a..<b]) s) (I a)"
proof (induction "b - a" arbitrary: b s)
  case (Suc n)
  then obtain c where c: "b = Suc c" "a \<le> c" by (cases b) auto
  then have "rev [a..<b] = c # rev [a..<c]" by simp
  moreover have "returns (f c s \<bind> foldM f (rev [a..<c])) (I a)"
    by (rule returns_bind [where P = "I c"]) (use Suc c in auto)
  ultimately show ?case by simp
qed (simp add: returns_Some)

definition carry_ok :: "int list \<Rightarrow> nat \<Rightarrow> (nat \<Rightarrow> int) \<Rightarrow> nat \<Rightarrow> int list \<times> int \<Rightarrow> bool" where
  "carry_ok x0 i cb j = (\<lambda>(x, c). length x = 64 \<and> (\<forall>k<64. k < i - 32 \<or> j \<le> k \<longrightarrow> x ! k = x0 ! k) \<and>
     (\<forall>k. i - 32 \<le> k \<and> k < j \<longrightarrow> - 128 \<le> x ! k \<and> x ! k < 128) \<and>
     xval x + c * 256 ^ j = xval x0 - 16 * x0 ! i * 256 ^ (i - 32) * pval 256 (j - (i - 32)) Ls \<and> \<bar>c\<bar> \<le> cb (j - (i - 32)))"

lemma carry_step:
  assumes i: "32 \<le> i" "i < 64" and j: "i - 32 \<le> j" "j < i - 12" and s: "carry_ok x0 i cb j (x, c)"
    and w: "\<bar>x0 ! i\<bar> \<le> 2 ^ 22" and xb: "\<bar>x0 ! j\<bar> \<le> xb" "xb \<le> 2 ^ 22" and cb: "cb (j - (i - 32)) \<le> 2 ^ 27"
    and bound: "xb + cb (j - (i - 32)) + (if j - (i - 32) < 16 then 2 ^ 34 else 0) + 128 \<le> 256 * cb (Suc j - (i - 32))"
  shows "returns (modL_carry i j (x, c)) (carry_ok x0 i cb (Suc j))"
proof -
  define n where "n = j - (i - 32)"
  define l where "l = uint (L_order ! n)"
  define v where "v = x0 ! j + (c - 16 * x0 ! i * l)"
  have n: "Suc j - (i - 32) = Suc n" "n < 20" "j = i - 32 + n" using i j by (auto simp: n_def)
  have x: "length x = 64" "x ! j = x0 ! j" "x ! i = x0 ! i" using s i j by (auto simp: carry_ok_def)
  have c: "\<bar>c\<bar> \<le> cb n" using s by (simp add: carry_ok_def n_def)
  have l: "0 \<le> l" "l \<le> 255" "16 \<le> n \<Longrightarrow> l = 0" using L_byte [of n] L_byte_0 [of n] n by (auto simp: l_def)
  have "\<bar>x0 ! i\<bar> * l \<le> 2 ^ 22 * 255" using w l by (intro mult_mono) auto
  then have wl: "\<bar>16 * x0 ! i * l\<bar> \<le> 2 ^ 34" using l by (simp add: abs_mult mult.commute [of l])
  then have wl': "\<bar>16 * x0 ! i * l\<bar> \<le> (if n < 16 then 2 ^ 34 else 0)" using l(3) by simp
  have B: "xb + cb n + (if n < 16 then 2 ^ 34 else 0) + 128 \<le> 256 * cb (Suc n)" using bound n(1) by (simp add: n_def)
  have v: "\<bar>v\<bar> \<le> xb + cb n + (if n < 16 then 2 ^ 34 else 0)" using wl' c xb(1) unfolding v_def by linarith
  have q: "\<bar>(v + 128) div 256\<bar> \<le> cb (Suc n)" using v B by (intro div_bounds) (simp_all add: abs_le_iff)
  have sm: "v - 256 * ((v + 128) div 256) = (v + 128) mod 256 - 128" by (simp add: minus_mult_div_eq_mod [symmetric])
  have r: "- 128 \<le> v - 256 * ((v + 128) div 256)" "v - 256 * ((v + 128) div 256) < 128" unfolding sm by simp_all
  have v': "\<bar>v\<bar> \<le> 2 ^ 36" using v xb(2) cb by (auto simp: n_def split: if_splits)
  have chks: "list_all in_i64 [16 * x0 ! i, 16 * x0 ! i * l, c - 16 * x0 ! i * l, v, v + 128,
      256 * ((v + 128) div 256), v - 256 * ((v + 128) div 256)]"
  proof -
    have "\<bar>c\<bar> \<le> 2 ^ 27" using c cb by (simp add: n_def)
    then have "\<bar>c - 16 * x0 ! i * l\<bar> \<le> 2 ^ 35" using wl by simp
    then show ?thesis using w wl v' r by (simp add: in_i64_abs)
  qed
  have val: "xval (x[j := v - 256 * ((v + 128) div 256)]) + (v + 128) div 256 * 256 ^ Suc j =
      xval x0 - 16 * x0 ! i * 256 ^ (i - 32) * pval 256 (Suc n) Ls"
  proof -
    have "xval x + c * 256 ^ j = xval x0 - 16 * x0 ! i * 256 ^ (i - 32) * pval 256 n Ls" using s by (simp add: carry_ok_def n_def)
    moreover have "xval (x[j := v - 256 * ((v + 128) div 256)]) = xval x + (v - 256 * ((v + 128) div 256) - x0 ! j) * 256 ^ j"
      using x i j by (simp add: pval_update)
    moreover have "pval 256 (Suc n) Ls = pval 256 n Ls + l * 256 ^ n" using n by (simp add: pval_Suc l_def)
    moreover have "(256 :: int) ^ j = 256 ^ (i - 32) * 256 ^ n" using n by (simp add: power_add)
    ultimately show ?thesis unfolding v_def by (simp add: algebra_simps)
  qed
  have run: "modL_carry i j (x, c) = chk [16 * x0 ! i, 16 * x0 ! i * l, c - 16 * x0 ! i * l, v, v + 128,
      256 * ((v + 128) div 256), v - 256 * ((v + 128) div 256)] (x[j := v - 256 * ((v + 128) div 256)], (v + 128) div 256)"
    by (simp add: modL_carry_def Let_def x n_def [symmetric] l_def [symmetric] v_def drop_bit_eq_div push_bit_eq_mult mult.commute)
  have ok: "carry_ok x0 i cb (Suc j) (x[j := z], q)"
    if z: "- 128 \<le> z" "z < 128" and q: "\<bar>q\<bar> \<le> cb (Suc n)"
      and val: "xval (x[j := z]) + q * 256 ^ Suc j = xval x0 - 16 * x0 ! i * 256 ^ (i - 32) * pval 256 (Suc n) Ls" for z q
    unfolding carry_ok_def prod.case n(1)
  proof (intro conjI allI impI)
    show "x[j := z] ! k = x0 ! k" if "k < 64" "k < i - 32 \<or> Suc j \<le> k" for k using s j that by (auto simp: carry_ok_def nth_list_update)
    fix k assume "i - 32 \<le> k \<and> k < Suc j"
    then show "- 128 \<le> x[j := z] ! k" "x[j := z] ! k < 128" using s z x i j by (auto simp: carry_ok_def nth_list_update less_Suc_eq)
  qed (use x val q in simp_all)
  show ?thesis unfolding run by (rule returns_chk, rule chks, rule ok [OF r q val])
qed

definition first_cb :: "nat \<Rightarrow> int" where
  "first_cb n = (if n \<le> 16 then 2 ^ 27 else if n = 17 then 2 ^ 20 else 2 ^ 15)"

definition later_cb :: "nat \<Rightarrow> int" where
  "later_cb n = (if n \<le> 16 then 2 ^ 27 else if n = 17 then 2 ^ 20 else if n = 18 then 2 ^ 13 else if n = 19 then 64 else 2)"

lemma carries:
  assumes i: "32 \<le> i" "i < 64" and x: "length x = 64" "\<And>k. k < 64 \<Longrightarrow> \<bar>x ! k\<bar> \<le> 2 ^ 22"
    and cb: "cb = first_cb \<or> cb = later_cb \<and> (\<forall>k. i - 16 \<le> k \<and> k < i - 12 \<longrightarrow> \<bar>x ! k\<bar> \<le> 128)"
  shows "returns (foldM (modL_carry i) [i - 32..<i - 12] (x, 0)) (carry_ok x i cb (i - 12))"
proof (rule returns_foldM)
  show "carry_ok x i cb (i - 32) (x, 0)" using x cb by (auto simp: carry_ok_def first_cb_def later_cb_def)
  fix j s assume j: "i - 32 \<le> j" "j < i - 12" and "carry_ok x i cb j s"
  then obtain y c where s: "s = (y, c)" "carry_ok x i cb j (y, c)" by (cases s) auto
  define n where "n = j - (i - 32)"
  have n: "n < 20" "Suc j - (i - 32) = Suc n" "j = i - 32 + n" using i j by (auto simp: n_def)
  define xb :: int where "xb = (if cb = first_cb \<or> n < 16 then 2 ^ 22 else 128)"
  have "\<bar>x ! j\<bar> \<le> xb" using cb x(2) [of j] i j n by (auto simp: xb_def)
  moreover have "xb \<le> 2 ^ 22" by (simp add: xb_def)
  moreover have "cb n \<le> 2 ^ 27" using cb by (auto simp: first_cb_def later_cb_def)
  moreover have "xb + cb n + (if n < 16 then 2 ^ 34 else 0) + 128 \<le> 256 * cb (Suc n)"
  proof -
    consider "n < 16" | "n = 16" | "n = 17" | "n = 18" | "n = 19" using n by linarith
    then show ?thesis using cb by cases (auto simp: xb_def first_cb_def later_cb_def)
  qed
  ultimately show "returns (modL_carry i j s) (carry_ok x i cb (Suc j))" unfolding s(1)
    using carry_step [OF i j s(2) x(2) [OF i(2)]] by (simp only: n_def [symmetric] n(2))
qed (use i in simp)

definition fold_ok :: "int list \<Rightarrow> nat \<Rightarrow> int list \<Rightarrow> bool" where
  "fold_ok x0 i x \<longleftrightarrow> length x = 64 \<and> (\<forall>k<64. \<bar>x ! k\<bar> \<le> 2 ^ 21 + 2 ^ 15) \<and> (\<forall>k. i \<le> k \<and> k < 64 \<longrightarrow> x ! k = 0) \<and>
     (i < 64 \<longrightarrow> (\<forall>k. i - 32 \<le> k \<and> k < i - 12 \<longrightarrow> \<bar>x ! k\<bar> \<le> 128) \<and> (\<forall>k. i - 12 \<le> k \<and> k \<le> 50 \<longrightarrow> \<bar>x ! k\<bar> \<le> 130)) \<and>
     (i = 64 \<longrightarrow> x = x0) \<and> xval x mod ell = xval x0 mod ell"

lemma fold_step:
  assumes i: "32 \<le> i" "i < 64" and x0: "\<forall>k<64. \<bar>x0 ! k\<bar> \<le> 2 ^ 21" and x: "fold_ok x0 (Suc i) x"
  shows "returns (modL_fold i x) (fold_ok x0 i)"
proof -
  define cb where "cb = (if i = 63 then first_cb else later_cb)"
  have xl: "length x = 64" "\<And>k. k < 64 \<Longrightarrow> \<bar>x ! k\<bar> \<le> 2 ^ 21 + 2 ^ 15" "\<And>k. i < k \<Longrightarrow> k < 64 \<Longrightarrow> x ! k = 0"
    using x by (auto simp: fold_ok_def)
  have win: "i < 63 \<Longrightarrow> i - 31 \<le> k \<Longrightarrow> k < i - 11 \<Longrightarrow> \<bar>x ! k\<bar> \<le> 128" "i < 63 \<Longrightarrow> i - 11 \<le> k \<Longrightarrow> k \<le> 50 \<Longrightarrow> \<bar>x ! k\<bar> \<le> 130" for k
    using x by (auto simp: fold_ok_def)
  have "returns (foldM (modL_carry i) [i - 32..<i - 12] (x, 0)) (carry_ok x i cb (i - 12))"
  proof (rule carries [OF i xl(1)])
    show "\<bar>x ! k\<bar> \<le> 2 ^ 22" if "k < 64" for k using xl(2) [OF that] by simp
    show "cb = first_cb \<or> cb = later_cb \<and> (\<forall>k. i - 16 \<le> k \<and> k < i - 12 \<longrightarrow> \<bar>x ! k\<bar> \<le> 128)"
      using win(1) i by (auto simp: cb_def)
  qed
  then show ?thesis unfolding modL_fold_def
  proof (rule returns_bind, clarify)
    fix y c assume y: "carry_ok x i cb (i - 12) (y, c)"
    let ?z = "y[i - 12 := y ! (i - 12) + c, i := 0]"
    have yk: "length y = 64" "\<And>k. k < 64 \<Longrightarrow> k < i - 32 \<or> i - 12 \<le> k \<Longrightarrow> y ! k = x ! k"
      "\<And>k. i - 32 \<le> k \<Longrightarrow> k < i - 12 \<Longrightarrow> - 128 \<le> y ! k \<and> y ! k < 128" using y by (auto simp: carry_ok_def)
    have val: "xval y + c * 256 ^ (i - 12) = xval x - 16 * x ! i * 256 ^ (i - 32) * (ell - 2 ^ 252)"
      using y i by (simp add: carry_ok_def L_order_value)
    have c: "\<bar>c\<bar> \<le> cb 20" using y i by (simp add: carry_ok_def)
    then have c': "\<bar>c\<bar> \<le> 2 ^ 15" "i < 63 \<Longrightarrow> \<bar>c\<bar> \<le> 2" by (auto simp: cb_def first_cb_def later_cb_def split: if_splits)
    have y12: "y ! (i - 12) = x ! (i - 12)" "y ! i = x ! i" using yk(2) i by auto
    have new: "\<bar>y ! (i - 12) + c\<bar> \<le> 2 ^ 21 + 2 ^ 15" "i < 63 \<Longrightarrow> \<bar>y ! (i - 12) + c\<bar> \<le> 130"
    proof -
      show late: "\<bar>y ! (i - 12) + c\<bar> \<le> 130" if "i < 63"
      proof -
        have "\<bar>x ! (i - 12)\<bar> \<le> 128" using win(1) [OF that, of "i - 12"] i by linarith
        then show ?thesis using c'(2) [OF that] y12 by simp
      qed
      have "i = 63 \<Longrightarrow> \<bar>x ! (i - 12)\<bar> \<le> 2 ^ 21" using x x0 by (auto simp: fold_ok_def)
      then show "\<bar>y ! (i - 12) + c\<bar> \<le> 2 ^ 21 + 2 ^ 15" using late c'(1) y12 i by (cases "i = 63") auto
    qed
    have z: "?z ! k = (if k = i then 0 else if k = i - 12 then y ! (i - 12) + c else y ! k)" if "k < 64" for k
      using yk(1) i that by (simp add: nth_list_update)
    show "returns (chk [y ! (i - 12) + c] ?z) (fold_ok x0 i)"
    proof (rule returns_chk)
      show "list_all in_i64 [y ! (i - 12) + c]" using new(1) by (simp add: in_i64_abs)
      show "fold_ok x0 i ?z" unfolding fold_ok_def
      proof (intro conjI allI impI)
        fix k assume "k < (64 :: nat)"
        then show "\<bar>?z ! k\<bar> \<le> 2 ^ 21 + 2 ^ 15"
          using z [of k] new(1) yk(2) [of k] yk(3) [of k] xl(2) [of k] by (cases "k < i - 32 \<or> i - 12 \<le> k") auto
      next
        fix k assume "i \<le> k \<and> k < 64"
        moreover from this have "i - 12 \<le> k" by linarith
        ultimately show "?z ! k = 0" using z [of k] yk(2) [of k] xl(3) [of k] i by auto
      next
        fix k assume "i - 32 \<le> k \<and> k < i - 12"
        then show "\<bar>?z ! k\<bar> \<le> 128" using z [of k] yk(3) [of k] i by auto
      next
        fix k assume "i - 12 \<le> k \<and> k \<le> 50"
        then show "\<bar>?z ! k\<bar> \<le> 130"
          using z [of k] new(2) yk(2) [of k] win(2) [of k] i by (cases "k = i - 12"; cases "k = i"; cases "i < 63") auto
      next
        have "xval ?z = xval y + c * 256 ^ (i - 12) - x ! i * 256 ^ i"
          using yk(1) i y12 by (simp add: pval_update algebra_simps)
        also have "(256 :: int) ^ i = 256 ^ (i - 32) * 256 ^ 32"
          using i power_add [of "256 :: int" "i - 32" 32] by (simp only: le_add_diff_inverse2)
        finally have "xval x = xval ?z + ell * (16 * x ! i * 256 ^ (i - 32))" using val by (simp add: algebra_simps)
        then have "xval ?z mod ell = xval x mod ell" by simp
        then show "xval ?z mod ell = xval x0 mod ell" using x by (simp add: fold_ok_def)
      qed (use yk i in auto)
    qed
  qed
qed

lemma folds:
  assumes x0: "length x0 = 64" "\<forall>k<64. \<bar>x0 ! k\<bar> \<le> 2 ^ 21"
  shows "returns (foldM modL_fold (rev [32..<64]) x0) (fold_ok x0 32)"
proof (rule returns_foldM_rev)
  show "fold_ok x0 64 x0" using x0 by (force simp: fold_ok_def)
  show "returns (modL_fold i x) (fold_ok x0 i)" if "32 \<le> i" "i < 64" "fold_ok x0 (Suc i) x" for i x
    by (rule fold_step [OF that(1,2) x0(2) that(3)])
qed simp

definition quot_ok :: "int list \<Rightarrow> nat \<Rightarrow> int list \<times> int \<Rightarrow> bool" where
  "quot_ok x0 n = (\<lambda>(x, c). length x = 64 \<and> (\<forall>k<64. n \<le> k \<longrightarrow> x ! k = x0 ! k) \<and> (\<forall>k<n. 0 \<le> x ! k \<and> x ! k < 256) \<and>
     pval 256 n x + c * 256 ^ n = pval 256 n x0 - x0 ! 31 div 16 * pval 256 n Ls \<and> \<bar>c\<bar> \<le> 2 ^ 10)"

lemma mask8: "v AND 255 = v mod 256" for v :: int
  using take_bit_eq_mask [of 8 v] by (simp add: take_bit_eq_mod mask_eq_exp_minus_1)

lemma pval_update_above: "pval b j (x[j := w]) = pval b j x"
  by (rule pval_cong) simp

lemma quots:
  assumes x: "length x0 = 64" "\<forall>k<32. \<bar>x0 ! k\<bar> \<le> 130"
  shows "returns (foldM modL_quot [0..<32] (x0, 0)) (quot_ok x0 32)"
proof (rule returns_foldM)
  show "quot_ok x0 0 (x0, 0)" using x by (simp add: quot_ok_def)
  fix j s assume j: "j < 32" and "quot_ok x0 j s"
  then obtain x c where s: "s = (x, c)" "quot_ok x0 j (x, c)" by (cases s) auto
  define q where "q = x0 ! 31 div 16"
  define d where "d = q * uint (L_order ! j)"
  define v where "v = x0 ! j + (c - d)"
  have xj: "length x = 64" "x ! 31 = x0 ! 31" "x ! j = x0 ! j" "\<bar>c\<bar> \<le> 2 ^ 10" using s(2) j by (auto simp: quot_ok_def)
  have "\<bar>x0 ! 31\<bar> \<le> 130" using x(2) by simp
  then have "\<bar>q\<bar> \<le> 9" unfolding q_def by (intro div_bounds) simp_all
  then have "\<bar>q\<bar> * uint (L_order ! j) \<le> 9 * 255" using L_byte by (intro mult_mono) auto
  then have d: "\<bar>d\<bar> \<le> 2295" using L_byte by (simp add: d_def abs_mult)
  have xb: "\<bar>x0 ! j\<bar> \<le> 130" using x j by simp
  have v: "\<bar>v\<bar> \<le> 4000" using d xj(4) xb by (simp add: v_def)
  have c': "\<bar>v div 256\<bar> \<le> 2 ^ 10" using v by (intro div_bounds) simp_all
  have run: "modL_quot j s = chk [d, c - d, v] (x[j := v mod 256], v div 256)"
    by (simp add: modL_quot_def s Let_def xj q_def [symmetric] d_def [symmetric] v_def drop_bit_eq_div mask8)
  have "pval 256 (Suc j) (x[j := v mod 256]) + v div 256 * 256 ^ Suc j = pval 256 j x + v * 256 ^ j"
  proof -
    have "v mod 256 = v - 256 * (v div 256)" by (simp only: minus_mult_div_eq_mod)
    then show ?thesis using j xj(1) by (simp only: pval_Suc pval_update_above) (simp add: algebra_simps)
  qed
  also have "\<dots> = pval 256 (Suc j) x0 - q * pval 256 (Suc j) Ls"
    using s(2) j by (simp add: quot_ok_def pval_Suc v_def d_def q_def algebra_simps)
  finally have "quot_ok x0 (Suc j) (x[j := v mod 256], v div 256)"
    using s(2) j c' by (auto simp: quot_ok_def nth_list_update less_Suc_eq q_def)
  then show "returns (modL_quot j s) (quot_ok x0 (Suc j))" unfolding run
    using d v xj(4) by (intro returns_chk) (simp_all add: in_i64_abs)
qed simp

lemma fixes_ok:
  assumes x: "length x0 = 64" "\<forall>k<32. 0 \<le> x0 ! k \<and> x0 ! k < 256" and c: "c = 0 \<or> c = - 1"
  shows "returns (foldM (modL_fix c) [0..<32] x0)
    (\<lambda>x. length x = 64 \<and> (\<forall>k<64. 32 \<le> k \<longrightarrow> x ! k = x0 ! k) \<and> (\<forall>k<32. \<bar>x ! k\<bar> \<le> 510) \<and> pval 256 32 x = pval 256 32 x0 - c * ell)"
proof -
  let ?I = "\<lambda>n x. length x = 64 \<and> (\<forall>k<64. n \<le> k \<longrightarrow> x ! k = x0 ! k) \<and> (\<forall>k<n. \<bar>x ! k\<bar> \<le> 510) \<and>
    pval 256 n x = pval 256 n x0 - c * pval 256 n Ls"
  have "returns (foldM (modL_fix c) [0..<32] x0) (?I 32)"
  proof (rule returns_foldM [where I = ?I])
    fix j x assume j: "j < 32" and i: "?I j x"
    have b: "\<bar>x0 ! j - c * uint (L_order ! j)\<bar> \<le> 510" "\<bar>c * uint (L_order ! j)\<bar> \<le> 255"
      using x j c L_byte [of j] by auto
    have xj: "x ! j = x0 ! j" using i j by simp
    show "returns (modL_fix c j x) (?I (Suc j))" unfolding modL_fix_def Let_def xj
      by (rule returns_chk) (use b i j in \<open>simp_all add: in_i64_abs pval_Suc pval_update_above nth_list_update less_Suc_eq algebra_simps\<close>)
  qed (use x in simp_all)
  then show ?thesis using L_order_value(1) by simp
qed

lemma le_bytes_snoc: "le_bytes (Suc n) v = le_bytes n v @ [word_of_int (v div 256 ^ n)]"
  by (induction n arbitrary: v) (simp_all add: zdiv_zmult2_eq)

lemma le_bytes_mod: "le_bytes n (v mod 256 ^ n) = le_bytes n v"
  using le_bytes_inject [of "v mod 256 ^ n" n] le_value_le_bytes [of n v] le_bytes_le_value [of "le_bytes n v"] by simp

lemma outs:
  assumes x: "length x0 = 64" "\<forall>k<32. \<bar>x0 ! k\<bar> \<le> 510" "x0 ! 32 = 0"
  shows "returns (foldM modL_out [0..<32] (x0, [])) (\<lambda>(x, r). r = le_bytes 32 (pval 256 32 x0))"
proof -
  let ?E = "pval 256 32 x0"
  let ?I = "\<lambda>n (x, r). length x = 64 \<and> (\<forall>k<64. n < k \<longrightarrow> x ! k = x0 ! k) \<and> \<bar>x ! n\<bar> \<le> 600 \<and>
    pval 256 (33 - n) (drop n x) = ?E div 256 ^ n \<and> r = le_bytes n ?E"
  have "returns (foldM modL_out [0..<32] (x0, [])) (?I 32)"
  proof (rule returns_foldM [where I = ?I])
    have "pval 256 33 x0 = ?E" using pval_Suc [of 256 32 x0] x by simp
    moreover have "\<bar>x0 ! 0\<bar> \<le> 600" using x(2) by (auto dest: spec [of _ 0])
    ultimately show "?I 0 (x0, [])" using x(1) by simp
    fix i s assume i: "i < 32" and I: "?I i s"
    obtain x r where s: "s = (x, r)" by (cases s)
    define v where "v = x ! Suc i + x ! i div 256"
    have xi: "length x = 64" "\<bar>x ! i\<bar> \<le> 600" "x ! Suc i = x0 ! Suc i" using I i s by auto
    have q: "\<bar>x ! i div 256\<bar> \<le> 3" using xi(2) by (intro div_bounds) simp_all
    have "\<bar>x0 ! Suc i\<bar> \<le> 510" using x i by (cases "i = 31") auto
    then have v: "\<bar>v\<bar> \<le> 600" using q xi(3) by (simp add: v_def)
    have tail: "pval 256 (33 - i) (drop i x) = x ! i + 256 * pval 256 (32 - i) (drop (Suc i) x)"
    proof -
      have "drop i x = x ! i # drop (Suc i) x" "33 - i = Suc (32 - i)" using xi(1) i by (simp_all add: Cons_nth_drop_Suc)
      then show ?thesis by (simp add: pval_Cons)
    qed
    have byte: "(word_of_int (x ! i AND 255) :: u8) = word_of_int (?E div 256 ^ i)"
    proof -
      have "(word_of_int (?E div 256 ^ i) :: u8) = word_of_int (x ! i + 256 * pval 256 (32 - i) (drop (Suc i) x))"
        using I s tail by simp
      then show ?thesis by (simp add: mask8 byte_of_mod byte_256)
    qed
    have "pval 256 (32 - i) (drop (Suc i) (x[Suc i := v])) = ?E div 256 ^ Suc i"
    proof -
      have "?E div 256 ^ Suc i = (?E div 256 ^ i) div 256" by (simp add: zdiv_zmult2_eq mult.commute [of 256])
      also have "\<dots> = (x ! i + 256 * pval 256 (32 - i) (drop (Suc i) x)) div 256" using I s tail by simp
      also have "\<dots> = pval 256 (32 - i) (drop (Suc i) x) + x ! i div 256" by simp
      also have "\<dots> = pval 256 (32 - i) (drop (Suc i) (x[Suc i := v]))"
        using i xi(1) by (simp add: drop_update_swap pval_update v_def)
      finally show ?thesis by simp
    qed
    moreover have "modL_out i s = chk [v] (x[Suc i := v], r @ [word_of_int (x ! i AND 255)])"
      by (simp add: modL_out_def s Let_def v_def drop_bit_eq_div)
    ultimately show "returns (modL_out i s) (?I (Suc i))"
      using I s i v xi byte by (auto simp: in_i64_abs le_bytes_snoc nth_list_update simp del: le_bytes.simps intro!: returns_chk)
  qed simp
  then show ?thesis by (rule returns_mono) auto
qed

lemma quotient_bounds:
  assumes x: "\<forall>k<32. \<bar>x ! k\<bar> \<le> 130"
  shows "- ell < pval 256 32 x - x ! 31 div 16 * ell \<and> pval 256 32 x - x ! 31 div 16 * ell < ell"
proof -
  define rest q s where "rest = pval 256 31 x" and "q = x ! 31 div 16" and "s = x ! 31 mod 16"
  have r: "255 * rest \<le> 130 * (256 ^ 31 - 1)" "- 130 * (256 ^ 31 - 1) \<le> 255 * rest"
  proof -
    have "x ! k \<le> 130" "- 130 \<le> x ! k" if "k < 31" for k using x that by (auto simp: abs_le_iff dest!: spec [of _ k])
    then show "255 * rest \<le> 130 * (256 ^ 31 - 1)" "- 130 * (256 ^ 31 - 1) \<le> 255 * rest"
      using pval_le [of 256 31 x 130] pval_ge [of 256 31 "- 130" x] by (simp_all add: rest_def)
  qed
  have "\<bar>x ! 31\<bar> \<le> 130" using x by simp
  then have q: "\<bar>q\<bar> \<le> 9" unfolding q_def by (intro div_bounds) simp_all
  have s: "0 \<le> s" "s \<le> 15" "x ! 31 = 16 * q + s" using pos_mod_bound [of 16 "x ! 31"] by (simp_all add: s_def q_def)
  have "pval 256 32 x = rest + x ! 31 * 256 ^ 31" using pval_Suc [of 256 31 x] by (simp add: rest_def)
  then have "pval 256 32 x - q * ell = rest + s * 2 ^ 248 - q * 27742317777372353535851937790883648493"
    unfolding s(3) ell_def by (simp add: algebra_simps)
  moreover have "- 9 \<le> q" "q \<le> 9" using q by auto
  ultimately show ?thesis using r s(1,2) unfolding q_def [symmetric] ell_def by (intro conjI) simp_all
qed

lemma last_stages:
  assumes x: "length x = 64" "\<forall>k<32. \<bar>x ! k\<bar> \<le> 130" "\<forall>k. 32 \<le> k \<and> k < 64 \<longrightarrow> x ! k = 0"
  shows "returns (do { (x, carry) \<leftarrow> foldM modL_quot [0..<32] (x, 0); x \<leftarrow> foldM (modL_fix carry) [0..<32] x;
      (x, r) \<leftarrow> foldM modL_out [0..<32] (x, []); Some r }) (\<lambda>r. r = le_bytes 32 (pval 256 32 x mod ell))"
proof (rule returns_bind [OF quots [OF x(1,2)]], clarify)
  fix y c assume "quot_ok x 32 (y, c)"
  moreover define W where "W = pval 256 32 x - x ! 31 div 16 * ell"
  ultimately have y: "length y = 64" "\<forall>k<32. 0 \<le> y ! k \<and> y ! k < 256" "pval 256 32 y + c * 256 ^ 32 = W" "y ! 32 = 0"
    using x by (auto simp: quot_ok_def L_order_value)
  have D: "0 \<le> pval 256 32 y" "pval 256 32 y < 256 ^ 32" using pval_range [of 256 32 y] y(2) by simp_all
  have W: "- ell < W" "W < ell" using quotient_bounds [OF x(2)] by (simp_all add: W_def)
  have c: "c = (if W < 0 then - 1 else 0)"
  proof -
    have "c = W div 256 ^ 32" using D y(3) by (simp add: algebra_simps flip: y(3))
    moreover have "- (256 ^ 32) \<le> W" "W < 256 ^ 32" using W by (simp_all add: ell_def)
    ultimately show ?thesis by (simp add: neg_div_pos zdiv_eq_0_iff)
  qed
  have m: "pval 256 32 x mod ell = W - c * ell"
  proof -
    have "pval 256 32 x mod ell = (W - c * ell + ell * (x ! 31 div 16 + c)) mod ell" by (simp add: W_def algebra_simps)
    also have "\<dots> = (W - c * ell) mod ell" by (simp only: mod_mult_self2)
    also have "\<dots> = W - c * ell" using W c by (intro mod_pos_pos_trivial) auto
    finally show ?thesis .
  qed
  show "returns (foldM (modL_fix c) [0..<32] y \<bind> (\<lambda>x. foldM modL_out [0..<32] (x, []) \<bind> (\<lambda>(x, r). Some r)))
      (\<lambda>r. r = le_bytes 32 (pval 256 32 x mod ell))"
  proof (rule returns_bind [OF fixes_ok [OF y(1,2)]], simp add: c, elim conjE)
    fix z assume z: "length z = 64" "\<forall>k<64. 32 \<le> k \<longrightarrow> z ! k = y ! k" "\<forall>k<32. \<bar>z ! k\<bar> \<le> 510" "pval 256 32 z = pval 256 32 y - c * ell"
    then have "z ! 32 = 0" using y(4) by simp
    moreover have "le_bytes 32 (pval 256 32 z) = le_bytes 32 (pval 256 32 x mod ell)"
    proof -
      have "pval 256 32 x mod ell = pval 256 32 z + 256 ^ 32 * c" using m z(4) y(3) by (simp add: algebra_simps)
      then have "(pval 256 32 x mod ell) mod 256 ^ 32 = pval 256 32 z mod 256 ^ 32" by (simp only: mod_mult_self2)
      then show ?thesis using le_bytes_mod [of 32] by metis
    qed
    ultimately show "returns (foldM modL_out [0..<32] (z, []) \<bind> (\<lambda>(x, r). Some r)) (\<lambda>r. r = le_bytes 32 (pval 256 32 x mod ell))"
      by (intro returns_bind [OF outs [OF z(1,3)]]) (auto simp: returns_Some)
  qed
qed

lemma modL_value:
  assumes x: "length x = 64" "\<forall>k<64. \<bar>x ! k\<bar> \<le> 2 ^ 21"
  shows "modL x = Some (le_bytes 32 (xval x mod ell))"
proof -
  have "returns (modL x) (\<lambda>r. r = le_bytes 32 (xval x mod ell))" unfolding modL_def
  proof (rule returns_bind [OF folds [OF x]])
    fix y assume f: "fold_ok x 32 y"
    then have y: "length y = 64" "\<forall>k. 32 \<le> k \<and> k < 64 \<longrightarrow> y ! k = 0" "xval y mod ell = xval x mod ell" by (simp_all add: fold_ok_def)
    have "\<bar>y ! k\<bar> \<le> 130" if "k < 32" for k
    proof (cases "k < 20")
      case True
      then have "\<bar>y ! k\<bar> \<le> 128" using f by (simp add: fold_ok_def)
      then show ?thesis by simp
    next
      case False
      then show ?thesis using f that by (simp add: fold_ok_def)
    qed
    moreover have "xval y = pval 256 32 y"
    proof -
      have "pval 256 32 (drop 32 y) = 0" unfolding pval_def by (rule sum.neutral) (use y in auto)
      then show ?thesis using pval_split [of 32 y 256 32] y(1) by simp
    qed
    ultimately show "returns (do { (x, carry) \<leftarrow> foldM modL_quot [0..<32] (y, 0); x \<leftarrow> foldM (modL_fix carry) [0..<32] x;
      (x, r) \<leftarrow> foldM modL_out [0..<32] (x, []); Some r }) (\<lambda>r. r = le_bytes 32 (xval x mod ell))"
      using last_stages [OF y(1) _ y(2)] y(3) by simp
  qed
  then show ?thesis by (simp add: returns_def)
qed

lemma reduce_value: "length h = 64 \<Longrightarrow> reduce h = Some (le_bytes 32 (le_value h mod ell) @ replicate 32 0)"
proof -
  assume h: "length h = 64"
  have "\<bar>map uint h ! k\<bar> \<le> 2 ^ 21" if "k < 64" for k
    using uint_lt2p [of "h ! k"] that h by simp
  then show ?thesis using modL_value [of "map uint h"] h by (simp add: reduce_def le_value_pval)
qed

end
