(* ===== verification/Ed25519.thy ===== *)
theory Ed25519
  imports Ed25519_Scalar
begin

text \<open>
  Points, key generation, signing and verification of \<^verbatim>\<open>kernel/crypto/ed25519.c\<close>.  The specification is
  RFC 8032 over the integers: extended coordinates modulo \<open>2 ^ 255 - 19\<close>, scalars modulo the group
  order, SHA-512 as FIPS 180-4 defines it.  The lemmas show that the limb code never leaves the range
  of \<^verbatim>\<open>int64_t\<close> and computes what the specification says.
\<close>

section \<open>Definitions\<close>

type_synonym ge_p3 = "gf \<times> gf \<times> gf \<times> gf"

datatype ed25519_result_t = ED25519_OK | ED25519_ERR_INVALID_KEY | ED25519_ERR_INVALID_SIGNATURE | ED25519_ERR_VERIFY_FAILED

definition add_points :: "ge_p3 \<Rightarrow> ge_p3 \<Rightarrow> ge_p3 option" where
  "add_points = (\<lambda>(p0, p1, p2, p3) (q0, q1, q2, q3). do {
     a \<leftarrow> Z25519 p1 p0;
     h \<leftarrow> Z25519 q1 q0;
     a \<leftarrow> M25519 a h;
     b \<leftarrow> A25519 p0 p1;
     h \<leftarrow> A25519 q0 q1;
     b \<leftarrow> M25519 b h;
     c \<leftarrow> M25519 p3 q3;
     c \<leftarrow> M25519 c gf_D2;
     d \<leftarrow> M25519 p2 q2;
     d \<leftarrow> A25519 d d;
     e \<leftarrow> Z25519 b a;
     f \<leftarrow> Z25519 d c;
     g \<leftarrow> A25519 d c;
     h \<leftarrow> A25519 b a;
     x \<leftarrow> M25519 e f;
     y \<leftarrow> M25519 h g;
     z \<leftarrow> M25519 g f;
     t \<leftarrow> M25519 e h;
     Some (x, y, z, t)
   })"

definition pack_point :: "ge_p3 \<Rightarrow> u8 list option" where
  "pack_point = (\<lambda>(p0, p1, p2, p3). do {
     zi \<leftarrow> inv25519 p2;
     tx \<leftarrow> M25519 p0 zi;
     ty \<leftarrow> M25519 p1 zi;
     r \<leftarrow> pack25519 ty;
     par \<leftarrow> par25519 tx;
     Some (r[31 := r ! 31 XOR push_bit 7 par])
   })"

definition unpackneg :: "u8 list \<Rightarrow> ge_p3 option option" where
  \<comment> \<open>\<open>Some None\<close> for the return value \<open>-1\<close>\<close>
  "unpackneg p = do {
     let r2 = gf1;
     let r1 = unpack25519 p;
     num \<leftarrow> S25519 r1;
     den \<leftarrow> M25519 num gf_D;
     num \<leftarrow> Z25519 num r2;
     den \<leftarrow> A25519 r2 den;
     den2 \<leftarrow> S25519 den;
     den4 \<leftarrow> S25519 den2;
     den6 \<leftarrow> M25519 den4 den2;
     t \<leftarrow> M25519 den6 num;
     t \<leftarrow> M25519 t den;
     t \<leftarrow> pow2523 t;
     t \<leftarrow> M25519 t num;
     t \<leftarrow> M25519 t den;
     t \<leftarrow> M25519 t den;
     r0 \<leftarrow> M25519 t den;
     chk \<leftarrow> S25519 r0;
     chk \<leftarrow> M25519 chk den;
     ne \<leftarrow> neq25519 chk num;
     r0 \<leftarrow> (if ne then M25519 r0 I_elem else Some r0);
     chk \<leftarrow> S25519 r0;
     chk \<leftarrow> M25519 chk den;
     ne \<leftarrow> neq25519 chk num;
     if ne then Some None
     else do {
       par \<leftarrow> par25519 r0;
       r0 \<leftarrow> (if par = drop_bit 7 (p ! 31) then Z25519 gf0 r0 else Some r0);
       r3 \<leftarrow> M25519 r0 r1;
       Some (Some (r0, r1, r2, r3))
     }
   }"

definition sel_point :: "ge_p3 \<Rightarrow> ge_p3 \<Rightarrow> int \<Rightarrow> ge_p3" where
  \<comment> \<open>\<^verbatim>\<open>for (j = 0; j < 4; ++j) sel25519(p[j], tmp[j], b)\<close>; \<open>tmp\<close> is not used afterwards\<close>
  "sel_point p tmp b =
    (case p of (p0, p1, p2, p3) \<Rightarrow> case tmp of (t0, t1, t2, t3) \<Rightarrow>
       (fst (sel25519 p0 t0 b), fst (sel25519 p1 t1 b), fst (sel25519 p2 t2 b), fst (sel25519 p3 t3 b)))"

definition ladder :: "u8 list \<Rightarrow> ge_p3 \<Rightarrow> nat \<Rightarrow> ge_p3 \<Rightarrow> ge_p3 option" where
  "ladder s q i p = do {
     let b = drop_bit (i mod 8) (s ! (i div 8)) AND 1;
     p \<leftarrow> add_points p p;
     tmp \<leftarrow> add_points p q;
     Some (sel_point p tmp (uint b))
   }"

definition scalarmult :: "u8 list \<Rightarrow> ge_p3 \<Rightarrow> ge_p3 option" where
  "scalarmult s q = foldM (ladder s q) (rev [0..<256]) (gf0, gf1, gf1, gf0)"

definition scalarmult_base :: "u8 list \<Rightarrow> ge_p3 option" where
  "scalarmult_base s = do {
     t \<leftarrow> M25519 gf_X gf_Y;
     foldM (ladder s (gf_X, gf_Y, gf1, t)) (rev [0..<256]) (gf0, gf1, gf1, gf0)
   }"

definition ed25519_public_key_hash :: "sha512_ctx_t \<Rightarrow> u8 list \<Rightarrow> u8 list" where
  "ed25519_public_key_hash ctx public_key = take 32 (sha512_hash ctx (Some public_key))"

definition clamp :: "u8 list \<Rightarrow> u8 list" where
  "clamp h = h[0 := h ! 0 AND 248, 31 := (h ! 31 AND 127) OR 64]"

definition ed25519_create_keypair :: "sha512_ctx_t \<Rightarrow> u8 list \<Rightarrow> (u8 list \<times> u8 list) option" where
  "ed25519_create_keypair ctx seed = do {
     let h = clamp (sha512_hash ctx (Some seed));
     A \<leftarrow> scalarmult_base h;
     public_key \<leftarrow> pack_point A;
     Some (public_key, seed @ public_key)
   }"

definition mul_add_row :: "u8 list \<Rightarrow> u8 list \<Rightarrow> nat \<Rightarrow> int list \<Rightarrow> int list option" where
  "mul_add_row hram az i =
     foldM (\<lambda>j x. let d = uint (hram ! i) * uint (az ! j) in chk [d, x ! (i + j) + d] (x[i + j := x ! (i + j) + d])) [0..<32]"

definition ed25519_sign :: "sha512_ctx_t \<Rightarrow> u8 list option \<Rightarrow> u8 list \<Rightarrow> u8 list \<Rightarrow> u8 list option" where
  "ed25519_sign ctx message public_key private_key = do {
     let az = clamp (sha512_hash ctx (Some (take 32 private_key)));
     let c = sha512_update (sha512_init ctx) (Some (take 32 (drop 32 az)));
     let (c, nonce_hash) = sha512_final (sha512_update c message);
     nonce_hash \<leftarrow> reduce nonce_hash;
     let nonce = take 32 nonce_hash;
     R \<leftarrow> scalarmult_base nonce;
     r \<leftarrow> pack_point R;
     let c = sha512_update (sha512_update (sha512_init c) (Some r)) (Some (take 32 public_key));
     let (c, hram) = sha512_final (sha512_update c message);
     hram \<leftarrow> reduce hram;
     x \<leftarrow> foldM (mul_add_row hram az) [0..<32] (map uint nonce @ replicate 32 0);
     s \<leftarrow> modL x;
     Some (r @ s)
   }"

definition ed25519_verify :: "sha512_ctx_t \<Rightarrow> u8 list option \<Rightarrow> u8 list option \<Rightarrow> u8 list option \<Rightarrow> ed25519_result_t option" where
  "ed25519_verify ctx signature message public_key =
    (case (signature, public_key) of
       (Some sg, Some pk) \<Rightarrow>
         if sg ! 63 AND 0xE0 \<noteq> 0 then Some ED25519_ERR_INVALID_SIGNATURE
         else do {
           A \<leftarrow> unpackneg pk;
           case A of
             None \<Rightarrow> Some ED25519_ERR_INVALID_KEY
           | Some A_neg \<Rightarrow> do {
               let c = sha512_update (sha512_update (sha512_init ctx) (Some (take 32 sg))) (Some (take 32 pk));
               let (c, h) = sha512_final (sha512_update c message);
               h \<leftarrow> reduce h;
               R_check \<leftarrow> scalarmult_base (drop 32 sg);
               hA \<leftarrow> scalarmult h A_neg;
               R_check \<leftarrow> add_points R_check hA;
               check \<leftarrow> pack_point R_check;
               if mem_diff check (take 32 sg) \<noteq> 0 then Some ED25519_ERR_VERIFY_FAILED else Some ED25519_OK
             }
         }
     | _ \<Rightarrow> Some ED25519_ERR_INVALID_SIGNATURE)"

section \<open>Specification (RFC 8032)\<close>

definition ed_d :: int where
  "ed_d = 37095705934669439343138083508754565189542113879843219016388785533085940283555"

definition ed_B :: "int \<times> int" where
  "ed_B = (15112221349535400772501151409588531511454012693041857206046113283949847762202,
           46316835694926478169428394003475163141307993866256225615783033603165251855960)"

definition sqrt_m1 :: int where
  "sqrt_m1 = 19681161376707505956807079304988542015446066515923890162744021073123829784752"

type_synonym ed_point = "int \<times> int \<times> int \<times> int"

definition ed_add :: "ed_point \<Rightarrow> ed_point \<Rightarrow> ed_point" where
  "ed_add = (\<lambda>(x1, y1, z1, t1) (x2, y2, z2, t2).
    (let A = (y1 - x1) * (y2 - x2);
         B = (y1 + x1) * (y2 + x2);
         C = t1 * 2 * ed_d * t2;
         D = z1 * 2 * z2;
         E = B - A; F = D - C; G = D + C; H = B + A
     in (E * F mod p25519, G * H mod p25519, F * G mod p25519, E * H mod p25519)))"

primrec ed_mul :: "nat \<Rightarrow> int \<Rightarrow> ed_point \<Rightarrow> ed_point" where
  \<comment> \<open>double-and-add over the low \<open>k\<close> bits of the scalar\<close>
  "ed_mul 0 n Q = (0, 1, 1, 0)"
| "ed_mul (Suc k) n Q =
    (let P = ed_mul k (n div 2) Q; D = ed_add P P in if odd n then ed_add D Q else D)"

definition ed_encode :: "ed_point \<Rightarrow> u8 list" where
  "ed_encode = (\<lambda>(x, y, z, t).
     (let zi = z ^ (2 ^ 255 - 21)
      in le_bytes 32 (y * zi mod p25519 + 2 ^ 255 * of_bool (odd (x * zi mod p25519)))))"

definition ed_root :: "int \<Rightarrow> int \<Rightarrow> int" where
  "ed_root u v = u * v ^ 3 * (u * v ^ 7) ^ (2 ^ 252 - 3)"

definition ed_decode_neg :: "u8 list \<Rightarrow> ed_point option" where
  \<comment> \<open>the negative of the point an encoding stands for\<close>
  "ed_decode_neg pk =
    (let y = le_value pk mod 2 ^ 255;
         u = y * y - 1; v = 1 + ed_d * y * y;
         x = ed_root u v;
         x = (if v * x * x mod p25519 = u mod p25519 then x else x * sqrt_m1)
     in if v * x * x mod p25519 \<noteq> u mod p25519 then None
        else let x = (if odd (x mod p25519) = (2 ^ 255 \<le> le_value pk) then - x else x)
             in Some (x, y, 1, x * y))"

definition base_point :: ed_point where
  "base_point = (fst ed_B, snd ed_B, 1, fst ed_B * snd ed_B)"

definition hash_scalar :: "u8 list \<Rightarrow> int" where
  "hash_scalar m = le_value (fips_sha512 m) mod ell"

definition rfc_secret :: "u8 list \<Rightarrow> int" where
  "rfc_secret seed = le_value (take 32 (clamp (fips_sha512 seed)))"

definition rfc_public :: "u8 list \<Rightarrow> u8 list" where
  "rfc_public seed = ed_encode (ed_mul 256 (rfc_secret seed) base_point)"

definition rfc_sign :: "u8 list \<Rightarrow> u8 list \<Rightarrow> u8 list \<Rightarrow> u8 list" where
  "rfc_sign m pk seed =
    (let r = hash_scalar (drop 32 (fips_sha512 seed) @ m);
         R = ed_encode (ed_mul 256 r base_point)
     in R @ le_bytes 32 ((r + hash_scalar (R @ pk @ m) * rfc_secret seed) mod ell))"

definition rfc_verify :: "u8 list \<Rightarrow> u8 list \<Rightarrow> u8 list \<Rightarrow> ed25519_result_t" where
  "rfc_verify sg m pk =
    (if le_value (drop 32 sg) \<ge> 2 ^ 253 then ED25519_ERR_INVALID_SIGNATURE
     else case ed_decode_neg pk of
       None \<Rightarrow> ED25519_ERR_INVALID_KEY
     | Some A \<Rightarrow>
        if ed_encode (ed_add (ed_mul 256 (le_value (drop 32 sg)) base_point)
             (ed_mul 256 (hash_scalar (take 32 sg @ pk @ m)) A)) = take 32 sg
        then ED25519_OK else ED25519_ERR_VERIFY_FAILED)"

section \<open>Lemmas\<close>

subsection \<open>Straight-line code\<close>

lemma A_ok: "fe n a u \<Longrightarrow> fe n b v \<Longrightarrow> n \<le> 60 \<Longrightarrow> \<exists>c. A25519 a b = Some c \<and> fe (Suc n) c (u + v)"
  using A_fe [of n a u b v] by (simp add: returns_def)

lemma Z_ok: "fe n a u \<Longrightarrow> fe n b v \<Longrightarrow> n \<le> 60 \<Longrightarrow> \<exists>c. Z25519 a b = Some c \<and> fe (Suc n) c (u - v)"
  using Z_fe [of n a u b v] by (simp add: returns_def)

lemma M_ok: "fe 20 a u \<Longrightarrow> fe 20 b v \<Longrightarrow> \<exists>c. M25519 a b = Some c \<and> felt c (u * v)"
  using M_fe by (simp add: returns_def)

lemma S_ok: "fe 20 a u \<Longrightarrow> \<exists>c. S25519 a = Some c \<and> felt c (u * u)"
  using S_fe by (simp add: returns_def)

definition ge :: "ge_p3 \<Rightarrow> ed_point \<Rightarrow> bool" where
  \<comment> \<open>the limbs stand for the coordinates\<close>
  "ge = (\<lambda>(p0, p1, p2, p3) (x, y, z, t). fe 18 p0 x \<and> fe 18 p1 y \<and> fe 18 p2 z \<and> fe 18 p3 t)"

lemma digits16_const: "list_all (\<lambda>x. 0 \<le> x \<and> x < 65536) t \<Longrightarrow> length t = 16 \<Longrightarrow> felt t (gval t)"
  by (rule digits16_felt) (auto simp: digits16_def list_all_length)

lemma pval_foldr: "length t = n \<Longrightarrow> pval b n t = foldr (\<lambda>x a. x + b * a) t 0"
  by (induction t arbitrary: n) (auto simp: pval_Cons)

lemma constants_felt: "felt gf0 0" "felt gf1 1" "felt gf_D ed_d" "felt gf_D2 (2 * ed_d)" "felt gf_X (fst ed_B)" "felt gf_Y (snd ed_B)"
  "felt I_elem sqrt_m1"
proof -
  note d = gf0_def gf1_def gf_D_def gf_D2_def gf_X_def gf_Y_def I_elem_def
  have horner: "length t = 16 \<Longrightarrow> gval t = foldr (\<lambda>x a. x + 65536 * a) t 0" for t by (rule pval_foldr)
  have v: "gval gf0 = 0" "gval gf1 = 1" "gval gf_D = ed_d" "gval gf_D2 mod p25519 = 2 * ed_d mod p25519" "gval gf_X = fst ed_B" "gval gf_Y = snd ed_B"
    "gval I_elem = sqrt_m1"
    by (simp_all add: horner d ed_d_def ed_B_def sqrt_m1_def p25519_def)
  show "felt gf0 0" "felt gf1 1" "felt gf_D ed_d" "felt gf_X (fst ed_B)" "felt gf_Y (snd ed_B)" "felt I_elem sqrt_m1"
    unfolding v [symmetric] by (rule digits16_const; simp add: d)+
  have "felt gf_D2 (gval gf_D2)" by (rule digits16_const; simp add: d)
  then show "felt gf_D2 (2 * ed_d)" by (rule felt_cong) (rule v(4))
qed

text \<open>The constants are the ones RFC 8032 describes.\<close>

lemma constants_defined:
  "121666 * ed_d mod p25519 = (- 121665) mod p25519" "5 * snd ed_B mod p25519 = 4 mod p25519" "even (fst ed_B)"
  "sqrt_m1 * sqrt_m1 mod p25519 = (- 1) mod p25519"
proof -
  have m: "a = b + p25519 * k \<Longrightarrow> a mod p25519 = b mod p25519" for a b k by simp
  note d = ed_d_def ed_B_def sqrt_m1_def p25519_def
  show "121666 * ed_d mod p25519 = (- 121665) mod p25519"
    by (rule m [of _ _ "77955"]) (simp add: d)
  show "5 * snd ed_B mod p25519 = 4 mod p25519" by (rule m [of _ _ 4]) (simp add: d)
  show "sqrt_m1 * sqrt_m1 mod p25519 = (- 1) mod p25519"
    by (rule m [of _ _ "6690407189080634018507799843845558368979872843924222843531373839242004886245"]) (simp add: d)
  show "even (fst ed_B)" by (simp add: d)
qed

subsection \<open>Points\<close>

lemma felt_mod: "felt a u \<Longrightarrow> felt a (u mod p25519)"
  by (simp add: felt_def)

lemma add_points_ok:
  assumes p: "ge P (x1, y1, z1, t1)" and q: "ge Q (x2, y2, z2, t2)"
  shows "\<exists>R. add_points P Q = Some R \<and> ge R (ed_add (x1, y1, z1, t1) (x2, y2, z2, t2))"
proof -
  obtain p0 p1 p2 p3 q0 q1 q2 q3 where PQ: "P = (p0, p1, p2, p3)" "Q = (q0, q1, q2, q3)" by (cases P, cases Q) auto
  have P: "fe 18 p0 x1" "fe 18 p1 y1" "fe 18 p2 z1" "fe 18 p3 t1" and Q: "fe 18 q0 x2" "fe 18 q1 y2" "fe 18 q2 z2" "fe 18 q3 t2"
    using p q PQ by (simp_all add: ge_def)
  define A B C D where "A = (y1 - x1) * (y2 - x2)" and "B = (y1 + x1) * (y2 + x2)" and "C = t1 * 2 * ed_d * t2" and "D = z1 * 2 * z2"
  obtain a0 where a0: "Z25519 p1 p0 = Some a0" "fe 19 a0 (y1 - x1)" using Z_ok [OF P(2) P(1)] by auto
  obtain h0 where h0: "Z25519 q1 q0 = Some h0" "fe 19 h0 (y2 - x2)" using Z_ok [OF Q(2) Q(1)] by auto
  obtain a where a: "M25519 a0 h0 = Some a" "felt a A" using M_ok [OF fe_20 [OF a0(2)] fe_20 [OF h0(2)]] by (auto simp: A_def)
  obtain b0 where b0: "A25519 p0 p1 = Some b0" "fe 19 b0 (x1 + y1)" using A_ok [OF P(1) P(2)] by auto
  obtain h1 where h1: "A25519 q0 q1 = Some h1" "fe 19 h1 (x2 + y2)" using A_ok [OF Q(1) Q(2)] by auto
  obtain b where b: "M25519 b0 h1 = Some b" "felt b B" using M_ok [OF fe_20 [OF b0(2)] fe_20 [OF h1(2)]] by (auto simp: B_def add.commute)
  obtain c0 where c0: "M25519 p3 q3 = Some c0" "felt c0 (t1 * t2)" using M_ok [OF fe_20 [OF P(4)] fe_20 [OF Q(4)]] by auto
  have cc: "t1 * t2 * (2 * ed_d) = C" by (simp add: C_def)
  obtain c where c: "M25519 c0 gf_D2 = Some c" "felt c C"
    using M_ok [OF felt_20 [OF c0(2)] felt_20 [OF constants_felt(4)]] unfolding cc by auto
  obtain d0 where d0: "M25519 p2 q2 = Some d0" "felt d0 (z1 * z2)" using M_ok [OF fe_20 [OF P(3)] fe_20 [OF Q(3)]] by auto
  have dd: "z1 * z2 + z1 * z2 = D" by (simp add: D_def)
  obtain d where d: "A25519 d0 d0 = Some d" "fe 18 d D"
    using A_ok [OF felt_17 [OF d0(2)] felt_17 [OF d0(2)]] unfolding dd by auto
  obtain e where e: "Z25519 b a = Some e" "fe 18 e (B - A)" using Z_ok [OF felt_17 [OF b(2)] felt_17 [OF a(2)]] by auto
  obtain f where f: "Z25519 d c = Some f" "fe 19 f (D - C)" using Z_ok [OF d(2) felt_18 [OF c(2)]] by auto
  obtain g where g: "A25519 d c = Some g" "fe 19 g (D + C)" using A_ok [OF d(2) felt_18 [OF c(2)]] by auto
  obtain h where h: "A25519 b a = Some h" "fe 18 h (B + A)" using A_ok [OF felt_17 [OF b(2)] felt_17 [OF a(2)]] by auto
  obtain x where x: "M25519 e f = Some x" "felt x ((B - A) * (D - C))" using M_ok [OF fe_20 [OF e(2)] fe_20 [OF f(2)]] by auto
  obtain y where y: "M25519 h g = Some y" "felt y ((D + C) * (B + A))" using M_ok [OF fe_20 [OF h(2)] fe_20 [OF g(2)]] by (auto simp: mult.commute)
  obtain z where z: "M25519 g f = Some z" "felt z ((D - C) * (D + C))" using M_ok [OF fe_20 [OF g(2)] fe_20 [OF f(2)]] by (auto simp: mult.commute)
  obtain t where t: "M25519 e h = Some t" "felt t ((B - A) * (B + A))" using M_ok [OF fe_20 [OF e(2)] fe_20 [OF h(2)]] by auto
  have "add_points P Q = Some (x, y, z, t)" unfolding PQ add_points_def prod.case
    by (simp only: a0(1) h0(1) a(1) b0(1) h1(1) b(1) c0(1) c(1) d0(1) d(1) e(1) f(1) g(1) h(1) x(1) y(1) z(1) t(1) Option.bind.bind_lunit)
  moreover have "ge (x, y, z, t) (ed_add (x1, y1, z1, t1) (x2, y2, z2, t2))"
    using felt_18 [OF felt_mod [OF x(2)]] felt_18 [OF felt_mod [OF y(2)]] felt_18 [OF felt_mod [OF z(2)]] felt_18 [OF felt_mod [OF t(2)]]
    by (simp add: ge_def ed_add_def Let_def A_def B_def C_def D_def)
  ultimately show ?thesis by blast
qed

lemma add_ok: "ge P p \<Longrightarrow> ge Q q \<Longrightarrow> \<exists>R. add_points P Q = Some R \<and> ge R (ed_add p q)"
  by (cases p, cases q) (simp only: add_points_ok)

lemma fe_length: "fe n a u \<Longrightarrow> length a = 16"
  by (simp add: fe_def limbs_within_def)

lemma sel_point_eq:
  assumes "ge P p" "ge T t" "b = 0 \<or> b = 1"
  shows "sel_point P T b = (if b = 1 then T else P)"
proof -
  obtain p0 p1 p2 p3 t0 t1 t2 t3 where "P = (p0, p1, p2, p3)" "T = (t0, t1, t2, t3)" by (cases P, cases T) auto
  moreover from this have "length p0 = 16" "length p1 = 16" "length p2 = 16" "length p3 = 16"
    "length t0 = 16" "length t1 = 16" "length t2 = 16" "length t3 = 16"
    using assms by (auto simp: ge_def dest: fe_length split: prod.splits)
  ultimately show ?thesis using assms(3) by (simp add: sel_point_def sel_swap)
qed

lemma odd_uint_div: "odd (uint b div 2 ^ i) \<longleftrightarrow> bit b i" for b :: u8
  using bit_uint_iff [of b i] bit_imp_le_length [of b i] by (auto simp: bit_iff_odd [of "uint b"])

lemma le_value_bit:
  "i < 8 * length bs \<Longrightarrow> odd (le_value bs div 2 ^ i) \<longleftrightarrow> bit (bs ! (i div 8)) (i mod 8)"
proof (induction bs arbitrary: i)
  case (Cons b bs)
  show ?case
  proof (cases "i < 8")
    case True
    have e: "256 * le_value bs = 2 ^ i * (2 ^ (8 - i) * le_value bs)"
      using True power_add [of "2 :: int" i "8 - i"] by (simp add: mult.assoc [symmetric])
    have "(uint b + 256 * le_value bs) div 2 ^ i = uint b div 2 ^ i + 2 ^ (8 - i) * le_value bs" unfolding e by simp
    moreover have "even ((2 :: int) ^ (8 - i) * le_value bs)" using True by simp
    ultimately show ?thesis using True odd_uint_div [of b i] by simp
  next
    case False
    then obtain k where k: "i = k + 8" by (metis add.commute le_Suc_ex not_less)
    have "(uint b + 256 * le_value bs) div 2 ^ 8 = le_value bs" using uint_lt2p [of b] by simp
    then have "(uint b + 256 * le_value bs) div 2 ^ i = le_value bs div 2 ^ k"
      by (simp add: k power_add zdiv_zmult2_eq mult.commute [of "2 ^ k"])
    moreover have "(b # bs) ! (i div 8) = bs ! (k div 8)" "i mod 8 = k mod 8" using div_add_self2 [of 8 k] by (simp_all add: k)
    ultimately show ?thesis using Cons k by simp
  qed
qed simp

lemma ladder_ok:
  assumes P: "ge P p" and Q: "ge Q q" and i: "i < 256" "32 \<le> length s"
  shows "\<exists>R. ladder s Q i P = Some R \<and>
    ge R (let D = ed_add p p in if odd (le_value (take 32 s) div 2 ^ i) then ed_add D q else D)"
proof -
  obtain D where D: "add_points P P = Some D" "ge D (ed_add p p)" using add_ok [OF P P] by blast
  obtain T where T: "add_points D Q = Some T" "ge T (ed_add (ed_add p p) q)" using add_ok [OF D(2) Q] by blast
  let ?b = "drop_bit (i mod 8) (s ! (i div 8)) AND 1"
  have "?b = of_bool (odd (le_value (take 32 s) div 2 ^ i))"
    using le_value_bit [of i "take 32 s"] i by (simp add: and_one_eq bit_iff_odd_drop_bit mod_2_eq_odd)
  then have b: "uint ?b = of_bool (odd (le_value (take 32 s) div 2 ^ i))" by simp
  then have "sel_point D T (uint ?b) = (if odd (le_value (take 32 s) div 2 ^ i) then T else D)"
    unfolding b by (subst sel_point_eq [OF D(2) T(2)]) auto
  then show ?thesis using D T by (simp add: ladder_def Let_def)
qed

lemma ge_neutral: "ge (gf0, gf1, gf1, gf0) (0, 1, 1, 0)"
  using constants_felt(1,2) by (simp add: ge_def felt_18)

lemma ladders:
  assumes Q: "ge Q q" and s: "32 \<le> length s"
  shows "returns (foldM (ladder s Q) (rev [0..<256]) (gf0, gf1, gf1, gf0)) (\<lambda>R. ge R (ed_mul 256 (le_value (take 32 s)) q))"
proof -
  let ?n = "le_value (take 32 s)"
  let ?I = "\<lambda>i P. ge P (ed_mul (256 - i) (?n div 2 ^ i) q)"
  have "returns (foldM (ladder s Q) (rev [0..<256]) (gf0, gf1, gf1, gf0)) (?I 0)"
  proof (rule returns_foldM_rev [where I = ?I])
    show "?I 256 (gf0, gf1, gf1, gf0)" using ge_neutral by simp
    fix i P assume i: "i < 256" "ge P (ed_mul (256 - Suc i) (?n div 2 ^ Suc i) q)"
    have "256 - i = Suc (256 - Suc i)" "?n div 2 ^ i div 2 = ?n div 2 ^ Suc i" using i
      by (simp_all add: zdiv_zmult2_eq [symmetric] mult.commute)
    then show "returns (ladder s Q i P) (?I i)" using ladder_ok [OF i(2) Q i(1) s] by (simp add: returns_def Let_def)
  qed simp
  then show ?thesis by simp
qed

lemma scalarmult_ok: "ge Q q \<Longrightarrow> 32 \<le> length s \<Longrightarrow> \<exists>R. scalarmult s Q = Some R \<and> ge R (ed_mul 256 (le_value (take 32 s)) q)"
  using ladders [of Q q s] by (simp add: returns_def scalarmult_def)

lemma scalarmult_base_ok: "32 \<le> length s \<Longrightarrow> \<exists>R. scalarmult_base s = Some R \<and> ge R (ed_mul 256 (le_value (take 32 s)) base_point)"
proof -
  assume s: "32 \<le> length s"
  obtain t where t: "M25519 gf_X gf_Y = Some t" "felt t (fst ed_B * snd ed_B)"
    using M_ok [OF felt_20 [OF constants_felt(5)] felt_20 [OF constants_felt(6)]] by auto
  have "ge (gf_X, gf_Y, gf1, t) base_point"
    using constants_felt(2,5,6) t(2) by (simp add: ge_def base_point_def felt_18)
  from ladders [OF this s] show ?thesis using t(1) by (simp add: scalarmult_base_def returns_def)
qed

lemma le_bytes_top_bit:
  assumes "0 \<le> y" "y < 2 ^ 255"
  shows "(le_bytes 32 y)[31 := le_bytes 32 y ! 31 XOR push_bit 7 (of_bool b)] = le_bytes 32 (y + 2 ^ 255 * of_bool b)"
proof -
  have l: "le_bytes 32 v = le_bytes 31 v @ [word_of_int (v div 256 ^ 31)]" for v using le_bytes_snoc [of 31 v] by simp
  have low: "le_bytes 31 (y + 2 ^ 255 * of_bool b) = le_bytes 31 y"
  proof -
    have "(y + 2 ^ 255 * of_bool b) mod 256 ^ 31 = y mod 256 ^ 31"
      using mod_mult_self2 [of y "256 ^ 31" "128 * of_bool b"] by simp
    then show ?thesis using le_bytes_mod [of 31 y] le_bytes_mod [of 31 "y + 2 ^ 255 * of_bool b"] by metis
  qed
  define h where "h = y div 256 ^ 31"
  have "y div 256 ^ 31 \<le> (2 ^ 255 - 1) div 256 ^ 31" using assms by (intro zdiv_mono1) auto
  then have h: "0 \<le> h" "h < 128" using assms by (simp_all add: h_def pos_imp_zdiv_nonneg_iff)
  have hi: "(y + 2 ^ 255 * of_bool b) div 256 ^ 31 = h + 128 * of_bool b"
    using div_mult_self2 [of "256 ^ 31" y "128 * of_bool b"] by (simp add: h_def)
  have "take_bit 7 h = h" using h by (simp add: take_bit_int_eq_self_iff)
  then have nb: "\<not> bit h n" if "7 \<le> n" for n using bit_take_bit_iff [of 7 h n] that by simp
  have "(word_of_int h :: u8) AND push_bit 7 (of_bool b) = 0"
    by (rule bit_word_eqI) (auto simp: bit_simps nb)
  then have "(word_of_int h :: u8) XOR push_bit 7 (of_bool b) = word_of_int h + push_bit 7 (of_bool b)"
    by (simp only: disjunctive_add_eq_xor)
  then have "(word_of_int h :: u8) XOR push_bit 7 (of_bool b) = word_of_int (h + 128 * of_bool b)"
    by (simp add: push_bit_eq_mult of_bool_def)
  then show ?thesis unfolding l low hi h_def [symmetric]
    by (cases b) (simp_all add: list_update_append nth_append)
qed

lemma pack_point_ok:
  assumes "ge P p"
  shows "pack_point P = Some (ed_encode p)"
proof -
  obtain p0 p1 p2 p3 x y z t where P: "P = (p0, p1, p2, p3)" "p = (x, y, z, t)" "fe 18 p0 x" "fe 18 p1 y" "fe 18 p2 z"
    using assms by (cases P, cases p) (auto simp: ge_def)
  define zi where "zi = z ^ (2 ^ 255 - 21)"
  obtain i where i: "inv25519 p2 = Some i" "fe 20 i zi" using inv_fe [OF fe_20 [OF P(5)]] unfolding returns_def zi_def by auto
  obtain tx where tx: "M25519 p0 i = Some tx" "felt tx (x * zi)" using M_ok [OF fe_20 [OF P(3)] i(2)] by auto
  obtain ty where ty: "M25519 p1 i = Some ty" "felt ty (y * zi)" using M_ok [OF fe_20 [OF P(4)] i(2)] by auto
  have r: "pack25519 ty = Some (le_bytes 32 (y * zi mod p25519))" by (rule pack_felt) (rule felt_60 [OF ty(2)])
  have par: "par25519 tx = Some (of_bool (odd (x * zi mod p25519)))" by (rule par_fe) (rule felt_60 [OF tx(2)])
  have "0 < p25519" "p25519 < 2 ^ 255" by (simp_all add: p25519_def)
  then have "0 \<le> y * zi mod p25519" "y * zi mod p25519 < 2 ^ 255"
    using pos_mod_sign [of p25519 "y * zi"] pos_mod_bound [of p25519 "y * zi"] by linarith+
  note top = le_bytes_top_bit [OF this]
  show ?thesis unfolding P pack_point_def ed_encode_def prod.case zi_def [symmetric]
    by (simp only: i(1) tx(1) ty(1) r par Option.bind.bind_lunit Let_def top)
qed

lemma decode_top_bit: "length pk = 32 \<Longrightarrow> drop_bit 7 (pk ! 31) = of_bool (2 ^ 255 \<le> le_value pk)"
proof -
  assume l: "length pk = 32"
  have v: "0 \<le> le_value pk" "le_value pk < 2 ^ 256" using le_value_range [of pk] l by simp_all
  have "le_value pk div 2 ^ 255 = of_bool (2 ^ 255 \<le> le_value pk)"
    using v by (cases "2 ^ 255 \<le> le_value pk") (auto simp: zdiv_eq_0_iff div_pos_geq)
  then have "bit (pk ! 31) 7 \<longleftrightarrow> 2 ^ 255 \<le> le_value pk" using le_value_bit [of 255 pk] l by simp
  moreover have "drop_bit 7 w = of_bool (bit w 7)" for w :: u8
  proof (rule bit_word_eqI)
    fix n
    have "bit w (7 + n) \<Longrightarrow> n = 0" using bit_imp_le_length [of w "7 + n"] by simp
    then show "bit (drop_bit 7 w) n \<longleftrightarrow> bit (of_bool (bit w 7) :: u8) n" by (auto simp: bit_simps)
  qed
  ultimately show ?thesis by simp
qed

lemma root_ok:
  assumes num: "fe 20 num u" and den: "fe 20 den v"
  shows "\<exists>r0. do { den2 \<leftarrow> S25519 den; den4 \<leftarrow> S25519 den2; den6 \<leftarrow> M25519 den4 den2; t \<leftarrow> M25519 den6 num; t \<leftarrow> M25519 t den;
     t \<leftarrow> pow2523 t; t \<leftarrow> M25519 t num; t \<leftarrow> M25519 t den; t \<leftarrow> M25519 t den; r0 \<leftarrow> M25519 t den; k r0 } = k r0 \<and> felt r0 (ed_root u v)"
proof -
  define w where "w = (u * v ^ 7) ^ (2 ^ 252 - 3)"
  obtain d2 where d2: "S25519 den = Some d2" "felt d2 (v * v)" using S_ok [OF den] by auto
  obtain d4 where d4: "S25519 d2 = Some d4" "felt d4 (v * v * (v * v))" using S_ok [OF felt_20 [OF d2(2)]] by auto
  obtain d6 where d6: "M25519 d4 d2 = Some d6" "felt d6 (v * v * (v * v) * (v * v))" using M_ok [OF felt_20 [OF d4(2)] felt_20 [OF d2(2)]] by auto
  obtain t0 where t0: "M25519 d6 num = Some t0" "felt t0 (v * v * (v * v) * (v * v) * u)" using M_ok [OF felt_20 [OF d6(2)] num] by auto
  have v7: "v * v * (v * v) * (v * v) * u * v = u * v ^ 7" by (simp add: power_numeral_even power_numeral_odd Let_def)
  obtain t1 where t1: "M25519 t0 den = Some t1" "felt t1 (u * v ^ 7)" using M_ok [OF felt_20 [OF t0(2)] den] unfolding v7 by auto
  obtain t2 where t2: "pow2523 t1 = Some t2" "fe 20 t2 w" using pow_fe [OF felt_20 [OF t1(2)]] unfolding returns_def w_def by auto
  obtain t3 where t3: "M25519 t2 num = Some t3" "felt t3 (w * u)" using M_ok [OF t2(2) num] by auto
  obtain t4 where t4: "M25519 t3 den = Some t4" "felt t4 (w * u * v)" using M_ok [OF felt_20 [OF t3(2)] den] by auto
  obtain t5 where t5: "M25519 t4 den = Some t5" "felt t5 (w * u * v * v)" using M_ok [OF felt_20 [OF t4(2)] den] by auto
  obtain r where r: "M25519 t5 den = Some r" "felt r (w * u * v * v * v)" using M_ok [OF felt_20 [OF t5(2)] den] by auto
  have "w * u * v * v * v = ed_root u v" unfolding ed_root_def w_def [symmetric] by (simp add: power3_eq_cube)
  then have "felt r (ed_root u v)" using r(2) by simp
  then show ?thesis by (intro exI [of _ r]) (simp only: d2(1) d4(1) d6(1) t0(1) t1(1) t2(1) t3(1) t4(1) t5(1) r(1) Option.bind.bind_lunit)
qed

lemma root_check:
  assumes r: "felt r x" and den: "fe 20 den v" and num: "fe 20 num u"
  shows "do { c \<leftarrow> S25519 r; c \<leftarrow> M25519 c den; ne \<leftarrow> neq25519 c num; k ne } = k (v * x * x mod p25519 \<noteq> u mod p25519)"
proof -
  obtain c where c: "S25519 r = Some c" "felt c (x * x)" using S_ok [OF felt_20 [OF r]] by auto
  have e: "x * x * v = v * x * x" by simp
  obtain c' where c': "M25519 c den = Some c'" "felt c' (v * x * x)" using M_ok [OF felt_20 [OF c(2)] den] unfolding e by auto
  have "neq25519 c' num = Some (v * x * x mod p25519 \<noteq> u mod p25519)" by (rule neq_fe [OF felt_60 [OF c'(2)] fe_mono [OF num]]) simp
  then show ?thesis by (simp only: c(1) c'(1) Option.bind.bind_lunit)
qed

lemma unpackneg_ok:
  assumes pk: "length pk = 32"
  shows "\<exists>R. unpackneg pk = Some R \<and> rel_option ge R (ed_decode_neg pk)"
proof -
  define y where "y = le_value pk mod 2 ^ 255"
  define u where "u = y * y - 1"
  define v where "v = 1 + ed_d * y * y"
  have r1: "felt (unpack25519 pk) y" unfolding y_def by (rule unpack_fe [OF pk])
  obtain n0 where n0: "S25519 (unpack25519 pk) = Some n0" "felt n0 (y * y)" using S_ok [OF felt_20 [OF r1]] by auto
  obtain d0 where d0: "M25519 n0 gf_D = Some d0" "felt d0 (y * y * ed_d)" using M_ok [OF felt_20 [OF n0(2)] felt_20 [OF constants_felt(3)]] by auto
  obtain num where num: "Z25519 n0 gf1 = Some num" "fe 18 num u" using Z_ok [OF felt_17 [OF n0(2)] felt_17 [OF constants_felt(2)]] by (auto simp: u_def)
  have e: "1 + y * y * ed_d = v" by (simp add: v_def)
  obtain den where den: "A25519 gf1 d0 = Some den" "fe 18 den v" using A_ok [OF felt_17 [OF constants_felt(2)] felt_17 [OF d0(2)]] unfolding e by auto
  note nd = fe_20 [OF num(2), simplified] fe_20 [OF den(2), simplified]
  define x0 where "x0 = ed_root u v"
  define x1 where "x1 = (if v * x0 * x0 mod p25519 = u mod p25519 then x0 else x0 * sqrt_m1)"
  define x2 where "x2 = (if odd (x1 mod p25519) = (2 ^ 255 \<le> le_value pk) then - x1 else x1)"
  have spec: "ed_decode_neg pk = (if v * x1 * x1 mod p25519 \<noteq> u mod p25519 then None else Some (x2, y, 1, x2 * y))"
    unfolding ed_decode_neg_def Let_def y_def [symmetric] u_def [symmetric] v_def [symmetric] x0_def [symmetric]
    by (simp only: x1_def [symmetric] x2_def [symmetric])
  define k where "k r0 = do {
       c \<leftarrow> S25519 r0; c \<leftarrow> M25519 c den; ne \<leftarrow> neq25519 c num;
       r0 \<leftarrow> (if ne then M25519 r0 I_elem else Some r0);
       c \<leftarrow> S25519 r0; c \<leftarrow> M25519 c den; ne \<leftarrow> neq25519 c num;
       if ne then Some None
       else do { par \<leftarrow> par25519 r0; r0 \<leftarrow> (if par = drop_bit 7 (pk ! 31) then Z25519 gf0 r0 else Some r0);
         r3 \<leftarrow> M25519 r0 (unpack25519 pk); Some (Some (r0, unpack25519 pk, gf1, r3)) } }" for r0
  obtain r0 where r0: "unpackneg pk = k r0" "felt r0 x0"
    using root_ok [OF nd, of k] unfolding unpackneg_def Let_def n0(1) d0(1) num(1) den(1) Option.bind.bind_lunit k_def x0_def by blast
  have "\<exists>r1. (if v * x0 * x0 mod p25519 \<noteq> u mod p25519 then M25519 r0 I_elem else Some r0) = Some r1 \<and> felt r1 x1"
    using M_ok [OF felt_20 [OF r0(2)] felt_20 [OF constants_felt(7)]] r0(2) by (simp add: x1_def)
  then obtain r1' where r1': "(if v * x0 * x0 mod p25519 \<noteq> u mod p25519 then M25519 r0 I_elem else Some r0) = Some r1'" "felt r1' x1" by blast
  have par: "par25519 r1' = Some (of_bool (odd (x1 mod p25519)))" by (rule par_fe) (rule felt_60 [OF r1'(2)])
  have cmp: "of_bool (odd (x1 mod p25519)) = drop_bit 7 (pk ! 31) \<longleftrightarrow> odd (x1 mod p25519) = (2 ^ 255 \<le> le_value pk)"
    unfolding decode_top_bit [OF pk] by (simp add: of_bool_eq_iff)
  have "\<exists>r2. (if odd (x1 mod p25519) = (2 ^ 255 \<le> le_value pk) then Z25519 gf0 r1' else Some r1') = Some r2 \<and> fe 18 r2 x2"
    using Z_ok [OF felt_17 [OF constants_felt(1)] felt_17 [OF r1'(2)]] felt_18 [OF r1'(2)] by (simp add: x2_def)
  then obtain r2 where r2: "(if odd (x1 mod p25519) = (2 ^ 255 \<le> le_value pk) then Z25519 gf0 r1' else Some r1') = Some r2" "fe 18 r2 x2" by blast
  obtain r3 where r3: "M25519 r2 (unpack25519 pk) = Some r3" "felt r3 (x2 * y)" using M_ok [OF fe_20 [OF r2(2)] felt_20 [OF r1]] by auto
  have "k r0 = Some (if v * x1 * x1 mod p25519 \<noteq> u mod p25519 then None else Some (r2, unpack25519 pk, gf1, r3))"
    unfolding k_def root_check [OF r0(2) nd(2,1)] r1'(1) Option.bind.bind_lunit root_check [OF r1'(2) nd(2,1)] par cmp r2(1) r3(1) by simp
  moreover have "ge (r2, unpack25519 pk, gf1, r3) (x2, y, 1, x2 * y)"
    using r2(2) felt_18 [OF r1] felt_18 [OF constants_felt(2)] felt_18 [OF r3(2)] by (simp add: ge_def)
  ultimately show ?thesis unfolding spec r0(1) by simp
qed

subsection \<open>Hashing\<close>

definition msg_bytes :: "u8 list option \<Rightarrow> u8 list" where
  "msg_bytes m = (case m of None \<Rightarrow> [] | Some m \<Rightarrow> m)"

lemma absorbed_update_opt: "absorbed c h \<Longrightarrow> length (msg_bytes m) < 2 ^ 64 \<Longrightarrow> absorbed (sha512_update c m) (h @ msg_bytes m)"
  using absorbed_update by (cases m) (auto simp: msg_bytes_def sha512_update_def)

lemma hash_parts:
  assumes "length (sx_buffer ctx) = 128" "length a < 2 ^ 64" "length b < 2 ^ 64" "length (msg_bytes m) < 2 ^ 64"
  shows "absorbed (sha512_update (sha512_update (sha512_init ctx) (Some a)) m) (a @ msg_bytes m)"
    "absorbed (sha512_update (sha512_update (sha512_update (sha512_init ctx) (Some a)) (Some b)) m) (a @ b @ msg_bytes m)"
  using absorbed_update_opt [OF absorbed_update [OF absorbed_init [OF assms(1)] assms(2)] assms(4)]
    absorbed_update_opt [OF absorbed_update [OF absorbed_update [OF absorbed_init [OF assms(1)] assms(2)] assms(3)] assms(4)] by simp_all

lemma hash_one: "length (sx_buffer ctx) = 128 \<Longrightarrow> length a < 2 ^ 64 \<Longrightarrow> sha512_hash ctx (Some a) = fips_sha512 a"
  using absorbed_final [OF absorbed_update [OF absorbed_init]] by (simp add: sha512_hash_def)

lemma length_fips_sha512 [simp]: "length (fips_sha512 m) = 64"
  by (simp add: fips_sha512_def length_concat comp_def sum_list_triv)

lemma final_buffer: "absorbed c m \<Longrightarrow> length (sx_buffer (fst (sha512_final c))) = 128"
proof -
  assume a: "absorbed c m"
  then have l: "length (sx_buffer c) = 128" by (simp add: absorbed_def)
  have b: "unat (sx_count0 c AND 0x7F) < 128" by (simp add: and_7F)
  show ?thesis using l b
    by (simp add: sha512_final_def Let_def sha512_transform_def sha512_store_be64_def)
qed

lemma length_clamp [simp]: "length (clamp h) = length h"
  by (simp add: clamp_def)

lemma clamp_upper: "drop 32 (clamp h) = drop 32 h"
  by (simp add: clamp_def)

lemma hash_scalar_range: "0 \<le> hash_scalar m" "hash_scalar m < ell" "hash_scalar m < 256 ^ 32"
proof -
  have "0 < ell" "ell < 256 ^ 32" by (simp_all add: ell_def)
  then show "0 \<le> hash_scalar m" "hash_scalar m < ell" "hash_scalar m < 256 ^ 32"
    using pos_mod_sign [of ell "le_value (fips_sha512 m)"] pos_mod_bound [of ell "le_value (fips_sha512 m)"]
    unfolding hash_scalar_def by linarith+
qed

lemma reduce_hash: "reduce (fips_sha512 m) = Some (le_bytes 32 (hash_scalar m) @ replicate 32 0)"
  using reduce_value [of "fips_sha512 m"] by (simp add: hash_scalar_def)

lemma le_value_scalar: "le_value (le_bytes 32 (hash_scalar m)) = hash_scalar m"
  using hash_scalar_range [of m] by (simp add: le_value_le_bytes)

subsection \<open>Verification\<close>

lemma high_bits: "b AND 0xE0 \<noteq> 0 \<longleftrightarrow> 32 \<le> uint b" for b :: u8
proof -
  have m: "(0xE0 :: u8) = NOT (mask 5)" by (simp add: mask_eq_exp_minus_1)
  have "b AND 0xE0 = 0 \<longleftrightarrow> take_bit 5 b = b"
    unfolding m by (auto simp: bit_eq_iff bit_simps dest: bit_imp_le_length)
  also have "\<dots> \<longleftrightarrow> take_bit 5 (uint b) = uint b" by (simp add: word_uint_eq_iff unsigned_take_bit_eq)
  finally show ?thesis using uint_lt2p [of b] by (auto simp: take_bit_int_eq_self_iff)
qed

lemma le_value_append: "le_value (xs @ ys) = le_value xs + 256 ^ length xs * le_value ys"
  by (induction xs) (simp_all add: algebra_simps)

lemma scalar_guard: "length sg = 64 \<Longrightarrow> sg ! 63 AND 0xE0 \<noteq> 0 \<longleftrightarrow> 2 ^ 253 \<le> le_value (drop 32 sg)"
proof -
  assume l: "length sg = 64"
  have "drop 32 sg = take 31 (drop 32 sg) @ [sg ! 63]"
    using l take_Suc_conv_app_nth [of 31 "drop 32 sg"] by simp
  then have "le_value (drop 32 sg) = le_value (take 31 (drop 32 sg)) + 256 ^ 31 * uint (sg ! 63)"
    using l le_value_append [of "take 31 (drop 32 sg)" "[sg ! 63]"] by simp
  moreover have "0 \<le> le_value (take 31 (drop 32 sg))" "le_value (take 31 (drop 32 sg)) < 256 ^ 31"
    using le_value_range [of "take 31 (drop 32 sg)"] l by simp_all
  ultimately show ?thesis unfolding high_bits by auto
qed

lemma verify_eq:
  assumes ctx: "length (sx_buffer ctx) = 128" and sg: "length sg = 64" and pk: "length pk = 32" and m: "length (msg_bytes m) < 2 ^ 64"
  shows "ed25519_verify ctx (Some sg) m (Some pk) = Some (rfc_verify sg (msg_bytes m) pk)"
proof (cases "2 ^ 253 \<le> le_value (drop 32 sg)")
  case True
  then show ?thesis using scalar_guard [OF sg] by (simp add: ed25519_verify_def rfc_verify_def)
next
  case False
  then have g: "sg ! 63 AND 0xE0 = 0" using scalar_guard [OF sg] by blast
  obtain R where R: "unpackneg pk = Some R" "rel_option ge R (ed_decode_neg pk)" using unpackneg_ok [OF pk] by blast
  show ?thesis
  proof (cases R)
    case None
    then show ?thesis using R False g by (simp add: ed25519_verify_def rfc_verify_def)
  next
    case (Some A)
    then obtain a where a: "ed_decode_neg pk = Some a" "ge A a" using R(2) by (cases "ed_decode_neg pk") auto
    let ?h = "fips_sha512 (take 32 sg @ pk @ msg_bytes m)" and ?k = "hash_scalar (take 32 sg @ pk @ msg_bytes m)"
    let ?c = "sha512_update (sha512_update (sha512_update (sha512_init ctx) (Some (take 32 sg))) (Some pk)) m"
    have h: "snd (sha512_final ?c) = ?h" by (rule absorbed_final [OF hash_parts(2) [OF ctx _ _ m]]) (use sg pk in simp_all)
    obtain B where B: "scalarmult_base (drop 32 sg) = Some B" "ge B (ed_mul 256 (le_value (drop 32 sg)) base_point)"
      using scalarmult_base_ok [of "drop 32 sg"] sg by auto
    obtain H where H: "scalarmult (le_bytes 32 ?k @ replicate 32 0) A = Some H" "ge H (ed_mul 256 ?k a)"
      using scalarmult_ok [OF a(2), of "le_bytes 32 ?k @ replicate 32 0"] le_value_scalar by auto
    obtain S where S: "add_points B H = Some S" "ge S (ed_add (ed_mul 256 (le_value (drop 32 sg)) base_point) (ed_mul 256 ?k a))"
      using add_ok [OF B(2) H(2)] by blast
    note enc = pack_point_ok [OF S(2)]
    have len: "length (ed_encode p) = 32" for p by (simp add: ed_encode_def Let_def split: prod.split)
    have "ed25519_verify ctx (Some sg) m (Some pk) =
      (if mem_diff (ed_encode (ed_add (ed_mul 256 (le_value (drop 32 sg)) base_point) (ed_mul 256 ?k a))) (take 32 sg) \<noteq> 0
       then Some ED25519_ERR_VERIFY_FAILED else Some ED25519_OK)"
      using R(1) Some g h pk B(1) H(1) S(1) enc by (simp add: ed25519_verify_def Let_def case_prod_unfold reduce_hash)
    then show ?thesis using False a(1) mem_diff_0 len sg by (simp add: rfc_verify_def)
  qed
qed

subsection \<open>Signing\<close>

definition mul_add_inv :: "int list \<Rightarrow> int list \<Rightarrow> int \<Rightarrow> nat \<Rightarrow> nat \<Rightarrow> int list \<Rightarrow> bool" where
  "mul_add_inv hs as n i j x \<longleftrightarrow> length x = 64 \<and>
     (\<forall>k<64. 0 \<le> x ! k \<and> x ! k \<le> 255 + 65025 * int i + (if i \<le> k \<and> k < i + j then 65025 else 0)) \<and>
     xval x = n + pval 256 i hs * pval 256 32 as + hs ! i * 256 ^ i * pval 256 j as"

lemma mul_add_step:
  fixes h az :: "u8 list"
  assumes ij: "i < 32" "j < 32" and x: "mul_add_inv (map uint h) (map uint az) n i j x" and h: "32 \<le> length h" "32 \<le> length az"
  shows "returns (let d = uint (h ! i) * uint (az ! j) in chk [d, x ! (i + j) + d] (x[i + j := x ! (i + j) + d]))
    (mul_add_inv (map uint h) (map uint az) n i (Suc j))"
proof -
  define d where "d = uint (h ! i) * uint (az ! j)"
  have "uint (h ! i) \<le> 255" "uint (az ! j) \<le> 255" using uint_lt2p [of "h ! i"] uint_lt2p [of "az ! j"] by simp_all
  then have "uint (h ! i) * uint (az ! j) \<le> 255 * 255" by (intro mult_mono) auto
  then have d: "0 \<le> d" "d \<le> 65025" by (simp_all add: d_def)
  have b: "0 \<le> x ! k \<and> x ! k \<le> 255 + 65025 * int i + (if i \<le> k \<and> k < i + j then 65025 else 0)" if "k < 64" for k
    using x that by (simp add: mul_add_inv_def)
  have ij': "i + j < 64" using ij by simp
  have new: "0 \<le> x ! (i + j) + d" "x ! (i + j) + d \<le> 255 + 65025 * int i + 65025" using b [OF ij'] d by simp_all
  have "xval (x[i + j := x ! (i + j) + d]) = xval x + d * 256 ^ (i + j)" using x ij' by (simp add: mul_add_inv_def pval_update)
  also have "\<dots> = n + pval 256 i (map uint h) * pval 256 32 (map uint az) + map uint h ! i * 256 ^ i * pval 256 (Suc j) (map uint az)"
    using x h ij by (simp add: mul_add_inv_def pval_Suc d_def power_add algebra_simps)
  finally have val: "xval (x[i + j := x ! (i + j) + d]) =
    n + pval 256 i (map uint h) * pval 256 32 (map uint az) + map uint h ! i * 256 ^ i * pval 256 (Suc j) (map uint az)" .
  have "0 \<le> x[i + j := x ! (i + j) + d] ! k \<and> x[i + j := x ! (i + j) + d] ! k \<le> 255 + 65025 * int i + (if i \<le> k \<and> k < i + Suc j then 65025 else 0)"
    if "k < 64" for k using b [OF that] new ij' x by (cases "k = i + j") (auto simp: mul_add_inv_def)
  then have inv: "mul_add_inv (map uint h) (map uint az) n i (Suc j) (x[i + j := x ! (i + j) + d])"
    using val x by (simp add: mul_add_inv_def)
  have "list_all in_i64 [d, x ! (i + j) + d]" using d new ij by (simp add: in_i64_def)
  from returns_chk [OF this, of _ "x[i + j := x ! (i + j) + d]"] show ?thesis using inv by (simp add: d_def [symmetric])
qed

lemma mul_add_ok:
  assumes h: "32 \<le> length h" "32 \<le> length az" and n: "length nonce = 32"
  shows "returns (foldM (mul_add_row h az) [0..<32] (map uint nonce @ replicate 32 0))
    (\<lambda>x. length x = 64 \<and> (\<forall>k<64. \<bar>x ! k\<bar> \<le> 2 ^ 21) \<and> xval x = le_value nonce + le_value (take 32 h) * le_value (take 32 az))"
proof -
  let ?I = "mul_add_inv (map uint h) (map uint az) (le_value nonce)"
  let ?x = "map uint nonce @ replicate 32 0"
  have tk: "pval 256 32 (map uint xs) = le_value (take 32 xs)" if "32 \<le> length xs" for xs :: "u8 list"
    using that by (auto simp: le_value_pval intro: pval_cong)
  have "returns (foldM (mul_add_row h az) [0..<32] ?x) (?I 32 0)"
  proof (rule returns_foldM [where I = "\<lambda>i. ?I i 0"])
    have "0 \<le> ?x ! k \<and> ?x ! k \<le> 255" if "k < 64" for k
      using that n uint_lt2p [of "nonce ! k"] by (auto simp: nth_append)
    moreover have "xval ?x = le_value nonce"
    proof -
      have "pval 256 32 (replicate 32 0) = 0" by (simp add: pval_def)
      moreover have "pval 256 32 ?x = pval 256 32 (map uint nonce)" by (rule pval_cong) (use n in \<open>simp add: nth_append\<close>)
      ultimately show ?thesis using pval_split [of 32 ?x 256 32] n tk [of nonce] by simp
    qed
    ultimately show "?I 0 0 ?x" using n by (simp add: mul_add_inv_def)
  next
    fix i x assume i: "i < 32" and x: "?I i 0 x"
    have "returns (mul_add_row h az i x) (?I i 32)"
      unfolding mul_add_row_def by (rule returns_foldM [where I = "?I i"], rule x) (simp, rule mul_add_step [OF i _ _ h])
    then show "returns (mul_add_row h az i x) (?I (Suc i) 0)"
    proof (rule returns_mono)
      fix x assume "?I i 32 x"
      then show "?I (Suc i) 0 x" by (auto simp: mul_add_inv_def pval_Suc algebra_simps split: if_splits)
    qed
  qed simp
  then show ?thesis
  proof (rule returns_mono)
    fix x assume x: "?I 32 0 x"
    have "\<bar>x ! k\<bar> \<le> 2 ^ 21" if "k < 64" for k
    proof -
      have "0 \<le> x ! k \<and> x ! k \<le> 255 + 65025 * 32" 
        using x that by (auto simp: mul_add_inv_def dest!: spec [of _ k] split: if_splits)
      then show ?thesis by simp
    qed
    then show "length x = 64 \<and> (\<forall>k<64. \<bar>x ! k\<bar> \<le> 2 ^ 21) \<and> xval x = le_value nonce + le_value (take 32 h) * le_value (take 32 az)"
      using x tk [OF h(1)] tk [OF h(2)] by (simp add: mul_add_inv_def)
  qed
qed

lemma keypair_eq:
  assumes ctx: "length (sx_buffer ctx) = 128" and seed: "length seed < 2 ^ 64"
  shows "ed25519_create_keypair ctx seed = Some (rfc_public seed, seed @ rfc_public seed)"
proof -
  obtain A where A: "scalarmult_base (clamp (fips_sha512 seed)) = Some A" "ge A (ed_mul 256 (rfc_secret seed) base_point)"
    using scalarmult_base_ok [of "clamp (fips_sha512 seed)"] by (auto simp: rfc_secret_def)
  then show ?thesis using pack_point_ok [OF A(2)] hash_one [OF ctx seed]
    by (simp add: ed25519_create_keypair_def Let_def rfc_public_def)
qed

lemma sign_eq:
  assumes ctx: "length (sx_buffer ctx) = 128" and pk: "length pk = 32" and seed: "length seed = 32" and m: "length (msg_bytes m) < 2 ^ 64"
  shows "ed25519_sign ctx m pk (seed @ tl_key) = Some (rfc_sign (msg_bytes m) pk seed)"
proof -
  define az where "az = clamp (fips_sha512 seed)"
  define r where "r = hash_scalar (drop 32 (fips_sha512 seed) @ msg_bytes m)"
  define R where "R = ed_encode (ed_mul 256 r base_point)"
  define k where "k = hash_scalar (R @ pk @ msg_bytes m)"
  let ?c1 = "sha512_update (sha512_update (sha512_init ctx) (Some (drop 32 az))) m"
  have az: "length az = 64" "drop 32 az = drop 32 (fips_sha512 seed)" "sha512_hash ctx (Some seed) = fips_sha512 seed"
    using hash_one [OF ctx, of seed] seed by (simp_all add: az_def clamp_upper)
  have a1: "absorbed ?c1 (drop 32 az @ msg_bytes m)" by (rule hash_parts(1) [OF ctx _ _ m, of _ "[]"]) (simp_all add: az)
  have h1: "reduce (snd (sha512_final ?c1)) = Some (le_bytes 32 r @ replicate 32 0)"
    using absorbed_final [OF a1] by (simp add: az reduce_hash r_def)
  have rv: "le_value (le_bytes 32 r) = r" unfolding r_def by (rule le_value_scalar)
  obtain P where P: "scalarmult_base (le_bytes 32 r) = Some P" "ge P (ed_mul 256 r base_point)"
    using scalarmult_base_ok [of "le_bytes 32 r"] rv by auto
  have Rp: "pack_point P = Some R" "length R = 32" using pack_point_ok [OF P(2)] by (simp_all add: R_def ed_encode_def Let_def split: prod.split)
  let ?c2 = "sha512_update (sha512_update (sha512_update (sha512_init (fst (sha512_final ?c1))) (Some R)) (Some pk)) m"
  have "absorbed ?c2 (R @ pk @ msg_bytes m)" by (rule hash_parts(2) [OF final_buffer [OF a1] _ _ m]) (simp_all add: Rp pk)
  then have h2: "reduce (snd (sha512_final ?c2)) = Some (le_bytes 32 k @ replicate 32 0)"
    using absorbed_final by (simp add: reduce_hash k_def)
  have kv: "le_value (le_bytes 32 k) = k" unfolding k_def by (rule le_value_scalar)
  obtain x where x: "foldM (mul_add_row (le_bytes 32 k @ replicate 32 0) az) [0..<32] (map uint (le_bytes 32 r) @ replicate 32 0) = Some x"
    "length x = 64" "\<forall>k<64. \<bar>x ! k\<bar> \<le> 2 ^ 21" "xval x = r + k * le_value (take 32 az)"
    using mul_add_ok [of "le_bytes 32 k @ replicate 32 0" az "le_bytes 32 r"] az kv rv by (auto simp: returns_def)
  have s: "modL x = Some (le_bytes 32 ((r + k * rfc_secret seed) mod ell))"
    using modL_value [OF x(2,3)] x(4) by (simp add: rfc_secret_def az_def)
  show ?thesis unfolding ed25519_sign_def rfc_sign_def Let_def
    using az h1 P(1) Rp h2 x(1) s pk seed
    by (simp add: case_prod_unfold az_def [symmetric] r_def [symmetric] R_def [symmetric] k_def [symmetric])
qed

subsection \<open>The addition law\<close>

definition stands_for :: "ed_point \<Rightarrow> int \<Rightarrow> int \<Rightarrow> bool" where
  \<comment> \<open>extended coordinates of an affine point\<close>
  "stands_for = (\<lambda>(X, Y, Z, T) x y. p25519 dvd X - x * Z \<and> p25519 dvd Y - y * Z \<and> p25519 dvd T - x * y * Z)"

lemma ed_add_law:
  assumes P: "stands_for (X1, Y1, Z1, T1) x1 y1" and Q: "stands_for (X2, Y2, Z2, T2) x2 y2"
    and x3: "p25519 dvd x3 * (1 + ed_d * x1 * x2 * y1 * y2) - (x1 * y2 + y1 * x2)"
    and y3: "p25519 dvd y3 * (1 - ed_d * x1 * x2 * y1 * y2) - (y1 * y2 + x1 * x2)"
  shows "stands_for (ed_add (X1, Y1, Z1, T1) (X2, Y2, Z2, T2)) x3 y3"
proof -
  define p where "p = p25519"
  obtain a1 b1 c1 where 1: "X1 = x1 * Z1 + p * a1" "Y1 = y1 * Z1 + p * b1" "T1 = x1 * y1 * Z1 + p * c1"
    using P by (auto simp: stands_for_def p_def elim!: dvdE) (metis add.commute diff_add_cancel)
  obtain a2 b2 c2 where 2: "X2 = x2 * Z2 + p * a2" "Y2 = y2 * Z2 + p * b2" "T2 = x2 * y2 * Z2 + p * c2"
    using Q by (auto simp: stands_for_def p_def elim!: dvdE) (metis add.commute diff_add_cancel)
  obtain u w where 3: "x1 * y2 + y1 * x2 = x3 * (1 + ed_d * x1 * x2 * y1 * y2) - p * u"
      "y1 * y2 + x1 * x2 = y3 * (1 - ed_d * x1 * x2 * y1 * y2) - p * w"
    using x3 y3 by (auto simp: p_def elim!: dvdE) (metis add_diff_cancel_left' diff_add_cancel)
  define A B C D where "A = (Y1 - X1) * (Y2 - X2)" and "B = (Y1 + X1) * (Y2 + X2)" and "C = T1 * 2 * ed_d * T2" and "D = Z1 * 2 * Z2"
  have prod: "\<exists>r. U * V = m * n + p * r" if "U = m + p * s" "V = n + p * t" for U V m n s t
    using that by (intro exI [of _ "s * n + m * t + p * s * t"]) (simp add: algebra_simps)
  obtain xy yx yy xx tt where r: "X1 * Y2 = x1 * Z1 * (y2 * Z2) + p * xy" "Y1 * X2 = y1 * Z1 * (x2 * Z2) + p * yx"
      "Y1 * Y2 = y1 * Z1 * (y2 * Z2) + p * yy" "X1 * X2 = x1 * Z1 * (x2 * Z2) + p * xx" "T1 * T2 = x1 * y1 * Z1 * (x2 * y2 * Z2) + p * tt"
    using prod [OF 1(1) 2(2)] prod [OF 1(2) 2(1)] prod [OF 1(2) 2(2)] prod [OF 1(1) 2(1)] prod [OF 1(3) 2(3)] by blast
  have "B - A = 2 * (X1 * Y2) + 2 * (Y1 * X2)" "B + A = 2 * (Y1 * Y2) + 2 * (X1 * X2)" and c: "C = 2 * ed_d * (T1 * T2)"
    by (simp_all add: A_def B_def C_def algebra_simps)
  then have ba: "B - A = 2 * Z1 * Z2 * (x1 * y2 + y1 * x2) + p * (2 * xy + 2 * yx)" "B + A = 2 * Z1 * Z2 * (y1 * y2 + x1 * x2) + p * (2 * yy + 2 * xx)"
    unfolding r by (simp_all add: algebra_simps)
  have e: "B - A = x3 * (D + C) + p * (2 * xy + 2 * yx - 2 * x3 * ed_d * tt - 2 * Z1 * Z2 * u)"
    unfolding ba(1) 3(1) c r(5) D_def by (simp add: algebra_simps)
  have h: "B + A = y3 * (D - C) + p * (2 * yy + 2 * xx + 2 * y3 * ed_d * tt - 2 * Z1 * Z2 * w)"
    unfolding ba(2) 3(2) c r(5) D_def by (simp add: algebra_simps)
  have "p dvd v mod p - x * (f mod p)" if "v = x * f + p * g" for v x f g :: int
  proof -
    have "v mod p = v - p * (v div p)" "f mod p = f - p * (f div p)" by (simp_all only: minus_mult_div_eq_mod)
    then obtain i j where ij: "v mod p = v - p * i" "f mod p = f - p * j" by blast
    have "v mod p - x * (f mod p) = v - p * i - x * (f - p * j)" by (simp only: ij)
    also have "\<dots> = p * (g - i + x * j)" unfolding that by (simp add: algebra_simps)
    finally show ?thesis by simp
  qed
  note m = this
  define F G where "F = D - C" and "G = D + C"
  obtain g g' where e': "B - A = x3 * G + p * g" and h': "B + A = y3 * F + p * g'" using e h unfolding F_def G_def by blast
  have "(B - A) * F = x3 * (F * G) + p * (g * F)" "G * (B + A) = y3 * (F * G) + p * (g' * G)"
    "(B - A) * (B + A) = x3 * y3 * (F * G) + p * (g * y3 * F + x3 * G * g' + p * g * g')"
    unfolding e' h' by (simp_all add: algebra_simps)
  from this [THEN m] show ?thesis
    by (simp add: stands_for_def ed_add_def Let_def p_def [symmetric] A_def [symmetric] B_def [symmetric] C_def [symmetric] D_def [symmetric] F_def [symmetric] G_def [symmetric])
qed

section \<open>Properties\<close>

text \<open>
  C33: verification always returns (no intermediate value of the limb arithmetic overflows \<^verbatim>\<open>int64_t\<close>) and its
  answer is the one of RFC 8032 computed over the integers: the key decodes to a point, the scalar is
  \<open>SHA-512(R, A, M)\<close> reduced modulo the group order, and the signature is accepted exactly when \<open>S B - h A\<close>
  encodes to \<open>R\<close>. The scalar \<open>S\<close> is rejected exactly from \<open>2 ^ 253\<close> on, which is more permissive than the
  group order.
\<close>

theorem ed25519_verify_rfc:
  assumes "length (sx_buffer ctx) = SHA512_BLOCK_SIZE" "length sg = 64" "length pk = 32" "length m < 2 ^ 64"
  shows "ed25519_verify ctx (Some sg) (Some m) (Some pk) = Some (rfc_verify sg m pk)"
  using verify_eq [of ctx sg pk "Some m"] assms by (simp add: msg_bytes_def)

theorem ed25519_verify_rfc_witness:
  "ed25519_verify blank_ctx (Some (replicate 64 0xFF)) (Some [0x61]) (Some (replicate 32 0)) = Some ED25519_ERR_INVALID_SIGNATURE \<and>
   ed25519_verify blank_ctx (Some (replicate 64 0)) (Some [0x61]) (Some (replicate 32 0)) = Some (rfc_verify (replicate 64 0) [0x61] (replicate 32 0))"
proof
  have "2 ^ 253 \<le> le_value (drop 32 (replicate 64 0xFF))" by code_simp
  then show "ed25519_verify blank_ctx (Some (replicate 64 0xFF)) (Some [0x61]) (Some (replicate 32 0)) = Some ED25519_ERR_INVALID_SIGNATURE"
    using ed25519_verify_rfc [of blank_ctx "replicate 64 0xFF" "replicate 32 0" "[0x61]"] by (simp add: blank_ctx_def rfc_verify_def)
  show "ed25519_verify blank_ctx (Some (replicate 64 0)) (Some [0x61]) (Some (replicate 32 0)) = Some (rfc_verify (replicate 64 0) [0x61] (replicate 32 0))"
    using ed25519_verify_rfc [of blank_ctx "replicate 64 0" "replicate 32 0" "[0x61]"] by (simp add: blank_ctx_def)
qed





end
