(* ===== verification/Cert.thy ===== *)
theory Cert
  imports Ed25519
begin

text \<open>
  \<^verbatim>\<open>kernel/crypto/cert.c\<close>: the 132-byte certificates by which the root key vouches for a signing key, and the
  root key that the verifier trusts.  A buffer is the list of its bytes and a pointer into it is the rest of
  the list from there; reading past the end is \<open>None\<close>, like an overflow in the arithmetic below.
\<close>

section \<open>Definitions\<close>

abbreviation SECUREOS_CERT_TOTAL_SIZE :: nat where "SECUREOS_CERT_TOTAL_SIZE \<equiv> 132"

record secureos_cert_t =
  ct_magic :: "u8 list"
  ct_issuer_key_hash :: "u8 list"
  ct_subject_public_key :: "u8 list"
  ct_signature :: "u8 list"

datatype cert_result_t = CERT_OK | CERT_ERR_INVALID_MAGIC | CERT_ERR_INVALID_FORMAT | CERT_ERR_CHAIN_TOO_DEEP
  | CERT_ERR_ISSUER_MISMATCH | CERT_ERR_SIGNATURE_INVALID | CERT_ERR_NOT_TRUSTED

definition CERT_MAGIC :: "u8 list" where "CERT_MAGIC = [0x53, 0x43, 0x52, 0x54]"

definition read_bytes :: "u8 list \<Rightarrow> nat \<Rightarrow> nat \<Rightarrow> u8 list option" where
  \<comment> \<open>the \<open>n\<close> bytes from offset \<open>off\<close>, if the buffer has them\<close>
  "read_bytes buf off n = (if off + n \<le> length buf then Some (take n (drop off buf)) else None)"

definition cert_mem_equal :: "u8 list \<Rightarrow> u8 list \<Rightarrow> nat \<Rightarrow> bool" where
  "cert_mem_equal a b len \<longleftrightarrow> fold (\<lambda>i diff. diff OR (a ! i XOR b ! i)) [0..<len] 0 = 0"

definition cert_parse :: "u8 list option \<Rightarrow> nat \<Rightarrow> secureos_cert_t option \<Rightarrow> (cert_result_t \<times> secureos_cert_t option) option" where
  "cert_parse data data_len out =
    (case (data, out) of
       (Some data, Some cert) \<Rightarrow>
         if data_len < SECUREOS_CERT_TOTAL_SIZE then Some (CERT_ERR_INVALID_FORMAT, out)
         else do {
           magic \<leftarrow> read_bytes data 0 4;
           if magic \<noteq> CERT_MAGIC then Some (CERT_ERR_INVALID_MAGIC, out)
           else do {
             issuer_key_hash \<leftarrow> read_bytes data 4 32;
             subject_public_key \<leftarrow> read_bytes data 36 32;
             signature \<leftarrow> read_bytes data 68 64;
             Some (CERT_OK, Some (cert\<lparr> ct_magic := magic, ct_issuer_key_hash := issuer_key_hash,
               ct_subject_public_key := subject_public_key, ct_signature := signature \<rparr>))
           }
         }
     | _ \<Rightarrow> Some (CERT_ERR_INVALID_FORMAT, out))"

definition cert_signed_data :: "secureos_cert_t \<Rightarrow> u8 list" where
  \<comment> \<open>the local \<^verbatim>\<open>signed_data\<close> of \<open>cert_verify\<close> and \<open>cert_build\<close>\<close>
  "cert_signed_data cert = ct_magic cert @ ct_issuer_key_hash cert @ ct_subject_public_key cert"

definition cert_verify :: "sha512_ctx_t \<Rightarrow> secureos_cert_t option \<Rightarrow> u8 list option \<Rightarrow> cert_result_t option" where
  "cert_verify ctx cert issuer_public_key =
    (case (cert, issuer_public_key) of
       (Some cert, Some pk) \<Rightarrow> do {
         result \<leftarrow> ed25519_verify ctx (Some (ct_signature cert)) (Some (cert_signed_data cert)) (Some pk);
         Some (if result \<noteq> ED25519_OK then CERT_ERR_SIGNATURE_INVALID else CERT_OK)
       }
     | _ \<Rightarrow> Some CERT_ERR_INVALID_FORMAT)"

definition cert_chain_validate :: "sha512_ctx_t \<Rightarrow> secureos_cert_t option \<Rightarrow> u8 list option \<Rightarrow> cert_result_t option" where
  "cert_chain_validate ctx cert root_public_key =
    (case (cert, root_public_key) of
       (Some c, Some pk) \<Rightarrow>
         if ct_magic c \<noteq> CERT_MAGIC then Some CERT_ERR_INVALID_MAGIC
         else if \<not> cert_mem_equal (ct_issuer_key_hash c) (ed25519_public_key_hash ctx pk) 32
         then Some CERT_ERR_ISSUER_MISMATCH
         else cert_verify ctx cert root_public_key
     | _ \<Rightarrow> Some CERT_ERR_INVALID_FORMAT)"

definition cert_build :: "sha512_ctx_t \<Rightarrow> u8 list \<Rightarrow> u8 list \<Rightarrow> u8 list \<Rightarrow> secureos_cert_t option \<Rightarrow> secureos_cert_t option option" where
  "cert_build ctx issuer_public_key issuer_private_key subject_public_key out =
    (case out of
       None \<Rightarrow> Some None
     | Some cert \<Rightarrow> do {
         let cert = cert\<lparr> ct_magic := CERT_MAGIC \<rparr>;
         let cert = cert\<lparr> ct_issuer_key_hash := ed25519_public_key_hash ctx issuer_public_key \<rparr>;
         let cert = cert\<lparr> ct_subject_public_key := subject_public_key \<rparr>;
         signature \<leftarrow> ed25519_sign ctx (Some (cert_signed_data cert)) issuer_public_key issuer_private_key;
         Some (Some (cert\<lparr> ct_signature := signature \<rparr>))
       })"

definition cert_serialize :: "secureos_cert_t option \<Rightarrow> u8 list option \<Rightarrow> u8 list option" where
  "cert_serialize cert out =
    (case (cert, out) of
       (Some cert, Some _) \<Rightarrow> Some (ct_magic cert @ ct_issuer_key_hash cert @ ct_subject_public_key cert @ ct_signature cert)
     | _ \<Rightarrow> out)"

text \<open>The trusted key: the one set at boot, or the one baked in through \<^verbatim>\<open>kernel/crypto/root_key.h\<close>.\<close>

record cert_root =
  cert_root_key_cache :: "u8 list"
  cert_root_key_set :: bool

definition SECUREOS_ROOT_PUBLIC_KEY :: "u8 list" where
  "SECUREOS_ROOT_PUBLIC_KEY =
    [0x3b, 0x6a, 0x27, 0xbc, 0xce, 0xb6, 0xa4, 0x2d, 0x62, 0xa3, 0xa8, 0xd0, 0x2a, 0x6f, 0x0d, 0x73,
     0x65, 0x32, 0x15, 0x77, 0x1d, 0xe2, 0x43, 0xa6, 0x3a, 0xc0, 0x48, 0xa1, 0x8b, 0x59, 0xda, 0x29]"

definition cert_set_root_public_key :: "u8 list \<Rightarrow> cert_root \<Rightarrow> cert_root" where
  "cert_set_root_public_key key g = g\<lparr> cert_root_key_cache := key, cert_root_key_set := True \<rparr>"

definition cert_get_root_public_key :: "cert_root \<Rightarrow> u8 list" where
  "cert_get_root_public_key g = (if cert_root_key_set g then cert_root_key_cache g else SECUREOS_ROOT_PUBLIC_KEY)"

section \<open>Specification\<close>

definition cert_wf :: "secureos_cert_t \<Rightarrow> bool" where
  \<comment> \<open>the fields have the sizes of the struct\<close>
  "cert_wf c \<longleftrightarrow> length (ct_magic c) = 4 \<and> length (ct_issuer_key_hash c) = 32 \<and>
     length (ct_subject_public_key c) = 32 \<and> length (ct_signature c) = 64"

definition key_hash :: "u8 list \<Rightarrow> u8 list" where
  "key_hash pk = take 32 (fips_sha512 pk)"

definition cert_of_bytes :: "u8 list \<Rightarrow> secureos_cert_t" where
  "cert_of_bytes b = \<lparr> ct_magic = take 4 b, ct_issuer_key_hash = take 32 (drop 4 b),
     ct_subject_public_key = take 32 (drop 36 b), ct_signature = take 64 (drop 68 b) \<rparr>"

definition vouches :: "u8 list \<Rightarrow> secureos_cert_t \<Rightarrow> bool" where
  \<comment> \<open>the certificate names the issuer key and carries its signature\<close>
  "vouches pk c \<longleftrightarrow> ct_issuer_key_hash c = key_hash pk \<and> rfc_verify (ct_signature c) (cert_signed_data c) pk = ED25519_OK"

section \<open>Lemmas\<close>

lemma read_bytes_in: "off + n \<le> length buf \<Longrightarrow> read_bytes buf off n = Some (take n (drop off buf))"
  by (simp add: read_bytes_def)

lemma fold_or_0: "fold (\<lambda>i diff. diff OR f i) is (d :: u8) = 0 \<longleftrightarrow> d = 0 \<and> (\<forall>i\<in>set is. f i = 0)"
  by (induction "is" arbitrary: d) (auto simp: or_eq_0_iff)

lemma cert_mem_equal_iff: "length a = n \<Longrightarrow> length b = n \<Longrightarrow> cert_mem_equal a b n \<longleftrightarrow> a = b"
  by (auto simp: cert_mem_equal_def fold_or_0 word_xor_0 intro: nth_equalityI)

lemma length_key_hash [simp]: "length (key_hash pk) = 32"
  by (simp add: key_hash_def)

lemma public_key_hash_eq: "length (sx_buffer ctx) = 128 \<Longrightarrow> length pk = 32 \<Longrightarrow> ed25519_public_key_hash ctx pk = key_hash pk"
  by (simp add: ed25519_public_key_hash_def key_hash_def hash_one)

lemma length_signed_data: "cert_wf c \<Longrightarrow> length (cert_signed_data c) = 68"
  by (simp add: cert_wf_def cert_signed_data_def)

lemma cert_wf_of_bytes: "132 \<le> length b \<Longrightarrow> cert_wf (cert_of_bytes b)"
  by (simp add: cert_wf_def cert_of_bytes_def)

lemma cert_parse_eq:
  assumes "132 \<le> length b" "132 \<le> n"
  shows "cert_parse (Some b) n (Some c) =
    Some (if take 4 b = CERT_MAGIC then (CERT_OK, Some (cert_of_bytes b)) else (CERT_ERR_INVALID_MAGIC, Some c))"
  using assms by (simp add: cert_parse_def read_bytes_in cert_of_bytes_def)

lemma cert_verify_eq:
  assumes "length (sx_buffer ctx) = 128" "cert_wf c" "length pk = 32"
  shows "cert_verify ctx (Some c) (Some pk) =
    Some (if rfc_verify (ct_signature c) (cert_signed_data c) pk = ED25519_OK then CERT_OK else CERT_ERR_SIGNATURE_INVALID)"
  using assms verify_eq [of ctx "ct_signature c" pk "Some (cert_signed_data c)"]
  by (simp add: cert_verify_def cert_wf_def msg_bytes_def cert_signed_data_def)

lemma cert_of_serialized: "cert_wf c \<Longrightarrow> cert_serialize (Some c) (Some out) = Some b \<Longrightarrow> length b = 132 \<and> cert_of_bytes b = c"
  by (auto simp: cert_serialize_def cert_of_bytes_def cert_wf_def)

lemma cert_chain_eq:
  assumes ctx: "length (sx_buffer ctx) = 128" and c: "cert_wf c" and pk: "length pk = 32"
  shows "cert_chain_validate ctx (Some c) (Some pk) =
    Some (if ct_magic c \<noteq> CERT_MAGIC then CERT_ERR_INVALID_MAGIC
          else if ct_issuer_key_hash c \<noteq> key_hash pk then CERT_ERR_ISSUER_MISMATCH
          else if rfc_verify (ct_signature c) (cert_signed_data c) pk = ED25519_OK then CERT_OK else CERT_ERR_SIGNATURE_INVALID)"
proof -
  have "cert_mem_equal (ct_issuer_key_hash c) (key_hash pk) 32 \<longleftrightarrow> ct_issuer_key_hash c = key_hash pk"
    by (rule cert_mem_equal_iff) (use c in \<open>simp_all add: cert_wf_def\<close>)
  then show ?thesis using cert_verify_eq [OF ctx c pk] public_key_hash_eq [OF ctx pk] by (simp add: cert_chain_validate_def)
qed

definition built_cert :: "u8 list \<Rightarrow> u8 list \<Rightarrow> u8 list \<Rightarrow> secureos_cert_t" where
  \<comment> \<open>what the issuer with this seed certifies about a subject key\<close>
  "built_cert pk seed subject = \<lparr> ct_magic = CERT_MAGIC, ct_issuer_key_hash = key_hash pk, ct_subject_public_key = subject,
     ct_signature = rfc_sign (CERT_MAGIC @ key_hash pk @ subject) pk seed \<rparr>"

lemma length_rfc_sign [simp]: "length (rfc_sign m pk seed) = 64"
  by (simp add: rfc_sign_def Let_def ed_encode_def split: prod.split)

lemma cert_wf_built: "length subject = 32 \<Longrightarrow> cert_wf (built_cert pk seed subject)"
  by (simp add: cert_wf_def built_cert_def CERT_MAGIC_def)

lemma cert_build_eq:
  assumes "length (sx_buffer ctx) = 128" "length pk = 32" "length seed = 32" "length subject = 32"
  shows "cert_build ctx pk (seed @ key_tail) subject (Some c) = Some (Some (built_cert pk seed subject))"
  using assms sign_eq [of ctx pk seed "Some (CERT_MAGIC @ key_hash pk @ subject)" key_tail]
  by (simp add: cert_build_def public_key_hash_eq cert_signed_data_def msg_bytes_def CERT_MAGIC_def built_cert_def)

section \<open>Properties\<close>

text \<open>
  C36: certificates are parsed and validated exactly.  A certificate built for a subject key, written to bytes
  and read back is the same certificate, with the root key's truncated SHA-512 as issuer and the RFC 8032
  signature of the first 68 bytes.  Validating any certificate never overflows and accepts it exactly when
  the magic is right, the issuer hash is the root key's and the RFC 8032 check of those 68 bytes under the
  root key succeeds; the first failing check in this order determines the error.
\<close>

theorem cert_chain_exact:
  assumes "length (sx_buffer ctx) = SHA512_BLOCK_SIZE" "length pk = 32" "length seed = 32" "length subject = 32" "cert_wf c"
  shows "(\<exists>b. cert_build ctx pk (seed @ key_tail) subject (Some c) = Some (Some (built_cert pk seed subject)) \<and>
      cert_serialize (Some (built_cert pk seed subject)) (Some out) = Some b \<and>
      cert_parse (Some b) SECUREOS_CERT_TOTAL_SIZE (Some c) = Some (CERT_OK, Some (built_cert pk seed subject))) \<and>
    cert_chain_validate ctx (Some c) (Some pk) =
      Some (if ct_magic c \<noteq> CERT_MAGIC then CERT_ERR_INVALID_MAGIC
            else if ct_issuer_key_hash c \<noteq> key_hash pk then CERT_ERR_ISSUER_MISMATCH
            else if rfc_verify (ct_signature c) (cert_signed_data c) pk = ED25519_OK then CERT_OK else CERT_ERR_SIGNATURE_INVALID)"
proof
  note wf = cert_wf_built [OF assms(4), of pk seed]
  obtain b where b: "cert_serialize (Some (built_cert pk seed subject)) (Some out) = Some b" by (simp add: cert_serialize_def)
  have "take 4 b = CERT_MAGIC" using b by (auto simp: cert_serialize_def built_cert_def CERT_MAGIC_def)
  then show "\<exists>b. cert_build ctx pk (seed @ key_tail) subject (Some c) = Some (Some (built_cert pk seed subject)) \<and>
      cert_serialize (Some (built_cert pk seed subject)) (Some out) = Some b \<and>
      cert_parse (Some b) SECUREOS_CERT_TOTAL_SIZE (Some c) = Some (CERT_OK, Some (built_cert pk seed subject))"
    using cert_build_eq [OF assms(1-4)] b cert_parse_eq [of b 132] cert_of_serialized [OF wf b] by simp
qed (rule cert_chain_eq [OF assms(1,5,2)])

theorem cert_chain_exact_witness:
  "cert_chain_validate blank_ctx (Some \<lparr> ct_magic = CERT_MAGIC, ct_issuer_key_hash = key_hash (replicate 32 7),
      ct_subject_public_key = replicate 32 1, ct_signature = replicate 64 0xFF \<rparr>) (Some (replicate 32 7)) = Some CERT_ERR_SIGNATURE_INVALID"
proof -
  have "2 ^ 253 \<le> le_value (drop 32 (replicate 64 0xFF))" by code_simp
  then show ?thesis
    using cert_chain_exact [of blank_ctx "replicate 32 7" "replicate 32 0" "replicate 32 1" "\<lparr> ct_magic = CERT_MAGIC,
      ct_issuer_key_hash = key_hash (replicate 32 7), ct_subject_public_key = replicate 32 1, ct_signature = replicate 64 0xFF \<rparr>" "[]" "[]"]
    by (simp add: blank_ctx_def cert_wf_def CERT_MAGIC_def rfc_verify_def)
qed

end
