(* ===== verification/Sof.thy ===== *)
theory Sof
  imports Cert
begin

text \<open>
  \<^verbatim>\<open>kernel/format/sof.c\<close>: the container of executables.  A file is a header of 36 bytes, metadata entries (key,
  length, value), the ELF payload and, when signed, a certificate with an Ed25519 signature of the payload's
  hash.  Buffers are byte lists; a read or write outside a buffer is \<open>None\<close>.  A C string is the list of its
  bytes up to the terminator.
\<close>

section \<open>Definitions\<close>

abbreviation SOF_HEADER_SIZE :: nat where "SOF_HEADER_SIZE \<equiv> 36"
abbreviation SOF_META_VALUE_MAX :: nat where "SOF_META_VALUE_MAX \<equiv> 64"
abbreviation SOF_META_MAX_ENTRIES :: nat where "SOF_META_MAX_ENTRIES \<equiv> 12"

abbreviation SOF_TYPE_BIN :: u8 where "SOF_TYPE_BIN \<equiv> 1"
abbreviation SOF_TYPE_LIB :: u8 where "SOF_TYPE_LIB \<equiv> 2"
abbreviation SOF_TYPE_APP :: u8 where "SOF_TYPE_APP \<equiv> 3"

abbreviation SOF_META_NAME :: u8 where "SOF_META_NAME \<equiv> 0x01"
abbreviation SOF_META_DESCRIPTION :: u8 where "SOF_META_DESCRIPTION \<equiv> 0x02"
abbreviation SOF_META_AUTHOR :: u8 where "SOF_META_AUTHOR \<equiv> 0x03"
abbreviation SOF_META_VERSION :: u8 where "SOF_META_VERSION \<equiv> 0x04"
abbreviation SOF_META_DATE :: u8 where "SOF_META_DATE \<equiv> 0x05"
abbreviation SOF_META_ICON :: u8 where "SOF_META_ICON \<equiv> 0x06"
abbreviation SOF_META_SYSCALL_ID :: u8 where "SOF_META_SYSCALL_ID \<equiv> 0x20"

record sof_header_t =
  hd_magic :: "u8 list"
  hd_format_version :: u8
  hd_file_type :: u8
  hd_flags :: u16
  hd_total_size :: u32
  hd_meta_offset :: u32
  hd_meta_count :: u16
  hd_meta_size :: u16
  hd_payload_offset :: u32
  hd_payload_size :: u32
  hd_sig_offset :: u32
  hd_sig_size :: u32

text \<open>The key enumeration is represented by the byte it is read from.\<close>

record sof_meta_entry_t =
  me_key :: u8
  me_value_len :: u8
  me_value :: "u8 list"

datatype sof_result_t = SOF_OK | SOF_ERR_INVALID_MAGIC | SOF_ERR_INVALID_VERSION | SOF_ERR_INVALID_TYPE | SOF_ERR_INVALID_SIZE
  | SOF_ERR_INVALID_META | SOF_ERR_BUFFER_TOO_SMALL | SOF_ERR_NO_PAYLOAD | SOF_ERR_SIGNATURE_REQUIRED | SOF_ERR_SIGNATURE_INVALID

text \<open>\<open>sp_payload\<close> is the pointer into the source buffer: the bytes of the buffer from there on.\<close>

record sof_parsed_file_t =
  sp_header :: sof_header_t
  sp_meta :: "sof_meta_entry_t list"
  sp_meta_count :: nat
  sp_payload :: "u8 list"
  sp_payload_size :: nat
  sp_has_signature :: bool

record sof_build_params_t =
  sb_file_type :: u8
  sb_name :: "u8 list option"
  sb_description :: "u8 list option"
  sb_author :: "u8 list option"
  sb_version :: "u8 list option"
  sb_date :: "u8 list option"
  sb_icon :: "u8 list option"
  sb_syscall_id :: "u8 list option"
  sb_elf_payload :: "u8 list option"
  sb_elf_payload_size :: nat

definition SOF_MAGIC :: "u8 list" where "SOF_MAGIC = [0x53, 0x45, 0x4F, 0x53]"

definition write_bytes :: "u8 list \<Rightarrow> nat \<Rightarrow> u8 list \<Rightarrow> u8 list option" where
  \<comment> \<open>the buffer with the bytes stored from offset \<open>off\<close> on, if it has room for them\<close>
  "write_bytes buf off bs = (if off + length bs \<le> length buf then Some (buf_put off bs buf) else None)"

definition sof_memzero :: "u8 list \<Rightarrow> nat \<Rightarrow> u8 list option" where
  "sof_memzero dst n = write_bytes dst 0 (replicate n 0)"

definition sof_read_u16 :: "u8 list \<Rightarrow> nat \<Rightarrow> u16 option" where
  "sof_read_u16 buf off = do {
     b \<leftarrow> read_bytes buf off 2;
     Some (ucast (b ! 0) OR push_bit 8 (ucast (b ! 1)))
   }"

definition sof_read_u32 :: "u8 list \<Rightarrow> nat \<Rightarrow> u32 option" where
  "sof_read_u32 buf off = do {
     b \<leftarrow> read_bytes buf off 4;
     Some (ucast (b ! 0) OR push_bit 8 (ucast (b ! 1)) OR push_bit 16 (ucast (b ! 2)) OR push_bit 24 (ucast (b ! 3)))
   }"

definition sof_write_u16 :: "u8 list \<Rightarrow> nat \<Rightarrow> u16 \<Rightarrow> u8 list option" where
  "sof_write_u16 buf off val = write_bytes buf off [ucast (val AND 0xFF), ucast (drop_bit 8 val AND 0xFF)]"

definition sof_write_u32 :: "u8 list \<Rightarrow> nat \<Rightarrow> u32 \<Rightarrow> u8 list option" where
  "sof_write_u32 buf off val = write_bytes buf off
     [ucast (val AND 0xFF), ucast (drop_bit 8 val AND 0xFF), ucast (drop_bit 16 val AND 0xFF), ucast (drop_bit 24 val AND 0xFF)]"

definition sof_magic_matches :: "u8 list \<Rightarrow> bool option" where
  "sof_magic_matches data = do { b \<leftarrow> read_bytes data 0 4; Some (b = SOF_MAGIC) }"

definition sof_is_sof :: "u8 list option \<Rightarrow> nat \<Rightarrow> bool option" where
  "sof_is_sof data data_len =
    (case data of
       None \<Rightarrow> Some False
     | Some data \<Rightarrow> if data_len < SOF_HEADER_SIZE then Some False else sof_magic_matches data)"

definition sof_validate_header :: "u8 list option \<Rightarrow> nat \<Rightarrow> sof_result_t option" where
  "sof_validate_header data data_len =
    (case data of
       None \<Rightarrow> Some SOF_ERR_INVALID_SIZE
     | Some data \<Rightarrow>
        if data_len < SOF_HEADER_SIZE then Some SOF_ERR_INVALID_SIZE
        else do {
          magic \<leftarrow> sof_magic_matches data;
          if \<not> magic then Some SOF_ERR_INVALID_MAGIC
          else do {
            b \<leftarrow> read_bytes data 4 2;
            total_size \<leftarrow> sof_read_u32 data 8;
            if b ! 0 \<noteq> 1 then Some SOF_ERR_INVALID_VERSION
            else if b ! 1 \<noteq> SOF_TYPE_BIN \<and> b ! 1 \<noteq> SOF_TYPE_LIB \<and> b ! 1 \<noteq> SOF_TYPE_APP then Some SOF_ERR_INVALID_TYPE
            else if unat total_size > data_len then Some SOF_ERR_INVALID_SIZE
            else Some SOF_OK
          }
        })"

definition sof_read_header :: "u8 list \<Rightarrow> sof_header_t option" where
  \<comment> \<open>the header decoding of \<open>sof_parse\<close>\<close>
  "sof_read_header data = do {
     magic \<leftarrow> read_bytes data 0 4;
     b \<leftarrow> read_bytes data 4 2;
     flags \<leftarrow> sof_read_u16 data 6;
     total_size \<leftarrow> sof_read_u32 data 8;
     meta_offset \<leftarrow> sof_read_u32 data 12;
     meta_count \<leftarrow> sof_read_u16 data 16;
     meta_size \<leftarrow> sof_read_u16 data 18;
     payload_offset \<leftarrow> sof_read_u32 data 20;
     payload_size \<leftarrow> sof_read_u32 data 24;
     sig_offset \<leftarrow> sof_read_u32 data 28;
     sig_size \<leftarrow> sof_read_u32 data 32;
     Some \<lparr> hd_magic = magic, hd_format_version = b ! 0, hd_file_type = b ! 1, hd_flags = flags, hd_total_size = total_size,
       hd_meta_offset = meta_offset, hd_meta_count = meta_count, hd_meta_size = meta_size, hd_payload_offset = payload_offset,
       hd_payload_size = payload_size, hd_sig_offset = sig_offset, hd_sig_size = sig_size \<rparr>
   }"

definition sof_read_entry :: "u8 list \<Rightarrow> nat \<Rightarrow> u8 \<Rightarrow> u8 \<Rightarrow> sof_meta_entry_t \<Rightarrow> sof_meta_entry_t option" where
  \<comment> \<open>filling one entry: at most 63 bytes of the value and a terminator\<close>
  "sof_read_entry data meta_cursor key_id value_len entry = do {
     let copy_len = unat value_len;
     let copy_len = (if copy_len \<ge> SOF_META_VALUE_MAX then SOF_META_VALUE_MAX - 1 else copy_len);
     b \<leftarrow> read_bytes data meta_cursor copy_len;
     value \<leftarrow> write_bytes (me_value entry) 0 (b @ [0]);
     Some (entry\<lparr> me_key := key_id, me_value_len := value_len, me_value := value \<rparr>)
   }"

primrec sof_parse_meta :: "nat \<Rightarrow> nat \<Rightarrow> u8 list \<Rightarrow> nat \<Rightarrow> nat \<Rightarrow> sof_parsed_file_t \<Rightarrow> (sof_result_t \<times> sof_parsed_file_t) option" where
  \<comment> \<open>the loop over \<open>n\<close> remaining entries, starting with entry \<open>i\<close>\<close>
  "sof_parse_meta 0 i data data_len meta_cursor out = Some (SOF_OK, out)"
| "sof_parse_meta (Suc n) i data data_len meta_cursor out =
    (if meta_cursor + 2 > data_len then Some (SOF_ERR_INVALID_META, out)
     else do {
       b \<leftarrow> read_bytes data meta_cursor 2;
       let key_id = b ! 0;
       let value_len = b ! 1;
       let meta_cursor = meta_cursor + 2;
       if meta_cursor + unat value_len > data_len then Some (SOF_ERR_INVALID_META, out)
       else do {
         entry \<leftarrow> sof_read_entry data meta_cursor key_id value_len (sp_meta out ! i);
         sof_parse_meta n (Suc i) data data_len (meta_cursor + unat value_len)
           (out\<lparr> sp_meta := (sp_meta out)[i := entry], sp_meta_count := i + 1 \<rparr>)
       }
     })"

definition sof_signature_present :: "sof_header_t option \<Rightarrow> bool" where
  "sof_signature_present header =
    (case header of None \<Rightarrow> False | Some h \<Rightarrow> hd_sig_offset h \<noteq> 0 \<and> hd_sig_size h \<noteq> 0)"

definition sof_parse :: "u8 list option \<Rightarrow> nat \<Rightarrow> sof_parsed_file_t option \<Rightarrow> (sof_result_t \<times> sof_parsed_file_t option) option" where
  "sof_parse data data_len out =
    (case (data, out) of
       (Some d, Some q) \<Rightarrow>
         if data_len < SOF_HEADER_SIZE then Some (SOF_ERR_INVALID_SIZE, out)
         else do {
           result \<leftarrow> sof_validate_header data data_len;
           if result \<noteq> SOF_OK then Some (result, out)
           else do {
             h \<leftarrow> sof_read_header d;
             let q = q\<lparr> sp_header := h \<rparr>;
             if unat (hd_payload_offset h + hd_payload_size h) > data_len then Some (SOF_ERR_INVALID_SIZE, Some q)
             else if hd_payload_size h = 0 then Some (SOF_ERR_NO_PAYLOAD, Some q)
             else if unat (hd_meta_offset h + ucast (hd_meta_size h)) > data_len then Some (SOF_ERR_INVALID_SIZE, Some q)
             else do {
               let q = q\<lparr> sp_meta_count := 0 \<rparr>;
               (result, q) \<leftarrow> sof_parse_meta (min (unat (hd_meta_count h)) SOF_META_MAX_ENTRIES) 0 d data_len
                 (unat (hd_meta_offset h)) q;
               if result \<noteq> SOF_OK then Some (result, Some q)
               else Some (SOF_OK, Some (q\<lparr> sp_payload := drop (unat (hd_payload_offset h)) d,
                 sp_payload_size := unat (hd_payload_size h),
                 sp_has_signature := (hd_sig_offset h \<noteq> 0 \<and> hd_sig_size h \<noteq> 0) \<rparr>))
             }
           }
         }
     | _ \<Rightarrow> Some (SOF_ERR_INVALID_SIZE, out))"

definition sof_get_meta :: "sof_parsed_file_t option \<Rightarrow> u8 \<Rightarrow> sof_result_t \<times> (u8 list \<times> nat) option" where
  \<comment> \<open>the value pointer and length stored through the out parameters, which are not null\<close>
  "sof_get_meta parsed key =
    (case parsed of
       None \<Rightarrow> (SOF_ERR_INVALID_META, None)
     | Some q \<Rightarrow>
        (case find (\<lambda>i. me_key (sp_meta q ! i) = key) [0..<sp_meta_count q] of
           Some i \<Rightarrow> (SOF_OK, Some (me_value (sp_meta q ! i), unat (me_value_len (sp_meta q ! i))))
         | None \<Rightarrow> (SOF_ERR_INVALID_META, None)))"

definition sof_write_meta_entry :: "u8 list \<Rightarrow> nat \<Rightarrow> nat \<Rightarrow> u8 \<Rightarrow> u8 list option \<Rightarrow> (nat \<times> u8 list) option" where
  "sof_write_meta_entry buf buf_size cursor key_id value =
    (case value of
       None \<Rightarrow> Some (0, buf)
     | Some value \<Rightarrow>
        let value_len = length value;
            value_len = (if value_len > 255 then 255 else value_len)
        in if cursor + 2 + value_len > buf_size then Some (0, buf)
           else do {
             buf \<leftarrow> write_bytes buf cursor [key_id, of_nat value_len];
             buf \<leftarrow> write_bytes buf (cursor + 2) (take value_len value);
             Some (2 + value_len, buf)
           })"

definition sof_meta_fields :: "sof_build_params_t \<Rightarrow> (u8 \<times> u8 list option) list" where
  \<comment> \<open>the order in which \<open>sof_build\<close> handles the optional strings\<close>
  "sof_meta_fields params =
    [(SOF_META_NAME, sb_name params), (SOF_META_DESCRIPTION, sb_description params), (SOF_META_AUTHOR, sb_author params),
     (SOF_META_VERSION, sb_version params), (SOF_META_DATE, sb_date params), (SOF_META_ICON, sb_icon params),
     (SOF_META_SYSCALL_ID, sb_syscall_id params)]"

primrec sof_dry_run :: "(u8 \<times> u8 list option) list \<Rightarrow> nat \<Rightarrow> u16 \<Rightarrow> nat \<times> u16" where
  "sof_dry_run [] dry_meta_size meta_count = (dry_meta_size, meta_count)"
| "sof_dry_run (f # fs) dry_meta_size meta_count =
    (case snd f of
       None \<Rightarrow> sof_dry_run fs dry_meta_size meta_count
     | Some value \<Rightarrow> sof_dry_run fs (dry_meta_size + (2 + length value)) (meta_count + 1))"

primrec sof_write_metas :: "(u8 \<times> u8 list option) list \<Rightarrow> nat \<Rightarrow> nat \<Rightarrow> u8 list \<Rightarrow> u8 list option" where
  "sof_write_metas [] buf_size meta_cursor buf = Some buf"
| "sof_write_metas (f # fs) buf_size meta_cursor buf =
    (case snd f of
       None \<Rightarrow> sof_write_metas fs buf_size meta_cursor buf
     | Some value \<Rightarrow> do {
         (written, buf) \<leftarrow> sof_write_meta_entry buf buf_size meta_cursor (fst f) (Some value);
         sof_write_metas fs buf_size (meta_cursor + written) buf
       })"

definition sof_write_header :: "u8 list \<Rightarrow> u8 \<Rightarrow> nat \<Rightarrow> u16 \<Rightarrow> nat \<Rightarrow> nat \<Rightarrow> nat \<Rightarrow> u8 list option" where
  "sof_write_header buf file_type total_size meta_count meta_written payload_start elf_payload_size = do {
     buf \<leftarrow> write_bytes buf 0 SOF_MAGIC;
     buf \<leftarrow> write_bytes buf 4 [1, file_type];
     buf \<leftarrow> sof_write_u16 buf 6 0;
     buf \<leftarrow> sof_write_u32 buf 8 (of_nat total_size);
     buf \<leftarrow> sof_write_u32 buf 12 (of_nat SOF_HEADER_SIZE);
     buf \<leftarrow> sof_write_u16 buf 16 meta_count;
     buf \<leftarrow> sof_write_u16 buf 18 (of_nat meta_written);
     buf \<leftarrow> sof_write_u32 buf 20 (of_nat payload_start);
     buf \<leftarrow> sof_write_u32 buf 24 (of_nat elf_payload_size);
     buf \<leftarrow> sof_write_u32 buf 28 0;
     sof_write_u32 buf 32 0
   }"

definition sof_build ::
  "sof_build_params_t option \<Rightarrow> u8 list option \<Rightarrow> nat \<Rightarrow> nat option \<Rightarrow> (sof_result_t \<times> u8 list option \<times> nat option) option" where
  "sof_build params out_buffer out_buffer_size out_total_size =
    (case (params, out_buffer, out_total_size) of
       (Some params, Some buf, Some _) \<Rightarrow>
         (case sb_elf_payload params of
            None \<Rightarrow> Some (SOF_ERR_NO_PAYLOAD, out_buffer, out_total_size)
          | Some elf_payload \<Rightarrow>
             if sb_elf_payload_size params = 0 then Some (SOF_ERR_NO_PAYLOAD, out_buffer, out_total_size)
             else if sb_file_type params \<noteq> SOF_TYPE_BIN \<and> sb_file_type params \<noteq> SOF_TYPE_LIB
             then Some (SOF_ERR_INVALID_TYPE, out_buffer, out_total_size)
             else
               let (meta_written, meta_count) = sof_dry_run (sof_meta_fields params) 0 0;
                   payload_start = SOF_HEADER_SIZE + meta_written;
                   total_size = (payload_start + sb_elf_payload_size params) mod 2 ^ 64
               in if total_size > out_buffer_size then Some (SOF_ERR_BUFFER_TOO_SMALL, out_buffer, out_total_size)
                  else do {
                    buf \<leftarrow> sof_memzero buf total_size;
                    buf \<leftarrow> sof_write_header buf (sb_file_type params) total_size meta_count meta_written payload_start
                      (sb_elf_payload_size params);
                    buf \<leftarrow> sof_write_metas (sof_meta_fields params) out_buffer_size SOF_HEADER_SIZE buf;
                    payload \<leftarrow> read_bytes elf_payload 0 (sb_elf_payload_size params);
                    buf \<leftarrow> write_bytes buf payload_start payload;
                    Some (SOF_OK, Some buf, Some total_size)
                  })
     | _ \<Rightarrow> Some (SOF_ERR_INVALID_SIZE, out_buffer, out_total_size))"

definition sof_mem_equal :: "u8 list \<Rightarrow> u8 list \<Rightarrow> nat \<Rightarrow> bool" where
  "sof_mem_equal a b len \<longleftrightarrow> fold (\<lambda>i diff. diff OR (a ! i XOR b ! i)) [0..<len] 0 = 0"

definition sof_verify_signature ::
  "sha512_ctx_t \<Rightarrow> cert_root \<Rightarrow> u8 list option \<Rightarrow> nat \<Rightarrow> sof_parsed_file_t option \<Rightarrow> sof_result_t option" where
  "sof_verify_signature ctx root data data_len parsed =
    (case (data, parsed) of
       (Some data, Some q) \<Rightarrow>
         if \<not> sof_signature_present (Some (sp_header q)) then Some SOF_OK
         else if unat (hd_sig_size (sp_header q)) < SECUREOS_CERT_TOTAL_SIZE + 64 then Some SOF_ERR_SIGNATURE_INVALID
         else if unat (hd_sig_offset (sp_header q) + hd_sig_size (sp_header q)) > data_len then Some SOF_ERR_SIGNATURE_INVALID
         else do {
           let sig_section = drop (unat (hd_sig_offset (sp_header q))) data;
           let cert = \<lparr> ct_magic = [], ct_issuer_key_hash = [], ct_subject_public_key = [], ct_signature = [] \<rparr>;
           (cert_res, cert) \<leftarrow> cert_parse (Some sig_section) SECUREOS_CERT_TOTAL_SIZE (Some cert);
           if cert_res \<noteq> CERT_OK then Some SOF_ERR_SIGNATURE_INVALID
           else do {
             cert \<leftarrow> cert;
             let root_pk = cert_get_root_public_key root;
             let root_hash = ed25519_public_key_hash ctx root_pk;
             if \<not> sof_mem_equal (ct_issuer_key_hash cert) root_hash 32 then Some SOF_ERR_SIGNATURE_INVALID
             else do {
               chain_res \<leftarrow> cert_verify ctx (Some cert) (Some root_pk);
               if chain_res \<noteq> CERT_OK then Some SOF_ERR_SIGNATURE_INVALID
               else do {
                 sig_bytes \<leftarrow> read_bytes sig_section SECUREOS_CERT_TOTAL_SIZE 64;
                 payload \<leftarrow> read_bytes (sp_payload q) 0 (sp_payload_size q);
                 let payload_hash = sha512_hash ctx (Some payload);
                 sig_res \<leftarrow> ed25519_verify ctx (Some sig_bytes) (Some payload_hash) (Some (ct_subject_public_key cert));
                 Some (if sig_res \<noteq> ED25519_OK then SOF_ERR_SIGNATURE_INVALID else SOF_OK)
               }
             }
           }
         }
     | _ \<Rightarrow> Some SOF_ERR_INVALID_SIZE)"

definition sof_build_signed ::
  "sha512_ctx_t \<Rightarrow> sof_build_params_t option \<Rightarrow> u8 list option \<Rightarrow> u8 list option \<Rightarrow> u8 list option \<Rightarrow> nat \<Rightarrow>
   u8 list option \<Rightarrow> nat \<Rightarrow> nat option \<Rightarrow> (sof_result_t \<times> u8 list option \<times> nat option) option" where
  "sof_build_signed ctx params signing_private_key signing_public_key cert_data cert_data_len out_buffer out_buffer_size out_total_size =
    (case (params, signing_private_key, signing_public_key, cert_data, out_buffer, out_total_size) of
       (Some _, Some private_key, Some public_key, Some cert_data, Some _, Some _) \<Rightarrow>
         if cert_data_len < SECUREOS_CERT_TOTAL_SIZE then Some (SOF_ERR_INVALID_SIZE, out_buffer, out_total_size)
         else do {
           let sig_section_size = SECUREOS_CERT_TOTAL_SIZE + 64;
           (result, out_buffer, unsigned_size) \<leftarrow> sof_build params out_buffer out_buffer_size (Some 0);
           if result \<noteq> SOF_OK then Some (result, out_buffer, out_total_size)
           else do {
             unsigned_size \<leftarrow> unsigned_size;
             buf \<leftarrow> out_buffer;
             let total_signed_size = unsigned_size + sig_section_size;
             if total_signed_size > out_buffer_size then Some (SOF_ERR_BUFFER_TOO_SMALL, out_buffer, out_total_size)
             else do {
               payload_offset \<leftarrow> sof_read_u32 buf 20;
               payload_size \<leftarrow> sof_read_u32 buf 24;
               payload \<leftarrow> read_bytes buf (unat payload_offset) (unat payload_size);
               let payload_hash = sha512_hash ctx (Some payload);
               seed \<leftarrow> read_bytes private_key 0 32;
               pk \<leftarrow> read_bytes public_key 0 32;
               signature \<leftarrow> ed25519_sign ctx (Some payload_hash) pk (seed @ pk);
               cert \<leftarrow> read_bytes cert_data 0 SECUREOS_CERT_TOTAL_SIZE;
               buf \<leftarrow> write_bytes buf unsigned_size cert;
               buf \<leftarrow> write_bytes buf (unsigned_size + SECUREOS_CERT_TOTAL_SIZE) signature;
               buf \<leftarrow> sof_write_u32 buf 8 (of_nat total_signed_size);
               buf \<leftarrow> sof_write_u32 buf 28 (of_nat unsigned_size);
               buf \<leftarrow> sof_write_u32 buf 32 (of_nat sig_section_size);
               Some (SOF_OK, Some buf, Some total_signed_size)
             }
           }
         }
     | _ \<Rightarrow> Some (SOF_ERR_INVALID_SIZE, out_buffer, out_total_size))"

definition sof_parse_app_bundle :: "u8 list option \<Rightarrow> nat \<Rightarrow> sof_parsed_file_t option \<Rightarrow> sof_result_t option" where
  "sof_parse_app_bundle data data_len out =
    (case (data, out) of
       (Some d, Some _) \<Rightarrow>
         if data_len < SOF_HEADER_SIZE then Some SOF_ERR_INVALID_SIZE
         else do {
           result \<leftarrow> sof_validate_header data data_len;
           if result \<noteq> SOF_OK then Some result
           else do {
             b \<leftarrow> read_bytes d 5 1;
             if b ! 0 \<noteq> SOF_TYPE_APP then Some SOF_ERR_INVALID_TYPE else Some SOF_ERR_INVALID_TYPE
           }
         }
     | _ \<Rightarrow> Some SOF_ERR_INVALID_SIZE)"

section \<open>Specification\<close>

definition le16 :: "u8 list \<Rightarrow> u16" where
  "le16 b = ucast (b ! 0) OR push_bit 8 (ucast (b ! 1))"

definition le32 :: "u8 list \<Rightarrow> u32" where
  "le32 b = ucast (b ! 0) OR push_bit 8 (ucast (b ! 1)) OR push_bit 16 (ucast (b ! 2)) OR push_bit 24 (ucast (b ! 3))"

definition header_of :: "u8 list \<Rightarrow> sof_header_t" where
  "header_of d = \<lparr> hd_magic = take 4 d, hd_format_version = d ! 4, hd_file_type = d ! 5, hd_flags = le16 (drop 6 d),
     hd_total_size = le32 (drop 8 d), hd_meta_offset = le32 (drop 12 d), hd_meta_count = le16 (drop 16 d),
     hd_meta_size = le16 (drop 18 d), hd_payload_offset = le32 (drop 20 d), hd_payload_size = le32 (drop 24 d),
     hd_sig_offset = le32 (drop 28 d), hd_sig_size = le32 (drop 32 d) \<rparr>"

type_synonym tlv = "u8 \<times> u8 list"

primrec tlv_decode :: "nat \<Rightarrow> u8 list \<Rightarrow> tlv list option" where
  \<comment> \<open>\<open>n\<close> entries of key, length and value from the front of the bytes\<close>
  "tlv_decode 0 bs = Some []"
| "tlv_decode (Suc n) bs =
    (case bs of
       k # l # bs \<Rightarrow>
         if unat l \<le> length bs then map_option (Cons (k, take (unat l) bs)) (tlv_decode n (drop (unat l) bs)) else None
     | _ \<Rightarrow> None)"

definition tlv_encode :: "tlv list \<Rightarrow> u8 list" where
  "tlv_encode es = concat (map (\<lambda>(k, v). k # of_nat (length v) # v) es)"

definition meta_count :: "u8 list \<Rightarrow> nat" where
  "meta_count d = min (unat (hd_meta_count (header_of d))) SOF_META_MAX_ENTRIES"

definition metadata :: "u8 list \<Rightarrow> tlv list option" where
  "metadata d = tlv_decode (meta_count d) (drop (unat (hd_meta_offset (header_of d))) d)"

definition sof_verdict :: "u8 list \<Rightarrow> sof_result_t" where
  \<comment> \<open>what parsing says about a file, check by check\<close>
  "sof_verdict d =
    (let h = header_of d in
     if length d < 36 then SOF_ERR_INVALID_SIZE
     else if hd_magic h \<noteq> SOF_MAGIC then SOF_ERR_INVALID_MAGIC
     else if hd_format_version h \<noteq> 1 then SOF_ERR_INVALID_VERSION
     else if hd_file_type h \<notin> {SOF_TYPE_BIN, SOF_TYPE_LIB, SOF_TYPE_APP} then SOF_ERR_INVALID_TYPE
     else if unat (hd_total_size h) > length d then SOF_ERR_INVALID_SIZE
     else if (unat (hd_payload_offset h) + unat (hd_payload_size h)) mod 2 ^ 32 > length d then SOF_ERR_INVALID_SIZE
     else if hd_payload_size h = 0 then SOF_ERR_NO_PAYLOAD
     else if (unat (hd_meta_offset h) + unat (hd_meta_size h)) mod 2 ^ 32 > length d then SOF_ERR_INVALID_SIZE
     else if metadata d = None then SOF_ERR_INVALID_META
     else SOF_OK)"

definition bytes16 :: "u16 \<Rightarrow> u8 list" where
  "bytes16 v = [ucast (v AND 0xFF), ucast (drop_bit 8 v AND 0xFF)]"

definition bytes32 :: "u32 \<Rightarrow> u8 list" where
  "bytes32 v = [ucast (v AND 0xFF), ucast (drop_bit 8 v AND 0xFF), ucast (drop_bit 16 v AND 0xFF), ucast (drop_bit 24 v AND 0xFF)]"

definition encode_header :: "sof_header_t \<Rightarrow> u8 list" where
  "encode_header h = hd_magic h @ [hd_format_version h, hd_file_type h] @ bytes16 (hd_flags h) @ bytes32 (hd_total_size h) @
     bytes32 (hd_meta_offset h) @ bytes16 (hd_meta_count h) @ bytes16 (hd_meta_size h) @ bytes32 (hd_payload_offset h) @
     bytes32 (hd_payload_size h) @ bytes32 (hd_sig_offset h) @ bytes32 (hd_sig_size h)"

definition present :: "(u8 \<times> u8 list option) list \<Rightarrow> tlv list" where
  "present fs = concat (map (\<lambda>(k, v). case v of None \<Rightarrow> [] | Some v \<Rightarrow> [(k, v)]) fs)"

definition clip :: "tlv \<Rightarrow> tlv" where
  "clip = (\<lambda>(k, v). (k, take 255 v))"

definition meta_bytes :: "sof_build_params_t \<Rightarrow> nat" where
  \<comment> \<open>the room reserved for the metadata\<close>
  "meta_bytes p = sum_list (map (\<lambda>(k, v). 2 + length v) (present (sof_meta_fields p)))"

definition file_size :: "sof_build_params_t \<Rightarrow> nat" where
  "file_size p = 36 + meta_bytes p + sb_elf_payload_size p"

definition built_header :: "sof_build_params_t \<Rightarrow> sof_header_t" where
  "built_header p = \<lparr> hd_magic = SOF_MAGIC, hd_format_version = 1, hd_file_type = sb_file_type p, hd_flags = 0,
     hd_total_size = of_nat (file_size p), hd_meta_offset = 36, hd_meta_count = of_nat (length (present (sof_meta_fields p))),
     hd_meta_size = of_nat (meta_bytes p), hd_payload_offset = of_nat (36 + meta_bytes p),
     hd_payload_size = of_nat (sb_elf_payload_size p), hd_sig_offset = 0, hd_sig_size = 0 \<rparr>"

definition file_body :: "sof_build_params_t \<Rightarrow> u8 list" where
  \<comment> \<open>metadata, the unused part of the room reserved for it, payload\<close>
  "file_body p =
    (let ms = tlv_encode (map clip (present (sof_meta_fields p)))
     in ms @ replicate (meta_bytes p - length ms) 0 @ the (sb_elf_payload p))"

definition buildable :: "sof_build_params_t \<Rightarrow> bool" where
  "buildable p \<longleftrightarrow> sb_file_type p \<in> {SOF_TYPE_BIN, SOF_TYPE_LIB} \<and>
     (\<exists>pl. sb_elf_payload p = Some pl \<and> pl \<noteq> [] \<and> sb_elf_payload_size p = length pl)"

definition file_payload :: "sof_header_t \<Rightarrow> u8 list \<Rightarrow> u8 list" where
  "file_payload h d = take (unat (hd_payload_size h)) (drop (unat (hd_payload_offset h)) d)"

definition signed_under :: "u8 list \<Rightarrow> sof_header_t \<Rightarrow> u8 list \<Rightarrow> bool" where
  \<comment> \<open>the signature section holds a certificate of the key and a signature of the payload by the certified key\<close>
  "signed_under pk h d \<longleftrightarrow>
    (let s = drop (unat (hd_sig_offset h)) d; c = cert_of_bytes s
     in 196 \<le> unat (hd_sig_size h) \<and> unat (hd_sig_offset h) + unat (hd_sig_size h) \<le> length d \<and>
        ct_magic c = CERT_MAGIC \<and> vouches pk c \<and>
        rfc_verify (take 64 (drop 132 s)) (fips_sha512 (file_payload h d)) (ct_subject_public_key c) = ED25519_OK)"

definition parsed_wf :: "sof_parsed_file_t \<Rightarrow> bool" where
  \<comment> \<open>the arrays have the sizes of the struct\<close>
  "parsed_wf q \<longleftrightarrow> length (sp_meta q) = SOF_META_MAX_ENTRIES \<and> (\<forall>e\<in>set (sp_meta q). length (me_value e) = SOF_META_VALUE_MAX)"

definition entry_holds :: "sof_meta_entry_t \<Rightarrow> tlv \<Rightarrow> bool" where
  \<comment> \<open>the full length, but only the first 63 bytes and a terminator\<close>
  "entry_holds e = (\<lambda>(k, v). me_key e = k \<and> unat (me_value_len e) = length v \<and>
     take (min (length v) 63 + 1) (me_value e) = take 63 v @ [0])"

definition holds_metas :: "sof_parsed_file_t \<Rightarrow> tlv list \<Rightarrow> bool" where
  "holds_metas q es \<longleftrightarrow> sp_meta_count q = length es \<and> list_all2 entry_holds (take (sp_meta_count q) (sp_meta q)) es"

section \<open>Lemmas\<close>

subsection \<open>Bytes\<close>

lemma byte_mask: "(0xFF :: 'a :: len word) = mask 8"
  by (simp add: mask_eq_exp_minus_1)

lemma le16_bytes: "le16 (ucast (v AND 0xFF) # ucast (drop_bit 8 v AND 0xFF) # r) = v" for v :: u16
  by (rule bit_word_eqI) (auto simp: le16_def byte_mask bit_simps)

lemma le32_bytes:
  "le32 (ucast (v AND 0xFF) # ucast (drop_bit 8 v AND 0xFF) # ucast (drop_bit 16 v AND 0xFF) # ucast (drop_bit 24 v AND 0xFF) # r) = v"
  for v :: u32
proof (rule bit_word_eqI)
  fix n assume "n < LENGTH(32)"
  then consider "n < 8" | "8 \<le> n" "n < 16" | "16 \<le> n" "n < 24" | "24 \<le> n" "n < 32" by fastforce
  then show "bit (le32 (ucast (v AND 0xFF) # ucast (drop_bit 8 v AND 0xFF) # ucast (drop_bit 16 v AND 0xFF) #
    ucast (drop_bit 24 v AND 0xFF) # r)) n \<longleftrightarrow> bit v n"
    by cases (auto simp: le32_def byte_mask bit_simps)
qed

lemma read_u16_in: "off + 2 \<le> length buf \<Longrightarrow> sof_read_u16 buf off = Some (le16 (drop off buf))"
  by (simp add: sof_read_u16_def read_bytes_in le16_def)

lemma read_u32_in: "off + 4 \<le> length buf \<Longrightarrow> sof_read_u32 buf off = Some (le32 (drop off buf))"
  by (simp add: sof_read_u32_def read_bytes_in le32_def)

lemma write_bytes_in: "off + length bs \<le> length buf \<Longrightarrow> write_bytes buf off bs = Some (buf_put off bs buf)"
  by (simp add: write_bytes_def)

lemma write_here: "length old = length bs \<Longrightarrow> write_bytes (pre @ old @ post) (length pre) bs = Some (pre @ bs @ post)"
  by (simp add: write_bytes_def buf_put_def)

subsection \<open>Header\<close>

lemma sof_read_header_eq: "36 \<le> length d \<Longrightarrow> sof_read_header d = Some (header_of d)"
  by (simp add: sof_read_header_def read_bytes_in read_u16_in read_u32_in header_of_def)

lemma sof_validate_header_eq:
  assumes "36 \<le> length d"
  shows "sof_validate_header (Some d) (length d) =
    Some (let h = header_of d in
      if hd_magic h \<noteq> SOF_MAGIC then SOF_ERR_INVALID_MAGIC
      else if hd_format_version h \<noteq> 1 then SOF_ERR_INVALID_VERSION
      else if hd_file_type h \<notin> {SOF_TYPE_BIN, SOF_TYPE_LIB, SOF_TYPE_APP} then SOF_ERR_INVALID_TYPE
      else if unat (hd_total_size h) > length d then SOF_ERR_INVALID_SIZE else SOF_OK)"
  using assms by (simp add: sof_validate_header_def sof_magic_matches_def read_bytes_in read_u32_in header_of_def Let_def)

subsection \<open>Metadata\<close>

lemma tlv_decode_encode:
  "\<forall>(k, v)\<in>set es. length v \<le> 255 \<Longrightarrow> tlv_decode (length es) (tlv_encode es @ r) = Some es"
  by (induction es) (auto simp: tlv_encode_def unat_of_nat take_bit_nat_eq_self_iff)

lemma tlv_decode_length: "tlv_decode n bs = Some es \<Longrightarrow> length es = n"
  by (induction n arbitrary: bs es) (auto split: list.splits if_splits)

lemma sof_read_entry_ok:
  assumes "c + unat l \<le> length d" "length (me_value e) = 64"
  shows "\<exists>e'. sof_read_entry d c k l e = Some e' \<and> entry_holds e' (k, take (unat l) (drop c d)) \<and> length (me_value e') = 64"
proof -
  define n where "n = (if unat l \<ge> 64 then 63 else unat l)"
  have n: "n \<le> unat l" "n < 64" "n = min (unat l) 63" by (auto simp: n_def)
  have r: "read_bytes d c n = Some (take n (drop c d))" using assms n by (simp add: read_bytes_in)
  have len: "length (take n (drop c d)) = n" using assms n by simp
  have w: "write_bytes (me_value e) 0 (take n (drop c d) @ [0]) = Some (take n (drop c d) @ 0 # drop (Suc n) (me_value e))"
    using assms len n by (simp add: write_bytes_def buf_put_def)
  have eq: "sof_read_entry d c k l e =
    Some (e\<lparr> me_key := k, me_value_len := l, me_value := take n (drop c d) @ 0 # drop (Suc n) (me_value e) \<rparr>)"
    using r w by (auto simp: sof_read_entry_def Let_def n_def split: if_splits)
  have "length (take (unat l) (drop c d)) = unat l" "take 63 (take (unat l) (drop c d)) = take n (drop c d)"
    using assms n by (simp_all add: min.commute)
  then show ?thesis using eq len n assms by (simp add: entry_holds_def)
qed

lemma holds_metas_snoc:
  assumes "parsed_wf q" "holds_metas q es" "length es < 12" "entry_holds e x" "length (me_value e) = 64"
  defines "q' \<equiv> q\<lparr> sp_meta := (sp_meta q)[length es := e], sp_meta_count := length es + 1 \<rparr>"
  shows "parsed_wf q'" "holds_metas q' (es @ [x])" "sp_header q' = sp_header q"
proof -
  show "parsed_wf q'" using assms by (auto simp: parsed_wf_def dest: subsetD [OF set_update_subset_insert])
  have "take (Suc (length es)) ((sp_meta q)[length es := e]) = take (length es) (sp_meta q) @ [e]"
    using assms by (simp add: parsed_wf_def take_Suc_conv_app_nth)
  then show "holds_metas q' (es @ [x])" using assms by (auto simp: holds_metas_def intro: list_all2_appendI)
qed (simp add: q'_def)

lemma sof_parse_meta_eq:
  assumes "parsed_wf out" "holds_metas out es0" "length es0 + n \<le> 12"
  shows "\<exists>q. sof_parse_meta n (length es0) d (length d) c out =
      Some (if tlv_decode n (drop c d) = None then SOF_ERR_INVALID_META else SOF_OK, q) \<and>
    sp_header q = sp_header out \<and> parsed_wf q \<and> (\<forall>es. tlv_decode n (drop c d) = Some es \<longrightarrow> holds_metas q (es0 @ es))"
  using assms
proof (induction n arbitrary: es0 c out)
  case 0
  then show ?case by simp
next
  case (Suc n)
  show ?case
  proof (cases "c + 2 \<le> length d")
    case False
    then have "tlv_decode (Suc n) (drop c d) = None" by (auto split: list.split dest!: arg_cong [of _ _ length])
    then show ?thesis using False Suc.prems by simp
  next
    case True
    then have dr: "drop c d = d ! c # d ! Suc c # drop (c + 2) d" by (simp add: Cons_nth_drop_Suc)
    then have rd: "read_bytes d c 2 = Some [d ! c, d ! Suc c]" using True by (simp add: read_bytes_in)
    show ?thesis
    proof (cases "c + 2 + unat (d ! Suc c) \<le> length d")
      case False
      then have "\<not> unat (d ! Suc c) \<le> length (drop (c + 2) d)" using True by simp
      then have "tlv_decode (Suc n) (drop c d) = None" unfolding dr by simp
      then show ?thesis using False True Suc.prems rd by (simp add: Let_def)
    next
      case fits: True
      have i: "length es0 < 12" "length (me_value (sp_meta out ! length es0)) = 64" using Suc.prems by (auto simp: parsed_wf_def)
      define v where "v = take (unat (d ! Suc c)) (drop (c + 2) d)"
      obtain e where e: "sof_read_entry d (c + 2) (d ! c) (d ! Suc c) (sp_meta out ! length es0) = Some e"
          "entry_holds e (d ! c, v)" "length (me_value e) = 64"
        using sof_read_entry_ok [OF fits i(2), of "d ! c"] by (auto simp: v_def)
      note out' = holds_metas_snoc [OF Suc.prems(1,2) i(1) e(2,3)]
      have dec: "tlv_decode (Suc n) (drop c d) = map_option (Cons (d ! c, v)) (tlv_decode n (drop (c + 2 + unat (d ! Suc c)) d))"
      proof -
        have "unat (d ! Suc c) \<le> length (drop (c + 2) d)" using fits by simp
        then show ?thesis unfolding dr by (simp add: v_def add.commute add.left_commute)
      qed
      show ?thesis
        using Suc.IH [OF out'(1,2), of "c + 2 + unat (d ! Suc c)"] Suc.prems(3) out'(3) True fits rd e(1) dec by (auto simp: Let_def)
    qed
  qed
qed

subsection \<open>Parsing\<close>

lemma unat_add_32: "unat (a + b) = (unat a + unat b) mod 2 ^ 32" for a b :: u32
  by (simp add: unat_word_ariths)

lemma unat_ucast_16: "unat (ucast x :: u32) = unat x" for x :: u16
  using unsigned_less [of x, where ?'a = nat] by (simp add: unsigned_ucast_eq take_bit_nat_eq_self)

lemma sof_parse_eq:
  assumes q: "parsed_wf q"
  shows "\<exists>q'. sof_parse (Some d) (length d) (Some q) = Some (sof_verdict d, Some q') \<and> parsed_wf q' \<and>
    (sof_verdict d = SOF_OK \<longrightarrow> sp_header q' = header_of d \<and> sp_payload q' = drop (unat (hd_payload_offset (header_of d))) d \<and>
       sp_payload_size q' = unat (hd_payload_size (header_of d)) \<and>
       sp_has_signature q' = sof_signature_present (Some (header_of d)) \<and> holds_metas q' (the (metadata d)))"
proof (cases "36 \<le> length d")
  case False
  then show ?thesis using q by (simp add: sof_parse_def sof_verdict_def)
next
  case True
  let ?q = "q\<lparr> sp_header := header_of d, sp_meta_count := 0 \<rparr>"
  have "parsed_wf ?q" "holds_metas ?q []" "length ([] :: tlv list) + meta_count d \<le> 12"
    using q by (simp_all add: parsed_wf_def holds_metas_def meta_count_def)
  from sof_parse_meta_eq [OF this, of d "unat (hd_meta_offset (header_of d))"] obtain q1 where
    q1: "sof_parse_meta (meta_count d) 0 d (length d) (unat (hd_meta_offset (header_of d))) ?q =
        Some (if metadata d = None then SOF_ERR_INVALID_META else SOF_OK, q1)"
      "sp_header q1 = header_of d" "parsed_wf q1" "\<And>es. metadata d = Some es \<Longrightarrow> holds_metas q1 es"
    by (auto simp: metadata_def)
  have "parsed_wf (q\<lparr> sp_header := h \<rparr>)" for h using q by (simp add: parsed_wf_def)
  moreover have "parsed_wf (q1\<lparr> sp_payload := a, sp_payload_size := b, sp_has_signature := c \<rparr>)"
    "holds_metas (q1\<lparr> sp_payload := a, sp_payload_size := b, sp_has_signature := c \<rparr>) es = holds_metas q1 es" for a b c es
    using q1(3) by (simp_all add: parsed_wf_def holds_metas_def)
  moreover note q1 q
  ultimately show ?thesis
    using True unfolding sof_parse_def sof_verdict_def Let_def
    by (auto simp: sof_validate_header_eq sof_read_header_eq Let_def unat_add_32 unat_ucast_16 meta_count_def sof_signature_present_def)
qed

subsection \<open>Building\<close>

lemmas write_u_defs = sof_write_u16_def sof_write_u32_def bytes16_def [symmetric] bytes32_def [symmetric]

lemma length_bytes [simp]: "length (bytes16 v) = 2" "length (bytes32 w) = 4"
  by (simp_all add: bytes16_def bytes32_def)

lemma length_encode_header [simp]: "length (hd_magic h) = 4 \<Longrightarrow> length (encode_header h) = 36"
  by (simp add: encode_header_def)

lemma le_bytes16 [simp]: "le16 (bytes16 v @ r) = v"
  by (simp add: bytes16_def le16_bytes)

lemma le_bytes32 [simp]: "le32 (bytes32 v @ r) = v"
  by (simp add: bytes32_def le32_bytes)

lemma header_of_encode: "length (hd_magic h) = 4 \<Longrightarrow> header_of (encode_header h @ r) = h"
  by (simp add: header_of_def encode_header_def nth_append)

lemma write_next: "length pre = off \<Longrightarrow> length bs \<le> length old \<Longrightarrow> write_bytes (pre @ old) off bs = Some (pre @ bs @ drop (length bs) old)"
  by (auto simp: write_bytes_def buf_put_def)

lemma sof_write_meta_entry_eq:
  assumes "length pre = c" "length v' = 2 + min 255 (length v)" "c + 2 + min 255 (length v) \<le> n"
  shows "sof_write_meta_entry (pre @ v' @ post) n c k (Some v) =
    Some (2 + min 255 (length v), pre @ tlv_encode [clip (k, v)] @ post)"
proof -
  obtain a b w where v': "v' = a # b # w" "length w = min 255 (length v)"
    using assms(2) by (cases v'; cases "tl v'") auto
  show ?thesis using assms v'
    by (cases "255 < length v") (simp_all add: sof_write_meta_entry_def Let_def write_bytes_def buf_put_def tlv_encode_def clip_def)
qed

lemma tlv_encode_simps [simp]:
  "tlv_encode [] = []" "tlv_encode (e # es) = (fst e # of_nat (length (snd e)) # snd e) @ tlv_encode es"
  by (simp_all add: tlv_encode_def case_prod_unfold)

lemma present_simps [simp]:
  "present [] = []" "present ((k, None) # fs) = present fs" "present ((k, Some v) # fs) = (k, v) # present fs"
  by (simp_all add: present_def)

lemma sof_dry_run_eq:
  "sof_dry_run fs s c = (s + sum_list (map (\<lambda>(k, v). 2 + length v) (present fs)), c + of_nat (length (present fs)))"
  by (induction fs arbitrary: s c) (auto split: option.split)

lemma clipped_length: "length (tlv_encode (map clip es)) \<le> sum_list (map (\<lambda>(k, v). 2 + length v) es)"
  by (induction es) (auto simp: clip_def)

lemma sof_write_metas_eq:
  assumes "length pre = c" "c + length (tlv_encode (map clip (present fs))) \<le> n" "length (tlv_encode (map clip (present fs))) \<le> length old"
  shows "sof_write_metas fs n c (pre @ old) =
    Some (pre @ tlv_encode (map clip (present fs)) @ drop (length (tlv_encode (map clip (present fs)))) old)"
  using assms
proof (induction fs arbitrary: pre c old)
  case Nil
  then show ?case by simp
next
  case (Cons f fs)
  obtain k v where f: "f = (k, v)" by (cases f)
  show ?case
  proof (cases v)
    case None
    then show ?thesis using Cons f by simp
  next
    case (Some v)
    define m where "m = 2 + min 255 (length v)"
    have len: "length (tlv_encode [clip (k, v)]) = m" by (simp add: clip_def m_def)
    have "sof_write_meta_entry (pre @ take m old @ drop m old) n c k (Some v) = Some (m, pre @ tlv_encode [clip (k, v)] @ drop m old)"
      using Cons.prems f Some by (subst sof_write_meta_entry_eq) (auto simp: m_def clip_def)
    moreover have "sof_write_metas fs n (c + m) ((pre @ tlv_encode [clip (k, v)]) @ drop m old) =
      Some ((pre @ tlv_encode [clip (k, v)]) @ tlv_encode (map clip (present fs)) @ drop (length (tlv_encode (map clip (present fs)))) (drop m old))"
      using Cons.prems f Some len by (intro Cons.IH) (auto simp: m_def clip_def)
    ultimately show ?thesis using f Some by (simp add: m_def clip_def add.commute min.commute)
  qed
qed

lemma bytes_constants: "bytes16 0 = [0, 0]" "bytes32 0 = [0, 0, 0, 0]" "bytes32 36 = [36, 0, 0, 0]"
  by (simp_all add: bytes16_def bytes32_def)

lemma sof_write_header_eq:
  assumes "length z = 36"
  shows "sof_write_header (z @ r) ft tot mc mw ps es =
    Some (encode_header \<lparr> hd_magic = SOF_MAGIC, hd_format_version = 1, hd_file_type = ft, hd_flags = 0, hd_total_size = of_nat tot,
      hd_meta_offset = 36, hd_meta_count = mc, hd_meta_size = of_nat mw, hd_payload_offset = of_nat ps, hd_payload_size = of_nat es,
      hd_sig_offset = 0, hd_sig_size = 0 \<rparr> @ r)"
  using assms by (simp add: sof_write_header_def write_u_defs write_bytes_def buf_put_def encode_header_def SOF_MAGIC_def bytes_constants)

lemma length_file_body: "sb_elf_payload p = Some pl \<Longrightarrow> length (file_body p) = meta_bytes p + length pl"
  using clipped_length [of "present (sof_meta_fields p)"] by (simp add: file_body_def Let_def meta_bytes_def)

lemma sof_build_eq:
  assumes p: "buildable p" and fits: "file_size p \<le> length buf" "file_size p < 2 ^ 64"
  shows "sof_build (Some p) (Some buf) (length buf) (Some n) =
    Some (SOF_OK, Some (encode_header (built_header p) @ file_body p @ drop (file_size p) buf), Some (file_size p))"
proof -
  obtain pl where pl: "sb_elf_payload p = Some pl" "pl \<noteq> []" "sb_elf_payload_size p = length pl" using p by (auto simp: buildable_def)
  define ms where "ms = tlv_encode (map clip (present (sof_meta_fields p)))"
  let ?mb = "meta_bytes p" and ?rest = "drop (file_size p) buf" and ?h = "encode_header (built_header p)"
  have ms: "length ms \<le> ?mb" unfolding ms_def meta_bytes_def by (rule clipped_length)
  have fs: "file_size p = 36 + ?mb + length pl" using pl by (simp add: file_size_def)
  have dry: "sof_dry_run (sof_meta_fields p) 0 0 = (?mb, of_nat (length (present (sof_meta_fields p))))"
    by (simp add: sof_dry_run_eq meta_bytes_def)
  have "sof_memzero buf (file_size p) = Some (replicate (file_size p) 0 @ ?rest)"
    using fits by (simp add: sof_memzero_def write_bytes_def buf_put_def)
  moreover have "replicate (file_size p) (0 :: u8) = replicate 36 0 @ replicate (?mb + length pl) 0"
    by (simp add: fs replicate_add [symmetric])
  ultimately have zero: "sof_memzero buf (file_size p) = Some (replicate 36 0 @ replicate (?mb + length pl) 0 @ ?rest)" by simp
  have head: "sof_write_header (replicate 36 0 @ replicate (?mb + length pl) 0 @ ?rest) (sb_file_type p) (file_size p)
      (of_nat (length (present (sof_meta_fields p)))) ?mb (36 + ?mb) (length pl) =
    Some (?h @ replicate (?mb + length pl) 0 @ ?rest)"
    by (subst sof_write_header_eq) (simp_all add: built_header_def pl)
  have h: "length ?h = 36" by (simp add: built_header_def SOF_MAGIC_def)
  have metas: "sof_write_metas (sof_meta_fields p) (length buf) 36 (?h @ replicate (?mb + length pl) 0 @ ?rest) =
    Some (?h @ ms @ replicate (?mb - length ms) 0 @ replicate (length pl) 0 @ ?rest)"
    using sof_write_metas_eq [of ?h 36 "sof_meta_fields p" "length buf" "replicate (?mb + length pl) 0 @ ?rest", OF h] fits fs ms
    by (simp add: ms_def [symmetric] replicate_add [symmetric])
  have payload: "write_bytes (?h @ ms @ replicate (?mb - length ms) 0 @ replicate (length pl) 0 @ ?rest) (36 + ?mb) pl =
    Some (?h @ file_body p @ ?rest)"
    using write_here [of "replicate (length pl) 0" pl "?h @ ms @ replicate (?mb - length ms) 0" ?rest] h ms
    by (simp add: file_body_def Let_def ms_def [symmetric] pl)
  have rd: "read_bytes pl 0 (length pl) = Some pl" by (simp add: read_bytes_def)
  show ?thesis using p fits pl fs zero head metas payload rd
    by (auto simp: sof_build_def dry buildable_def Let_def)
qed

subsection \<open>Files with a consistent header\<close>

lemma unat_of_nat_le: "unat (of_nat n :: 'a :: len word) \<le> n"
  by (simp add: unat_of_nat take_bit_nat_less_eq_self)

lemma length_present: "length (present fs) \<le> length fs"
  by (induction fs) (auto simp: present_def split: option.split)

lemma present_fields: "length (present (sof_meta_fields p)) \<le> 7"
  using length_present [of "sof_meta_fields p"] by (simp add: sof_meta_fields_def)

definition consistent :: "sof_header_t \<Rightarrow> tlv list \<Rightarrow> nat \<Rightarrow> nat \<Rightarrow> nat \<Rightarrow> bool" where
  \<comment> \<open>the header describes these entries, a payload of \<open>ps\<close> bytes at \<open>po\<close> and a file of \<open>n\<close> bytes\<close>
  "consistent h es po ps n \<longleftrightarrow> hd_magic h = SOF_MAGIC \<and> hd_format_version h = 1 \<and>
     hd_file_type h \<in> {SOF_TYPE_BIN, SOF_TYPE_LIB, SOF_TYPE_APP} \<and> unat (hd_total_size h) \<le> n \<and> hd_meta_offset h = 36 \<and>
     unat (hd_meta_count h) = length es \<and> length es \<le> 12 \<and> (\<forall>(k, v)\<in>set es. length v \<le> 255) \<and>
     36 + unat (hd_meta_size h) \<le> n \<and> unat (hd_payload_offset h) = po \<and> unat (hd_payload_size h) = ps \<and> 0 < ps \<and>
     po + ps \<le> n \<and> n < 2 ^ 32"

lemma consistent_file:
  assumes "consistent h es po ps (length d)" "d = encode_header h @ tlv_encode es @ r"
  shows "header_of d = h" "metadata d = Some es" "sof_verdict d = SOF_OK"
proof -
  have m: "length (hd_magic h) = 4" using assms(1) by (simp add: consistent_def SOF_MAGIC_def)
  then show h: "header_of d = h" unfolding assms(2) by (rule header_of_encode)
  have "meta_count d = length es" "unat (hd_meta_offset h) = 36" using assms(1) h by (auto simp: meta_count_def consistent_def)
  moreover have "drop 36 d = tlv_encode es @ r" using m by (simp add: assms(2))
  ultimately show meta: "metadata d = Some es" using assms(1) by (simp add: metadata_def h tlv_decode_encode consistent_def)
  have "36 \<le> length d" using m by (simp add: assms(2))
  then show "sof_verdict d = SOF_OK"
    using assms(1) meta h by (auto simp: sof_verdict_def Let_def consistent_def unat_gt_0 [symmetric] unat_eq_zero)
qed

lemma sof_parse_consistent:
  assumes "consistent h es po ps (length d)" "d = encode_header h @ tlv_encode es @ r" "parsed_wf q"
  shows "\<exists>q'. sof_parse (Some d) (length d) (Some q) = Some (SOF_OK, Some q') \<and> parsed_wf q' \<and> sp_header q' = h \<and>
    sp_payload q' = drop po d \<and> sp_payload_size q' = ps \<and> sp_has_signature q' = sof_signature_present (Some h) \<and> holds_metas q' es"
  using sof_parse_eq [OF assms(3), of d] consistent_file [OF assms(1,2)] assms(1) by (auto simp: consistent_def)

subsection \<open>Looking up metadata\<close>

lemma holds_nth:
  assumes "holds_metas q es" "i < length es"
  shows "entry_holds (sp_meta q ! i) (es ! i)" "me_key (sp_meta q ! i) = fst (es ! i)"
proof -
  show e: "entry_holds (sp_meta q ! i) (es ! i)" using assms by (auto simp: holds_metas_def list_all2_conv_all_nth)
  then show "me_key (sp_meta q ! i) = fst (es ! i)" by (auto simp: entry_holds_def split: prod.splits)
qed

lemma sof_get_meta_found:
  assumes "holds_metas q es" "distinct (map fst es)" "(k, v) \<in> set es"
  shows "\<exists>w. sof_get_meta (Some q) k = (SOF_OK, Some (w, length v)) \<and> take (min (length v) 63 + 1) w = take 63 v @ [0]"
proof -
  obtain j where j: "j < length es" "es ! j = (k, v)" using assms(3) by (auto simp: in_set_conv_nth)
  have "find (\<lambda>i. me_key (sp_meta q ! i) = k) [0..<length es] = Some j"
    unfolding find_Some_iff
  proof (intro exI [of _ j] conjI allI impI)
    fix i assume "i < j"
    then have "fst (es ! i) \<noteq> fst (es ! j)" using assms(2) j(1) by (simp add: distinct_conv_nth)
    then show "me_key (sp_meta q ! ([0..<length es] ! i)) \<noteq> k" using holds_nth(2) [OF assms(1), of i] j \<open>i < j\<close> by simp
  qed (use j holds_nth(2) [OF assms(1)] in simp_all)
  moreover have "sp_meta_count q = length es" using assms(1) by (simp add: holds_metas_def)
  ultimately show ?thesis using holds_nth(1) [OF assms(1) j(1)] j by (auto simp: sof_get_meta_def entry_holds_def)
qed

lemma sof_get_meta_missing:
  assumes "holds_metas q es" "k \<notin> fst ` set es"
  shows "sof_get_meta (Some q) k = (SOF_ERR_INVALID_META, None)"
proof -
  have "find (\<lambda>i. me_key (sp_meta q ! i) = k) [0..<length es] = None"
    using assms(2) holds_nth(2) [OF assms(1)] by (auto simp: find_None_iff)
  then show ?thesis using assms(1) by (simp add: sof_get_meta_def holds_metas_def)
qed

lemma keys_present: "map fst (present fs) = map fst (filter (\<lambda>f. snd f \<noteq> None) fs)"
  by (induction fs) (auto simp: present_def split: option.splits)

lemma keys_clip: "map fst (map clip es) = map fst es"
  by (simp add: clip_def case_prod_unfold comp_def)

lemma distinct_metas: "distinct (map fst (map clip (present (sof_meta_fields p))))"
  unfolding keys_clip keys_present by (rule distinct_map_filter) (simp add: sof_meta_fields_def)

subsection \<open>Built files\<close>

lemma consistent_built:
  assumes "buildable p" "file_size p < 2 ^ 32"
  shows "consistent (built_header p) (map clip (present (sof_meta_fields p))) (36 + meta_bytes p) (sb_elf_payload_size p) (file_size p)"
proof -
  obtain pl where pl: "sb_elf_payload p = Some pl" "pl \<noteq> []" "sb_elf_payload_size p = length pl" using assms(1) by (auto simp: buildable_def)
  have fs: "file_size p = 36 + meta_bytes p + length pl" by (simp add: file_size_def pl)
  have "unat (of_nat (36 + meta_bytes p) :: u32) = 36 + meta_bytes p" "unat (of_nat (length pl) :: u32) = length pl"
    "unat (of_nat (file_size p) :: u32) = file_size p"
    by (rule unat_of_nat_small; use assms(2) fs in simp)+
  moreover have "unat (of_nat (length (present (sof_meta_fields p))) :: u16) = length (present (sof_meta_fields p))"
    by (rule unat_of_nat_small) (use present_fields [of p] in simp)
  ultimately show ?thesis
    using assms pl fs present_fields [of p] unat_of_nat_le [of "meta_bytes p", where ?'a = 16]
    by (auto simp: consistent_def built_header_def buildable_def clip_def simp del: of_nat_add)
qed

lemma built_payload:
  assumes "buildable p" "length h = 36"
  shows "take (sb_elf_payload_size p) (drop (36 + meta_bytes p) (h @ file_body p @ r)) = the (sb_elf_payload p)"
proof -
  obtain pl where pl: "sb_elf_payload p = Some pl" "sb_elf_payload_size p = length pl" using assms(1) by (auto simp: buildable_def)
  have ms: "length (tlv_encode (map clip (present (sof_meta_fields p)))) \<le> meta_bytes p"
    unfolding meta_bytes_def by (rule clipped_length)
  then have "drop (meta_bytes p) (file_body p @ r) = pl @ r" by (simp add: file_body_def Let_def pl)
  moreover have "drop (36 + meta_bytes p) (h @ file_body p @ r) = drop (meta_bytes p) (file_body p @ r)" using assms(2) by simp
  ultimately show ?thesis using pl by simp
qed

lemma length_built: "buildable p \<Longrightarrow> length (encode_header (built_header p)) = 36 \<and> length (file_body p) = file_size p - 36"
  using length_file_body [of p] by (auto simp: buildable_def built_header_def SOF_MAGIC_def file_size_def)

subsection \<open>Signatures\<close>

lemma sof_mem_equal_iff: "length a = n \<Longrightarrow> length b = n \<Longrightarrow> sof_mem_equal a b n \<longleftrightarrow> a = b"
  using cert_mem_equal_iff by (simp add: sof_mem_equal_def cert_mem_equal_def)

lemma sof_verify_eq:
  fixes d :: "u8 list" and root :: cert_root and q :: sof_parsed_file_t
  defines "pk \<equiv> cert_get_root_public_key root" and "h \<equiv> sp_header q"
  assumes ctx: "length (sx_buffer ctx) = 128" and pk: "length pk = 32"
    and q: "sp_payload q = drop (unat (hd_payload_offset h)) d" "sp_payload_size q = unat (hd_payload_size h)"
    and win: "unat (hd_payload_offset h) + unat (hd_payload_size h) \<le> length d" "length d < 2 ^ 64"
    and sgn: "unat (hd_sig_offset h) + unat (hd_sig_size h) < 2 ^ 32"
  shows "sof_verify_signature ctx root (Some d) (length d) (Some q) =
    Some (if \<not> sof_signature_present (Some h) \<or> signed_under pk h d then SOF_OK else SOF_ERR_SIGNATURE_INVALID)"
proof (cases "sof_signature_present (Some h) \<and> 196 \<le> unat (hd_sig_size h) \<and> unat (hd_sig_offset h) + unat (hd_sig_size h) \<le> length d")
  case False
  then show ?thesis using sgn by (auto simp: sof_verify_signature_def h_def [symmetric] unat_add_32 signed_under_def Let_def)
next
  case True
  define s where "s = drop (unat (hd_sig_offset h)) d"
  have s: "196 \<le> length s" using True by (auto simp: s_def)
  let ?c = "cert_of_bytes s"
  note parse = cert_parse_eq [of s 132]
  have wf: "cert_wf ?c" by (rule cert_wf_of_bytes) (use s in simp)
  have hash: "sof_mem_equal (ct_issuer_key_hash ?c) (key_hash pk) 32 \<longleftrightarrow> ct_issuer_key_hash ?c = key_hash pk"
    by (rule sof_mem_equal_iff) (use wf in \<open>simp_all add: cert_wf_def\<close>)
  have pl: "read_bytes (sp_payload q) 0 (sp_payload_size q) = Some (file_payload h d)"
    using win by (simp add: read_bytes_def q file_payload_def)
  have hp: "sha512_hash ctx (Some (file_payload h d)) = fips_sha512 (file_payload h d)"
    by (rule hash_one [OF ctx]) (use win in \<open>simp add: file_payload_def\<close>)
  have sg: "read_bytes s 132 64 = Some (take 64 (drop 132 s))" using s by (simp add: read_bytes_def)
  have ver: "ed25519_verify ctx (Some (take 64 (drop 132 s))) (Some (fips_sha512 (file_payload h d))) (Some (ct_subject_public_key ?c)) =
    Some (rfc_verify (take 64 (drop 132 s)) (fips_sha512 (file_payload h d)) (ct_subject_public_key ?c))"
    using verify_eq [OF ctx, of "take 64 (drop 132 s)" "ct_subject_public_key ?c" "Some (fips_sha512 (file_payload h d))"] s wf
    by (simp add: msg_bytes_def cert_wf_def)
  have magic: "ct_magic ?c = take 4 s" by (simp add: cert_of_bytes_def)
  show ?thesis
    using True sgn s
    by (simp add: sof_verify_signature_def h_def [symmetric] pk_def [symmetric] s_def [symmetric] unat_add_32 parse public_key_hash_eq [OF ctx pk]
        hash cert_verify_eq [OF ctx wf pk] pl hp sg ver signed_under_def Let_def magic vouches_def
        sof_mem_equal_iff [of "key_hash pk" 32 "key_hash pk"])
qed

definition signed_header :: "sof_build_params_t \<Rightarrow> sof_header_t" where
  "signed_header p = (built_header p)\<lparr> hd_total_size := of_nat (file_size p + 196), hd_sig_offset := of_nat (file_size p), hd_sig_size := 196 \<rparr>"

lemma patch_header:
  assumes "length (hd_magic h) = 4"
  shows "sof_write_u32 (encode_header h @ r) 8 v = Some (encode_header (h\<lparr> hd_total_size := v \<rparr>) @ r)"
    "sof_write_u32 (encode_header h @ r) 28 v = Some (encode_header (h\<lparr> hd_sig_offset := v \<rparr>) @ r)"
    "sof_write_u32 (encode_header h @ r) 32 v = Some (encode_header (h\<lparr> hd_sig_size := v \<rparr>) @ r)"
  using assms by (simp_all add: write_u_defs write_bytes_def buf_put_def encode_header_def)

lemma consistent_signed:
  assumes "buildable p" "file_size p + 196 < 2 ^ 32"
  shows "consistent (signed_header p) (map clip (present (sof_meta_fields p))) (36 + meta_bytes p) (sb_elf_payload_size p) (file_size p + 196)"
proof -
  have "consistent (built_header p) (map clip (present (sof_meta_fields p))) (36 + meta_bytes p) (sb_elf_payload_size p) (file_size p)"
    by (rule consistent_built) (use assms in simp_all)
  then show ?thesis using unat_of_nat_le [of "file_size p + 196", where ?'a = 32] assms(2)
    by (auto simp: consistent_def signed_header_def simp del: of_nat_add)
qed

lemma sof_build_signed_eq:
  assumes ctx: "length (sx_buffer ctx) = 128" and p: "buildable p" and fits: "file_size p + 196 \<le> length buf" "file_size p + 196 < 2 ^ 32"
    and keys: "length seed = 32" "length pk = 32" and cert: "132 \<le> length cert_data" "132 \<le> cert_len"
  shows "sof_build_signed ctx (Some p) (Some seed) (Some pk) (Some cert_data) cert_len (Some buf) (length buf) (Some n) =
    Some (SOF_OK, Some (encode_header (signed_header p) @ file_body p @ take 132 cert_data @
        rfc_sign (fips_sha512 (the (sb_elf_payload p))) pk seed @ drop (file_size p + 196) buf), Some (file_size p + 196))"
proof -
  let ?h = "built_header p" and ?pl = "the (sb_elf_payload p)" and ?rest = "drop (file_size p) buf"
  let ?sg = "rfc_sign (fips_sha512 ?pl) pk seed"
  let ?buf = "encode_header ?h @ file_body p @ ?rest"
  have build: "sof_build (Some p) (Some buf) (length buf) (Some 0) = Some (SOF_OK, Some ?buf, Some (file_size p))"
    by (rule sof_build_eq [OF p]) (use fits in simp_all)
  have len: "length (encode_header ?h) = 36" "length (file_body p) = file_size p - 36" "36 \<le> file_size p"
    using length_built [OF p] by (simp_all add: file_size_def)
  have m: "length (hd_magic ?h) = 4" by (simp add: built_header_def SOF_MAGIC_def)
  have c: "consistent ?h (map clip (present (sof_meta_fields p))) (36 + meta_bytes p) (sb_elf_payload_size p) (file_size p)"
    by (rule consistent_built [OF p]) (use fits in simp)
  have hd: "header_of ?buf = ?h" by (rule header_of_encode [OF m])
  have "le32 (drop 20 ?buf) = hd_payload_offset ?h" "le32 (drop 24 ?buf) = hd_payload_size ?h"
    using arg_cong [OF hd, of hd_payload_offset] arg_cong [OF hd, of hd_payload_size] by (simp_all add: header_of_def)
  then have off: "sof_read_u32 ?buf 20 = Some (hd_payload_offset ?h)" "sof_read_u32 ?buf 24 = Some (hd_payload_size ?h)"
    using len by (simp_all add: read_u32_in)
  have pl: "read_bytes ?buf (unat (hd_payload_offset ?h)) (unat (hd_payload_size ?h)) = Some ?pl"
    using c built_payload [OF p len(1)] len by (simp add: read_bytes_in consistent_def)
  have hash: "sha512_hash ctx (Some ?pl) = fips_sha512 ?pl"
    by (rule hash_one [OF ctx]) (use p fits in \<open>auto simp: buildable_def file_size_def\<close>)
  have sg: "ed25519_sign ctx (Some (fips_sha512 ?pl)) pk (seed @ pk) = Some ?sg"
    using sign_eq [OF ctx keys(2,1), of "Some (fips_sha512 ?pl)" pk] by (simp add: msg_bytes_def)
  have w1: "write_bytes ?buf (file_size p) (take 132 cert_data) = Some (encode_header ?h @ file_body p @ take 132 cert_data @ drop (132 + file_size p) buf)"
    using write_next [of "encode_header ?h @ file_body p" "file_size p" "take 132 cert_data" ?rest] len fits cert by simp
  have w2: "write_bytes (encode_header ?h @ file_body p @ take 132 cert_data @ drop (132 + file_size p) buf) (file_size p + 132) ?sg =
    Some (encode_header ?h @ file_body p @ take 132 cert_data @ ?sg @ drop (file_size p + 196) buf)"
    using write_next [of "encode_header ?h @ file_body p @ take 132 cert_data" "file_size p + 132" ?sg "drop (132 + file_size p) buf"] len fits cert
    by (simp add: add.commute)
  have keys': "read_bytes seed 0 32 = Some seed" "read_bytes pk 0 32 = Some pk" "read_bytes cert_data 0 132 = Some (take 132 cert_data)"
    using keys cert by (simp_all add: read_bytes_def)
  have "sof_build_signed ctx (Some p) (Some seed) (Some pk) (Some cert_data) cert_len (Some buf) (length buf) (Some n) = do {
      buf \<leftarrow> sof_write_u32 (encode_header ?h @ file_body p @ take 132 cert_data @ ?sg @ drop (file_size p + 196) buf) 8 (of_nat (file_size p + 196));
      buf \<leftarrow> sof_write_u32 buf 28 (of_nat (file_size p));
      buf \<leftarrow> sof_write_u32 buf 32 196;
      Some (SOF_OK, Some buf, Some (file_size p + 196)) }"
    using cert fits by (simp add: sof_build_signed_def build off pl hash sg w1 w2 keys' Let_def del: of_nat_add)
  then show ?thesis using m by (simp add: patch_header signed_header_def del: of_nat_add)
qed

subsection \<open>Sample files\<close>

definition blank_parsed :: sof_parsed_file_t where
  "blank_parsed = \<lparr> sp_header = header_of (replicate 36 0),
     sp_meta = replicate 12 \<lparr> me_key = 0, me_value_len = 0, me_value = replicate 64 0 \<rparr>,
     sp_meta_count = 0, sp_payload = [], sp_payload_size = 0, sp_has_signature = False \<rparr>"

definition sample_header :: "u32 \<Rightarrow> u32 \<Rightarrow> u32 \<Rightarrow> u32 \<Rightarrow> sof_header_t" where
  \<comment> \<open>no metadata; payload and signature windows as given\<close>
  "sample_header po ps so ss = \<lparr> hd_magic = SOF_MAGIC, hd_format_version = 1, hd_file_type = SOF_TYPE_BIN, hd_flags = 0,
     hd_total_size = 36, hd_meta_offset = 36, hd_meta_count = 0, hd_meta_size = 0, hd_payload_offset = po,
     hd_payload_size = ps, hd_sig_offset = so, hd_sig_size = ss \<rparr>"

definition wrap_file :: "u8 list" where
  \<comment> \<open>a payload of 32 bytes at \<open>2 ^ 32 - 16\<close>\<close>
  "wrap_file = encode_header (sample_header 0xFFFFFFF0 32 0 0)"

definition sample_file :: "u8 list" where
  \<comment> \<open>three bytes of payload, and a signature section too short for a certificate\<close>
  "sample_file = encode_header (sample_header 36 3 36 3) @ [1, 2, 3]"

definition sample_params :: sof_build_params_t where
  "sample_params = \<lparr> sb_file_type = SOF_TYPE_BIN, sb_name = Some [0x61], sb_description = None, sb_author = None, sb_version = None,
     sb_date = None, sb_icon = None, sb_syscall_id = None, sb_elf_payload = Some [1, 2, 3], sb_elf_payload_size = 3 \<rparr>"

lemma blank_parsed_wf: "parsed_wf blank_parsed"
  by (simp add: parsed_wf_def blank_parsed_def)

lemma header_of_sample: "header_of (encode_header (sample_header po ps so ss) @ r) = sample_header po ps so ss"
  by (rule header_of_encode) (simp add: sample_header_def SOF_MAGIC_def)

lemma wrap_file_accepted:
  "length wrap_file = 36" "sof_verdict wrap_file = SOF_OK" "header_of wrap_file = sample_header 0xFFFFFFF0 32 0 0"
proof -
  show len: "length wrap_file = 36" by (simp add: wrap_file_def sample_header_def SOF_MAGIC_def)
  show h: "header_of wrap_file = sample_header 0xFFFFFFF0 32 0 0" using header_of_sample [of _ _ _ _ "[]"] by (simp add: wrap_file_def)
  show "sof_verdict wrap_file = SOF_OK"
    by (simp add: sof_verdict_def Let_def h len metadata_def meta_count_def) (simp add: sample_header_def)
qed

lemma sample_params_facts: "buildable sample_params" "file_size sample_params = 42" "present (sof_meta_fields sample_params) = [(1, [0x61])]"
  by (simp_all add: buildable_def sample_params_def file_size_def meta_bytes_def sof_meta_fields_def)

section \<open>Properties\<close>





text \<open>
  C39: signatures are judged exactly.  For a parsed file whose payload and signature windows do not wrap around,
  verification never reads outside the file or overflows; it accepts the file exactly when it is unsigned, or
  when its signature section lies in the file and holds a certificate that names the trusted root key and carries
  a valid RFC 8032 signature of it, followed by a valid signature of the SHA-512 of the payload under the
  certified key.  Header and metadata are not covered.
\<close>

theorem sof_verify_exact:
  assumes "length (sx_buffer ctx) = SHA512_BLOCK_SIZE" "length (cert_get_root_public_key root) = 32"
    and "parsed_wf q" "sof_parse (Some d) (length d) (Some q) = Some (SOF_OK, Some q')" "length d < 2 ^ 32"
    and "unat (hd_payload_offset (header_of d)) + unat (hd_payload_size (header_of d)) < 2 ^ 32"
    and "unat (hd_sig_offset (header_of d)) + unat (hd_sig_size (header_of d)) < 2 ^ 32"
  shows "sof_verify_signature ctx root (Some d) (length d) (Some q') =
    Some (if \<not> sof_signature_present (Some (header_of d)) \<or> signed_under (cert_get_root_public_key root) (header_of d) d
          then SOF_OK else SOF_ERR_SIGNATURE_INVALID)"
proof -
  have v: "sof_verdict d = SOF_OK" and q': "sp_header q' = header_of d" "sp_payload q' = drop (unat (hd_payload_offset (header_of d))) d"
      "sp_payload_size q' = unat (hd_payload_size (header_of d))"
    using sof_parse_eq [OF assms(3), of d] assms(4) by auto
  have "unat (hd_payload_offset (header_of d)) + unat (hd_payload_size (header_of d)) \<le> length d"
    using v assms(6) by (auto simp: sof_verdict_def Let_def split: if_splits)
  then show ?thesis using sof_verify_eq [of ctx root q' d] assms(1,2,5,7) q' by simp
qed

theorem sof_verify_exact_witness:
  "\<exists>q. sof_parse (Some sample_file) (length sample_file) (Some blank_parsed) = Some (SOF_OK, Some q) \<and>
     sof_verify_signature blank_ctx \<lparr> cert_root_key_cache = [], cert_root_key_set = False \<rparr> (Some sample_file) (length sample_file) (Some q) =
       Some SOF_ERR_SIGNATURE_INVALID"
proof -
  have h: "header_of sample_file = sample_header 36 3 36 3" unfolding sample_file_def by (rule header_of_sample)
  have len: "length sample_file = 39" by (simp add: sample_file_def sample_header_def SOF_MAGIC_def)
  have v: "sof_verdict sample_file = SOF_OK"
    by (simp add: sof_verdict_def Let_def h len metadata_def meta_count_def) (simp add: sample_header_def)
  then obtain q where q: "sof_parse (Some sample_file) (length sample_file) (Some blank_parsed) = Some (SOF_OK, Some q)"
    using sof_parse_eq [OF blank_parsed_wf, of sample_file] by auto
  have "sof_verify_signature blank_ctx \<lparr> cert_root_key_cache = [], cert_root_key_set = False \<rparr> (Some sample_file) (length sample_file) (Some q) =
       Some SOF_ERR_SIGNATURE_INVALID"
    by (subst sof_verify_exact [OF _ _ blank_parsed_wf q])
      (simp_all add: h len blank_ctx_def cert_get_root_public_key_def SECUREOS_ROOT_PUBLIC_KEY_def sample_header_def
        sof_signature_present_def signed_under_def Let_def)
  then show ?thesis using q by blast
qed

text \<open>
  C40: a signed file carries the right signature.  Building a signed file with a signing key and a certificate
  succeeds, and parsing the result gives back payload and metadata.  Its verification accepts exactly when the
  certificate is one of the trusted root key and the RFC 8032 signature that the signing key makes of the SHA-512
  of the payload is valid under the key that the certificate names.
\<close>

theorem sof_build_signed_verifies:
  assumes "length (sx_buffer ctx) = SHA512_BLOCK_SIZE" "length (cert_get_root_public_key root) = 32"
    and "buildable p" "file_size p + 196 \<le> length buf" "file_size p + 196 < 2 ^ 32" "parsed_wf q"
    and "length seed = 32" "length pk = 32" "length cert_data = SECUREOS_CERT_TOTAL_SIZE"
  shows "\<exists>buf' q'. sof_build_signed ctx (Some p) (Some seed) (Some pk) (Some cert_data) SECUREOS_CERT_TOTAL_SIZE
        (Some buf) (length buf) (Some n) = Some (SOF_OK, Some buf', Some (file_size p + 196)) \<and>
    sof_parse (Some (take (file_size p + 196) buf')) (file_size p + 196) (Some q) = Some (SOF_OK, Some q') \<and>
    sp_has_signature q' \<and> take (sp_payload_size q') (sp_payload q') = the (sb_elf_payload p) \<and>
    holds_metas q' (map clip (present (sof_meta_fields p))) \<and>
    sof_verify_signature ctx root (Some (take (file_size p + 196) buf')) (file_size p + 196) (Some q') =
      Some (if ct_magic (cert_of_bytes cert_data) = CERT_MAGIC \<and> vouches (cert_get_root_public_key root) (cert_of_bytes cert_data) \<and>
               rfc_verify (rfc_sign (fips_sha512 (the (sb_elf_payload p))) pk seed) (fips_sha512 (the (sb_elf_payload p)))
                 (ct_subject_public_key (cert_of_bytes cert_data)) = ED25519_OK
            then SOF_OK else SOF_ERR_SIGNATURE_INVALID)"
proof -
  let ?es = "map clip (present (sof_meta_fields p))" and ?h = "signed_header p" and ?pl = "the (sb_elf_payload p)"
  let ?sg = "rfc_sign (fips_sha512 ?pl) pk seed"
  define d where "d = encode_header ?h @ file_body p @ cert_data @ ?sg"
  have m: "length (encode_header ?h) = 36" by (simp add: signed_header_def built_header_def SOF_MAGIC_def)
  have front: "length (encode_header ?h @ file_body p) = file_size p" using length_built [OF assms(3)] m by (simp add: file_size_def)
  then have len: "length d = file_size p + 196" using assms(9) by (simp add: d_def)
  have c: "consistent ?h ?es (36 + meta_bytes p) (sb_elf_payload_size p) (length d)"
    using consistent_signed [OF assms(3,5)] len by simp
  obtain r where r: "d = encode_header ?h @ tlv_encode ?es @ r" by (simp add: d_def file_body_def Let_def)
  obtain q' where q': "sof_parse (Some d) (length d) (Some q) = Some (SOF_OK, Some q')" "sp_header q' = ?h"
      "sp_payload q' = drop (36 + meta_bytes p) d" "sp_payload_size q' = sb_elf_payload_size p"
      "sp_has_signature q' = sof_signature_present (Some ?h)" "holds_metas q' ?es"
    using sof_parse_consistent [OF c r assms(6)] by blast
  have payload: "take (sp_payload_size q') (sp_payload q') = ?pl"
    using built_payload [OF assms(3) m, of "cert_data @ ?sg"] q' by (simp add: d_def)
  have so: "unat (hd_sig_offset ?h) = file_size p" "unat (hd_sig_size ?h) = 196"
    using assms(5) by (simp_all add: signed_header_def unat_of_nat_small)
  have po: "unat (hd_payload_offset ?h) = 36 + meta_bytes p" "unat (hd_payload_size ?h) = sb_elf_payload_size p"
    "36 + meta_bytes p + sb_elf_payload_size p \<le> length d"
    using c by (simp_all add: consistent_def)
  have present: "sof_signature_present (Some ?h)"
    using so by (auto simp: sof_signature_present_def file_size_def dest!: arg_cong [of _ _ unat])
  have sec: "drop (file_size p) d = cert_data @ ?sg" using front by (simp add: d_def)
  have cb: "cert_of_bytes (cert_data @ ?sg) = cert_of_bytes cert_data" using assms(9) by (simp add: cert_of_bytes_def)
  have "file_payload ?h d = ?pl" using payload q' po by (simp add: file_payload_def)
  then have "signed_under (cert_get_root_public_key root) ?h d \<longleftrightarrow> ct_magic (cert_of_bytes cert_data) = CERT_MAGIC \<and>
      vouches (cert_get_root_public_key root) (cert_of_bytes cert_data) \<and>
      rfc_verify ?sg (fips_sha512 ?pl) (ct_subject_public_key (cert_of_bytes cert_data)) = ED25519_OK"
    using so len assms(9) by (simp add: signed_under_def Let_def sec cb)
  moreover have "sof_verify_signature ctx root (Some d) (length d) (Some q') =
      Some (if signed_under (cert_get_root_public_key root) ?h d then SOF_OK else SOF_ERR_SIGNATURE_INVALID)"
    using sof_verify_eq [of ctx root q' d] assms(1,2,5) q' po so len present by simp
  moreover have "sof_build_signed ctx (Some p) (Some seed) (Some pk) (Some cert_data) 132 (Some buf) (length buf) (Some n) =
      Some (SOF_OK, Some (d @ drop (file_size p + 196) buf), Some (file_size p + 196))"
    using sof_build_signed_eq [OF assms(1,3,4,5,7,8), of cert_data 132 n] assms(9) by (simp add: d_def)
  ultimately show ?thesis using q' payload present len
    by (intro exI [of _ "d @ drop (file_size p + 196) buf"] exI [of _ q']) simp
qed

theorem sof_build_signed_verifies_witness:
  "\<exists>buf q. sof_build_signed blank_ctx (Some sample_params) (Some (replicate 32 1)) (Some (replicate 32 2)) (Some (replicate 132 0)) 132
       (Some (replicate 300 7)) 300 (Some 0) = Some (SOF_OK, Some buf, Some 238) \<and>
     sof_parse (Some (take 238 buf)) 238 (Some blank_parsed) = Some (SOF_OK, Some q) \<and> take (sp_payload_size q) (sp_payload q) = [1, 2, 3] \<and>
     sof_verify_signature blank_ctx \<lparr> cert_root_key_cache = [], cert_root_key_set = False \<rparr> (Some (take 238 buf)) 238 (Some q) =
       Some SOF_ERR_SIGNATURE_INVALID"
proof -
  have "ct_magic (cert_of_bytes (replicate 132 0)) \<noteq> CERT_MAGIC" by code_simp
  then show ?thesis
    using sof_build_signed_verifies [of blank_ctx "\<lparr> cert_root_key_cache = [], cert_root_key_set = False \<rparr>" sample_params "replicate 300 7"
      blank_parsed "replicate 32 1" "replicate 32 2" "replicate 132 0" 0] sample_params_facts blank_parsed_wf
    by (auto simp: blank_ctx_def cert_get_root_public_key_def SECUREOS_ROOT_PUBLIC_KEY_def sample_params_def)
qed

end
