(* ===== verification/Spec2Isabelle.thy ===== *)
theory Spec2Isabelle
  imports Cap_Gate Cap_Handle Cap_Broker Workflow_Rule Kheap Event_Bus Address_Space Ipc_Flow Sof
begin

text \<open>
  \<^bold>\<open>SecureOS: a verification library for the kernel.\<close>

  SecureOS is a capability-based kernel written in C.  Every privileged action is allowed only to
  subjects that hold a capability; processes run cooperatively and talk through one-message ports;
  executables carry Ed25519 signatures.  This library models the part of the kernel that decides:
  who may do what, what is recorded about it, which process runs, where a message goes, which memory
  a client gets, and whether a signature is genuine.  All paths below are relative to \<^verbatim>\<open>src/kernel\<close>.

  \<^bold>\<open>The parts and how they meet.\<close>  \<^verbatim>\<open>cap/cap_table.c\<close> holds a bit per subject and capability.
  \<^verbatim>\<open>cap/capability.c\<close> wraps it with actor checks and an audit ring, \<^verbatim>\<open>cap/cap_gate.c\<close> asks it on behalf of
  devices and prints deny lines of \<^verbatim>\<open>cap/cap_deny_marker.c\<close>.  \<^verbatim>\<open>cap/cap_handle.c\<close> keeps revocable handles to
  capabilities, \<^verbatim>\<open>cap/cap_broker.c\<close> lets an owner share one, \<^verbatim>\<open>cap/workflow_rule.c\<close> scopes rules to tenants.
  \<^verbatim>\<open>event/event_bus.c\<close> checks the table before it publishes.  \<^verbatim>\<open>proc/process.c\<close> binds subjects to windows of
  \<^verbatim>\<open>proc/address_space.c\<close> and revokes a dead subject's handles; \<^verbatim>\<open>proc/proc_sched.c\<close> runs the processes, which
  call \<^verbatim>\<open>ipc/ipc_ops.c\<close> on the ports of \<^verbatim>\<open>ipc/ipc_port.c\<close>.  \<^verbatim>\<open>mem/kheap.c\<close> is the allocator;
  \<^verbatim>\<open>crypto/sha512.c\<close> and \<^verbatim>\<open>crypto/ed25519.c\<close> are the cryptography, on which the certificates of
  \<^verbatim>\<open>crypto/cert.c\<close> and the signed executables of \<^verbatim>\<open>format/sof.c\<close> rest.

  \<^bold>\<open>How the code is rendered.\<close>  A static variable group of a file is a record, a function of the file is a
  definition of the same name that takes the state and returns the result code and the new state, in the
  order of the code's checks.  A C array is a list of its length, an array index loop is a fold or the
  first-match search of \<^verbatim>\<open>Prelude\<close>, a \<^verbatim>\<open>uintN_t\<close> is an \<open>N word\<close>.  \<^verbatim>\<open>size_t\<close> has 64 bits (the build targets
  x86-64); where it can wrap, the wrap-around is written out.  A null pointer is \<open>None\<close>.  Undefined
  behaviour is a value: an index outside an array on the event bus, a loop that does not end in the heap,
  signed overflow in Ed25519 and an access outside a buffer in certificates and executables give \<open>None\<close>,
  and the theorems say when that cannot happen.

  \<^bold>\<open>Theories.\<close>
  \<^item> \<^verbatim>\<open>Prelude\<close>: word types, first-match loops, the bounded text writer and the decimal printer, rings, and
    the lemma collections of the library.  \<^verbatim>\<open>Ring_Log\<close>: the contract of an overwriting log as a locale,
    interpreted on the audit, checkpoint and topic rings.  \<^verbatim>\<open>Slot_Handle\<close>: generation-tagged handles
    as a locale, interpreted on ports and processes.  \<^verbatim>\<open>Byte_Memory\<close>: little-endian fields in memory.
  \<^item> \<^verbatim>\<open>Cap_Table\<close> (C1, C2): the bitset refines a set of pairs; a check answers by the last operation.
  \<^item> \<^verbatim>\<open>Cap_Audit\<close> (C3 to C7): authority spreads only through admin holders; the log is the last 32 decisions;
    checkpoints, seal and line format.
  \<^item> \<^verbatim>\<open>Cap_Deny_Marker\<close> (C8, C9): validator against a grammar, and the round trip with the formatter.
    \<^verbatim>\<open>Cap_Gate\<close> (C10): the device gates.
  \<^item> \<^verbatim>\<open>Cap_Handle\<close> (C11 to C14): grants, subtree revocation as reachability (the 64 passes of the code
    are shown to be enough for its 64 rows), and how long a stale handle stays stale.
  \<^item> \<^verbatim>\<open>Cap_Broker\<close> (C15, C16): consent and life cycle of shares.
    \<^verbatim>\<open>Workflow_Rule\<close> (C17 to C19): exact evaluation, tenant isolation, complete log.
  \<^item> \<^verbatim>\<open>Kheap\<close> (C20, C21): a simulation between the bytes of the arena and a map from pointers to
    contents.  The free-list loops are partial functions; C20 includes that they return.
  \<^item> \<^verbatim>\<open>Event_Bus\<close> (C22, C23): what a topic delivers, and where the topic check fails.
    \<^verbatim>\<open>Address_Space\<close> (C24): windows are disjoint.
  \<^item> \<^verbatim>\<open>Ipc_Port\<close> (C25): ports as mailboxes.  \<^verbatim>\<open>Process_Table\<close> (C26): life of a process.
  \<^item> \<^verbatim>\<open>Kernel_State\<close>, \<^verbatim>\<open>Proc_Sched\<close>, \<^verbatim>\<open>Ipc_Ops\<close>, \<^verbatim>\<open>Sched_Run\<close>, \<^verbatim>\<open>Ipc_Flow\<close> (C27 to C31): the
    scheduler with its processes.  A process is an arbitrary finite program of kernel calls that may
    depend on the answers it gets; a suspended context is the rest of that program.  The run loop is a
    partial function and C27 proves that it returns.  C28 is a schedule that ends in a deadlock with a
    message undelivered, C29 the refusals, C30 delivery, C31 the envelope invariant.
  \<^item> \<^verbatim>\<open>Sha512\<close> (C32): streaming equals the one-shot digest of FIPS 180-4.  One chunk has fewer than
    \<open>2 ^ 64\<close> bytes, as its length is a \<^verbatim>\<open>size_t\<close>.
  \<^item> \<^verbatim>\<open>Ed25519_Field\<close>, \<^verbatim>\<open>Ed25519_Encoding\<close>, \<^verbatim>\<open>Ed25519_Scalar\<close>, \<^verbatim>\<open>Ed25519\<close> (C33 to C35): every \<^verbatim>\<open>int64_t\<close>
    operation is checked for overflow; the limb code is shown to stay in range and to compute the RFC
    8032 functions over the integers, and its addition to follow the twisted Edwards law.  That the
    points form a group, and hence that a genuine signature verifies, is mathematics this library does
    not contain.
  \<^item> \<^verbatim>\<open>Cert\<close> (C36): certificates are parsed and validated exactly.  \<^verbatim>\<open>Sof\<close> (C37 to C40): the parser against a
    reference decoder, with the 32-bit wrap-around that its bounds check misses; the round trip of building
    and parsing; the exact verdict on signatures; and what a signed build verifies to.

  \<^bold>\<open>Not modelled.\<close>  Code whose meaning is input and output, processor state or machine code: \<^verbatim>\<open>arch\<close>,
  \<^verbatim>\<open>drivers\<close>, \<^verbatim>\<open>hal\<close>, \<^verbatim>\<open>core\<close> (console, boot, context switch), \<^verbatim>\<open>clock\<close>, \<^verbatim>\<open>gfx\<close>, and the launchers of \<^verbatim>\<open>user\<close>,
  which load ELF images and jump into them.  The file system \<^verbatim>\<open>fs\<close>, the service wrappers \<^verbatim>\<open>svc\<close>, the
  session scheduler \<^verbatim>\<open>sched/scheduler.c\<close>, the demonstration \<^verbatim>\<open>proc/module_registry.c\<close> and the stub
  \<^verbatim>\<open>proc/syscall_entry.c\<close> are left out as well, as are user space, host tools and vendored libraries.
\<close>

end
